(* ===== verification/Siren_Prelude.thy ===== *)
theory Siren_Prelude
  imports Main "HOL-Library.Word"
begin

text \<open>
  Shared vocabulary of the development.

  \<^item> The C++ integer types the sources use, as words: \<open>size_t\<close> (64 bit, unsigned),
    \<open>cint\<close> (32 bit \<open>int\<close>, read with \<open>sint\<close>), \<open>byte\<close>.
  \<^item> Faults: what makes the process stop or leaves defined behaviour (a failed \<open>assert\<close>,
    which the Debug build of \<open>CMakeLists.txt\<close> keeps, \<open>std::length_error\<close>, an empty
    \<open>std::function\<close> called, a read or write outside an object, \<open>std::bad_alloc\<close>), or a system call that waits forever. A fallible operation
    returns \<open>'a result\<close>, and \<open>rbind\<close> sequences two of them.
  \<^item> A forward element-wise copy, which is what \<open>std::copy\<close> does on one array.
  \<^item> A generic transition system with its reachable states and the invariant rule.
\<close>

unbundle bit_operations_syntax

named_theorems result_simps "rewrite rules for the result type"
named_theorems size_simps "moving size_t arithmetic to nat"

section \<open>Types and results\<close>

type_synonym byte = "8 word"
type_synonym size_t = "64 word"
type_synonym cint = "32 word"
type_synonym fd = int
type_synonym errno = int

datatype fault =
    Assert_failed string
  | Length_error
  | Out_of_bounds
  | Bad_function_call
  | Bad_pointer
  | Aborted
  | Signed_overflow
  | Division_by_zero
  | Never_returns
  | Bad_alloc

type_synonym 'a result = "fault + 'a"

definition rbind :: "'a result \<Rightarrow> ('a \<Rightarrow> 'b result) \<Rightarrow> 'b result" where
  "rbind m f = (case m of Inl e \<Rightarrow> Inl e | Inr x \<Rightarrow> f x)"

primrec rfold :: "('a \<Rightarrow> 's \<Rightarrow> 's result) \<Rightarrow> 'a list \<Rightarrow> 's \<Rightarrow> 's result" where
  "rfold f [] s = Inr s"
| "rfold f (x # xs) s = rbind (f x s) (rfold f xs)"

section \<open>Decimal numerals\<close>

text \<open>What \<open>operator<<\<close> and the \<open>%d\<close> and \<open>%u\<close> conversions print for an integer.\<close>

definition digit_char :: "nat \<Rightarrow> char" where
  "digit_char d = char_of (48 + d)"

fun show_nat :: "nat \<Rightarrow> string" where
  "show_nat n = (if n < 10 then [digit_char n] else show_nat (n div 10) @ [digit_char (n mod 10)])"

declare show_nat.simps [simp del]

definition show_int :: "int \<Rightarrow> string" where
  "show_int k = (if k < 0 then CHR ''-'' # show_nat (nat (- k)) else show_nat (nat k))"

section \<open>Element-wise copy inside one array\<close>

text \<open>
  \<open>copy_within xs s n d\<close> is the loop of \<open>std::copy(p + s, p + s + n, p + d)\<close>: element
  \<open>s + i\<close> is stored at \<open>d + i\<close> for \<open>i = 0, 1, \<dots>\<close>, each read after the stores before it.
  \<open>overwrite xs i ys\<close> is the block the copy of a separate source \<open>ys\<close> to position \<open>i\<close> leaves.
\<close>

fun copy_within :: "'a list \<Rightarrow> nat \<Rightarrow> nat \<Rightarrow> nat \<Rightarrow> 'a list" where
  "copy_within xs s 0 d = xs"
| "copy_within xs s (Suc n) d = copy_within (xs[d := xs ! s]) (Suc s) n (Suc d)"

definition overwrite :: "'a list \<Rightarrow> nat \<Rightarrow> 'a list \<Rightarrow> 'a list" where
  "overwrite xs i ys = take i xs @ ys @ drop (i + length ys) xs"

section \<open>Transition systems\<close>

text \<open>
  A component that moves by steps is given by its start states and its step relation; an
  invariant that the start states have and every step keeps holds in every reachable state.
\<close>

inductive reachable_from :: "('s \<Rightarrow> bool) \<Rightarrow> ('s \<Rightarrow> 's \<Rightarrow> bool) \<Rightarrow> 's \<Rightarrow> bool"
  for init :: "'s \<Rightarrow> bool" and step :: "'s \<Rightarrow> 's \<Rightarrow> bool" where
  reach_init: "init s \<Longrightarrow> reachable_from init step s"
| reach_step: "reachable_from init step s \<Longrightarrow> step s t \<Longrightarrow> reachable_from init step t"

locale inductive_invariant =
  fixes init :: "'s \<Rightarrow> bool"
    and step :: "'s \<Rightarrow> 's \<Rightarrow> bool"
    and inv :: "'s \<Rightarrow> bool"
  assumes inv_init: "init s \<Longrightarrow> inv s"
    and inv_step: "inv s \<Longrightarrow> step s t \<Longrightarrow> inv t"
begin

lemma reachable_inv: "reachable_from init step s \<Longrightarrow> inv s"
  by (induction rule: reachable_from.induct) (auto intro: inv_init inv_step)

end

section \<open>Queues that are drained as a whole\<close>

text \<open>
  A queue to which producers push items and which its consumer empties in one go. A run of pushes
  and drains yields the items drained, in order.
\<close>

datatype 'p wq_op = Push 'p | Drain

fun wq_run :: "('p \<Rightarrow> 'q \<Rightarrow> 'q) \<Rightarrow> ('q \<Rightarrow> 'a list \<times> 'q) \<Rightarrow> 'p wq_op list \<Rightarrow> 'q \<Rightarrow> 'a list \<times> 'q" where
  "wq_run push drain [] q = ([], q)"
| "wq_run push drain (Push x # ops) q = wq_run push drain ops (push x q)"
| "wq_run push drain (Drain # ops) q =
     (case drain q of (xs, q1) \<Rightarrow> case wq_run push drain ops q1 of (ys, q2) \<Rightarrow> (xs @ ys, q2))"

fun wq_pushed :: "('p \<Rightarrow> 'a) \<Rightarrow> 'p wq_op list \<Rightarrow> 'a list" where
  "wq_pushed payload [] = []"
| "wq_pushed payload (Push x # ops) = payload x # wq_pushed payload ops"
| "wq_pushed payload (Drain # ops) = wq_pushed payload ops"

locale work_queue =
  fixes items :: "'q \<Rightarrow> 'a list"
    and payload :: "'p \<Rightarrow> 'a"
    and push :: "'p \<Rightarrow> 'q \<Rightarrow> 'q"
    and drain :: "'q \<Rightarrow> 'a list \<times> 'q"
  assumes items_push: "items (push x q) = items q @ [payload x]"
    and drain_all: "fst (drain q) = items q"
    and items_drain: "items (snd (drain q)) = []"
begin

lemma run_in_order:
  "fst (wq_run push drain ops q) @ items (snd (wq_run push drain ops q)) = items q @ wq_pushed payload ops"
proof (induction ops arbitrary: q)
  case Nil
  then show ?case by simp
next
  case (Cons op ops)
  show ?case
  proof (cases op)
    case (Push x)
    then show ?thesis using Cons.IH [of "push x q"] by (simp add: items_push)
  next
    case Drain
    then show ?thesis using Cons.IH [of "snd (drain q)"] drain_all [of q] items_drain [of q]
      by (simp add: case_prod_unfold)
  qed
qed

end

section \<open>Lemmas on results\<close>

lemma rbind_simps [simp, result_simps]:
  "rbind (Inl e) f = Inl e"
  "rbind (Inr x) f = f x"
  by (simp_all add: rbind_def)

lemma rbind_eq_Inr [result_simps]:
  "rbind m f = Inr y \<longleftrightarrow> (\<exists>x. m = Inr x \<and> f x = Inr y)"
  by (cases m) auto

lemma rbind_eq_Inl [result_simps]:
  "rbind m f = Inl e \<longleftrightarrow> m = Inl e \<or> (\<exists>x. m = Inr x \<and> f x = Inl e)"
  by (cases m) auto

lemma rbind_assoc: "rbind (rbind m f) g = rbind m (\<lambda>x. rbind (f x) g)"
  by (cases m) auto

lemma if_Inr_eq [result_simps]:
  "(if b then m else Inl e) = Inr y \<longleftrightarrow> b \<and> m = Inr y"
  by auto

lemma rfold_append: "rfold f (xs @ ys) s = rbind (rfold f xs s) (rfold f ys)"
  by (induction xs arbitrary: s) (simp_all add: rbind_def split: sum.split)

lemma rfold_invariant:
  assumes "\<And>x s t. x \<in> set xs \<Longrightarrow> I s \<Longrightarrow> f x s = Inr t \<Longrightarrow> I t"
    and "I s" and "rfold f xs s = Inr t"
  shows "I t"
  using assms by (induction xs arbitrary: s) (auto simp: rbind_eq_Inr)

section \<open>Lemmas on copies\<close>

lemma length_copy_within [simp]: "length (copy_within xs s n d) = length xs"
  by (induction xs s n d rule: copy_within.induct) auto

lemma length_overwrite:
  "i + length ys \<le> length xs \<Longrightarrow> length (overwrite xs i ys) = length xs"
  by (simp add: overwrite_def)

lemma take_overwrite: "i + length ys \<le> length xs \<Longrightarrow> n \<le> i \<Longrightarrow> take n (overwrite xs i ys) = take n xs"
  by (simp add: overwrite_def min_def)

lemma drop_overwrite:
  "i \<le> length xs \<Longrightarrow> n \<le> i \<Longrightarrow> drop n (overwrite xs i ys) = overwrite (drop n xs) (i - n) ys"
  by (simp add: overwrite_def drop_take)

lemma overwrite_nth_update:
  assumes "d < s" and "s < length xs"
  shows "overwrite (xs[d := xs ! s]) (Suc d) ys = overwrite xs d ((xs ! s) # ys)"
  using assms by (simp add: overwrite_def take_Suc_conv_app_nth take_update_cancel drop_update_cancel)

text \<open>
  Copying towards the front of the array, the overlapping loop has the effect of moving the
  source block as it was before the copy.
\<close>

lemma copy_within_eq_overwrite:
  assumes "d < s" and "s + n \<le> length xs"
  shows "copy_within xs s n d = overwrite xs d (take n (drop s xs))"
  using assms
proof (induction xs s n d rule: copy_within.induct)
  case (1 xs s d)
  then show ?case by (simp add: overwrite_def)
next
  case (2 xs s n d)
  let ?xs = "xs[d := xs ! s]"
  have "copy_within xs s (Suc n) d = overwrite ?xs (Suc d) (take n (drop (Suc s) ?xs))"
    using 2 by simp
  also have "drop (Suc s) ?xs = drop (Suc s) xs"
    using 2 by simp
  also have "overwrite ?xs (Suc d) (take n (drop (Suc s) xs)) =
      overwrite xs d (xs ! s # take n (drop (Suc s) xs))"
    using 2 by (intro overwrite_nth_update) auto
  also have "xs ! s # take n (drop (Suc s) xs) = take (Suc n) (drop s xs)"
    using 2 by (simp add: Cons_nth_drop_Suc [symmetric])
  finally show ?case .
qed

section \<open>Lemmas on sizes\<close>

lemma unat_sub_le [size_simps]: "b \<le> a \<Longrightarrow> unat (a - b) = unat a - unat b" for a b :: "'a::len word"
  by (rule unat_sub)

lemma unat_add_bound [size_simps]:
  "unat a + unat b < 2 ^ LENGTH('a) \<Longrightarrow> unat (a + b) = unat a + unat b" for a b :: "'a::len word"
  by (simp add: unat_add_lem)

lemma unat_of_nat_bound [size_simps]:
  "n < 2 ^ LENGTH('a) \<Longrightarrow> unat (of_nat n :: 'a::len word) = n"
  by (simp add: unat_of_nat take_bit_nat_eq_self)

end
