(* ===== verification/Siren_Base.thy ===== *)
theory Siren_Base
  imports Siren_Prelude
begin

text \<open>
  The base library under \<open>deps/sirenlib\<close>: \<open>Singleton\<close> of \<open>include/siren/base/Singleton.h\<close>, and the monitors \<open>BlockingQueue\<close> of
  \<open>include/siren/base/BlockingQueue.h\<close> and \<open>CountDownLatch\<close> of \<open>src/CountDownLatch.cpp\<close>.

  Both monitors guard their state with one mutex that every method holds from its first to its last
  statement, so a method is one atomic step; only \<open>condition.wait(lock)\<close> gives the mutex up in
  between. A thread inside a waiting method is either in \<open>blocked\<close>, asleep on the condition variable,
  or in \<open>testing\<close>, about to evaluate the condition of the \<open>while\<close> loop with the mutex held. \<open>notify_one\<close>
  moves one blocked thread, of the scheduler's choice, to \<open>testing\<close>, \<open>notify_all\<close> moves all of them,
  and a spurious wake-up moves any one at any time.
\<close>

section \<open>Singleton\<close>

text \<open>
  The two static members, and the objects that \<open>new\<close> made and \<open>delete\<close> has not freed. \<open>std::call_once\<close> runs \<open>init\<close> in one thread and lets the
  others wait for it, so that a call of \<open>instance\<close> is one step; the address \<open>p\<close> of the new object and its value are arguments. The statement
  \<open>value_ == nullptr;\<close> of \<open>destroy\<close> compares and changes nothing.
\<close>

record 'a Singleton =
  once_flag :: bool
  instance_ptr :: "nat option"
  objects :: "nat \<rightharpoonup> 'a"

definition Singleton_static :: "'a Singleton" where
  "Singleton_static = \<lparr>once_flag = False, instance_ptr = None, objects = Map.empty\<rparr>"

definition Singleton_init :: "nat \<Rightarrow> 'a \<Rightarrow> 'a Singleton \<Rightarrow> 'a Singleton" where
  "Singleton_init p x s = s\<lparr>instance_ptr := Some p, objects := (objects s)(p \<mapsto> x)\<rparr>"

definition Singleton_instance :: "nat \<Rightarrow> 'a \<Rightarrow> 'a Singleton \<Rightarrow> (nat \<times> 'a Singleton) result" where
  "Singleton_instance p x s =
     (let s1 = (if once_flag s then s else (Singleton_init p x s)\<lparr>once_flag := True\<rparr>)
      in case instance_ptr s1 of
           None \<Rightarrow> Inl Bad_pointer
         | Some q \<Rightarrow> if objects s1 q = None then Inl Bad_pointer else Inr (q, s1))"

definition Singleton_destroy :: "'a Singleton \<Rightarrow> 'a Singleton result" where
  "Singleton_destroy s =
     (case instance_ptr s of
        None \<Rightarrow> Inr s
      | Some q \<Rightarrow> if objects s q = None then Inl Bad_pointer else Inr (s\<lparr>objects := (objects s)(q := None)\<rparr>))"

text \<open>However often and by whomever \<open>instance\<close> is called, there is one object, the one made first, and everybody gets it.\<close>

definition singleton_ok :: "nat \<Rightarrow> 'a \<Rightarrow> 'a Singleton \<Rightarrow> bool" where
  "singleton_ok p x s \<longleftrightarrow> once_flag s \<and> instance_ptr s = Some p \<and> objects s = [p \<mapsto> x]"

lemma Singleton_instance_first: "\<exists>s. Singleton_instance p x Singleton_static = Inr (p, s) \<and> singleton_ok p x s"
  by (simp add: Singleton_instance_def Singleton_init_def Singleton_static_def singleton_ok_def)

lemma Singleton_instance_again: "singleton_ok p x s \<Longrightarrow> Singleton_instance q y s = Inr (p, s)"
  by (simp add: Singleton_instance_def singleton_ok_def)

lemma Singleton_one_object:
  assumes "singleton_ok p x s"
  shows "rfold (\<lambda>(q, y) u. rbind (Singleton_instance q y u) (\<lambda>(r, v). if r = p then Inr v else Inl Bad_pointer)) calls s = Inr s"
  by (induction calls) (use assms in \<open>simp_all add: Singleton_instance_again split_beta\<close>)

text \<open>After \<open>destroy\<close> the pointer dangles: both members are as before, so neither operation may be used again.\<close>

lemma Singleton_destroy_dangles:
  assumes "singleton_ok p x s"
  shows "\<exists>u. Singleton_destroy s = Inr u \<and> once_flag u \<and> instance_ptr u = Some p \<and> Singleton_instance q y u = Inl Bad_pointer \<and>
    Singleton_destroy u = Inl Bad_pointer"
  using assms by (simp add: Singleton_destroy_def Singleton_instance_def singleton_ok_def)

section \<open>Condition variables\<close>

record monitor =
  blocked :: "nat set"
  testing :: "nat set"

definition notify_one :: "nat option \<Rightarrow> 'm monitor_scheme \<Rightarrow> 'm monitor_scheme" where
  "notify_one w s = (case w of None \<Rightarrow> s
     | Some t \<Rightarrow> s\<lparr>blocked := blocked s - {t}, testing := insert t (testing s)\<rparr>)"

definition notify_all :: "'m monitor_scheme \<Rightarrow> 'm monitor_scheme" where
  "notify_all s = s\<lparr>blocked := {}, testing := testing s \<union> blocked s\<rparr>"

definition cond_wait :: "nat \<Rightarrow> 'm monitor_scheme \<Rightarrow> 'm monitor_scheme" where
  "cond_wait t s = s\<lparr>blocked := insert t (blocked s), testing := testing s - {t}\<rparr>"

definition monitor_enter :: "nat \<Rightarrow> 'm monitor_scheme \<Rightarrow> 'm monitor_scheme" where
  "monitor_enter t s = s\<lparr>testing := insert t (testing s)\<rparr>"

definition monitor_leave :: "nat \<Rightarrow> 'm monitor_scheme \<Rightarrow> 'm monitor_scheme" where
  "monitor_leave t s = s\<lparr>testing := testing s - {t}\<rparr>"

text \<open>The threads \<open>notify_one\<close> may pick: some blocked one, or nobody when none is blocked.\<close>

definition notifiable :: "nat option \<Rightarrow> 'm monitor_scheme \<Rightarrow> bool" where
  "notifiable w s \<longleftrightarrow> (case w of None \<Rightarrow> blocked s = {} | Some t \<Rightarrow> t \<in> blocked s)"

definition idle :: "nat \<Rightarrow> 'm monitor_scheme \<Rightarrow> bool" where
  "idle t s \<longleftrightarrow> t \<notin> blocked s \<and> t \<notin> testing s"

lemmas monitor_defs = notify_one_def notify_all_def cond_wait_def monitor_enter_def monitor_leave_def
  notifiable_def idle_def

section \<open>BlockingQueue\<close>

record 'a BlockingQueue = monitor +
  queue :: "'a list"

definition BlockingQueue_ctor :: "'a BlockingQueue" where
  "BlockingQueue_ctor = \<lparr>blocked = {}, testing = {}, queue = []\<rparr>"

definition bq_put :: "'a \<Rightarrow> nat option \<Rightarrow> 'a BlockingQueue \<Rightarrow> 'a BlockingQueue" where
  "bq_put x w s = notify_one w (s\<lparr>queue := queue s @ [x]\<rparr>)"

text \<open>
  One evaluation of \<open>while (queue_.empty()) notEmpty_.wait(lock)\<close> and, when the queue is not empty,
  the rest of \<open>take\<close>.
\<close>

definition bq_take :: "nat \<Rightarrow> 'a BlockingQueue \<Rightarrow> 'a option \<times> 'a BlockingQueue" where
  "bq_take t s = (case queue s of
       [] \<Rightarrow> (None, cond_wait t s)
     | x # q \<Rightarrow> (Some x, monitor_leave t (s\<lparr>queue := q\<rparr>)))"

definition bq_drain :: "'a BlockingQueue \<Rightarrow> 'a list \<times> 'a BlockingQueue" where
  "bq_drain s = (queue s, s\<lparr>queue := []\<rparr>)"

definition bq_size :: "'a BlockingQueue \<Rightarrow> nat" where
  "bq_size s = length (queue s)"

datatype 'a bq_act =
    Bq_put 'a
  | Bq_call nat
  | Bq_wait nat
  | Bq_return nat 'a
  | Bq_spurious nat
  | Bq_drain "'a list"

inductive bq_step :: "'a BlockingQueue \<Rightarrow> 'a bq_act \<Rightarrow> 'a BlockingQueue \<Rightarrow> bool" where
  step_put: "notifiable w s \<Longrightarrow> bq_step s (Bq_put x) (bq_put x w s)"
| step_call: "idle t s \<Longrightarrow> bq_step s (Bq_call t) (monitor_enter t s)"
| step_wait: "t \<in> testing s \<Longrightarrow> bq_take t s = (None, s') \<Longrightarrow> bq_step s (Bq_wait t) s'"
| step_return: "t \<in> testing s \<Longrightarrow> bq_take t s = (Some x, s') \<Longrightarrow> bq_step s (Bq_return t x) s'"
| step_spurious: "t \<in> blocked s \<Longrightarrow> bq_step s (Bq_spurious t) (notify_one (Some t) s)"
| step_drain: "bq_drain s = (xs, s') \<Longrightarrow> bq_step s (Bq_drain xs) s'"

inductive bq_run :: "'a BlockingQueue \<Rightarrow> 'a bq_act list \<Rightarrow> 'a BlockingQueue \<Rightarrow> bool" where
  bq_run_nil: "bq_run s [] s"
| bq_run_snoc: "bq_run s acts u \<Longrightarrow> bq_step u a t \<Longrightarrow> bq_run s (acts @ [a]) t"

fun bq_given :: "'a bq_act \<Rightarrow> 'a list" where
  "bq_given (Bq_put x) = [x]"
| "bq_given _ = []"

fun bq_taken :: "'a bq_act \<Rightarrow> 'a list" where
  "bq_taken (Bq_return t x) = [x]"
| "bq_taken (Bq_drain xs) = xs"
| "bq_taken _ = []"

lemma bq_step_fifo: "bq_step s a t \<Longrightarrow> queue s @ bq_given a = bq_taken a @ queue t"
  by (cases rule: bq_step.cases)
    (auto simp: bq_put_def bq_take_def bq_drain_def monitor_defs split: list.splits option.splits)

text \<open>
  What keeps consumers from sleeping on a queue that is not empty: while a thread is blocked, there are
  at least as many threads about to test the queue as there are elements in it.
\<close>

definition bq_inv :: "'a BlockingQueue \<Rightarrow> bool" where
  "bq_inv s \<longleftrightarrow> finite (testing s) \<and> blocked s \<inter> testing s = {} \<and>
     (blocked s \<noteq> {} \<longrightarrow> length (queue s) \<le> card (testing s))"

lemma bq_inv_ctor: "bq_inv BlockingQueue_ctor"
  by (simp add: bq_inv_def BlockingQueue_ctor_def)

lemma bq_take_inv:
  assumes inv: "bq_inv s" and u: "u \<in> testing s" and take: "bq_take u s = (r, t)"
  shows "bq_inv t"
proof (cases "queue s")
  case Nil
  with inv u take show ?thesis by (auto simp: bq_inv_def bq_take_def cond_wait_def)
next
  case (Cons x q)
  from u inv have "card (testing s) = Suc (card (testing s - {u}))"
    by (intro card.remove) (simp_all add: bq_inv_def)
  with Cons inv take show ?thesis by (auto simp: bq_inv_def bq_take_def monitor_leave_def)
qed

lemma bq_put_inv: "bq_inv s \<Longrightarrow> notifiable w s \<Longrightarrow> bq_inv (bq_put x w s)"
  by (auto simp: bq_inv_def bq_put_def notify_one_def notifiable_def card_insert_if split: option.splits)

lemma bq_inv_step: "bq_step s a t \<Longrightarrow> bq_inv s \<Longrightarrow> bq_inv t"
  by (erule bq_step.cases)
    (auto intro: bq_take_inv bq_put_inv,
     auto simp: bq_inv_def bq_drain_def monitor_defs card_insert_if)

interpretation bq: inductive_invariant "\<lambda>s. s = BlockingQueue_ctor" "\<lambda>s t. \<exists>a. bq_step s a t" bq_inv
  by unfold_locales (auto simp: bq_inv_ctor intro: bq_inv_step)

interpretation bq_producers: work_queue queue fst "\<lambda>(x, w). bq_put x w" bq_drain
  by unfold_locales (auto simp: bq_put_def bq_drain_def notify_one_def split: option.splits)

lemma bq_run_reachable: "bq_run s acts t \<Longrightarrow> s = BlockingQueue_ctor \<Longrightarrow>
    reachable_from (\<lambda>s. s = BlockingQueue_ctor) (\<lambda>s t. \<exists>a. bq_step s a t) t"
  by (induction rule: bq_run.induct) (auto intro: reach_init reach_step)

lemma bq_run_fifo: "bq_run s acts t \<Longrightarrow> queue s @ concat (map bq_given acts) = concat (map bq_taken acts) @ queue t"
proof (induction rule: bq_run.induct)
  case (bq_run_snoc s acts u a t)
  from bq_run_snoc.IH have "queue s @ concat (map bq_given (acts @ [a])) =
      concat (map bq_taken acts) @ (queue u @ bq_given a)" by simp
  with bq_step_fifo [OF bq_run_snoc.hyps(2)] show ?case by simp
qed simp

text \<open>
  C29. A \<open>BlockingQueue\<close> under any number of producers and consumers and any schedule, spurious wake-ups
  included: what \<open>take\<close> and \<open>drain\<close> gave out, in order, followed by what is queued, is what was \<open>put\<close>, in
  order; and no wake-up is lost: when a consumer sleeps although elements are queued, at least as
  many other consumers are awake, inside \<open>take\<close>, as there are elements, and each of them that tests the queue now takes one.
\<close>

theorem blocking_queue_ok:
  assumes "bq_run BlockingQueue_ctor acts s"
  shows "concat (map bq_given acts) = concat (map bq_taken acts) @ queue s \<and>
    (blocked s \<noteq> {} \<longrightarrow> length (queue s) \<le> card (testing s)) \<and>
    (\<forall>t x q. t \<in> testing s \<and> queue s = x # q \<longrightarrow> (\<exists>s'. bq_step s (Bq_return t x) s' \<and> queue s' = q))"
proof (intro conjI)
  show "concat (map bq_given acts) = concat (map bq_taken acts) @ queue s"
    using bq_run_fifo [OF assms] by (simp add: BlockingQueue_ctor_def)
  show "blocked s \<noteq> {} \<longrightarrow> length (queue s) \<le> card (testing s)"
    using bq.reachable_inv [OF bq_run_reachable [OF assms refl]] by (simp add: bq_inv_def)
  have "bq_step s (Bq_return t x) (monitor_leave t (s\<lparr>queue := q\<rparr>))" "queue (monitor_leave t (s\<lparr>queue := q\<rparr>)) = q"
    if "t \<in> testing s" "queue s = x # q" for t x q
    using that by (intro step_return) (simp_all add: bq_take_def monitor_leave_def)
  then show "\<forall>t x q. t \<in> testing s \<and> queue s = x # q \<longrightarrow> (\<exists>s'. bq_step s (Bq_return t x) s' \<and> queue s' = q)"
    by blast
qed

definition sample_bq_acts :: "nat bq_act list" where
  "sample_bq_acts = [Bq_call 1, Bq_wait 1, Bq_call 2, Bq_wait 2, Bq_put 5, Bq_put 6, Bq_return 2 5]"

lemma sample_bq_run: "bq_run BlockingQueue_ctor sample_bq_acts \<lparr>blocked = {}, testing = {1}, queue = [6]\<rparr>"
proof -
  have "bq_run BlockingQueue_ctor [Bq_call 1] \<lparr>blocked = {}, testing = {1}, queue = []\<rparr>"
    using bq_run_snoc [OF bq_run_nil [of BlockingQueue_ctor] step_call [of 1]] by (simp add: BlockingQueue_ctor_def monitor_defs)
  from bq_run_snoc [OF this step_wait [of 1]]
  have "bq_run BlockingQueue_ctor [Bq_call 1, Bq_wait 1] \<lparr>blocked = {1}, testing = {}, queue = []\<rparr>"
    by (simp add: bq_take_def monitor_defs)
  from bq_run_snoc [OF this step_call [of 2]]
  have "bq_run BlockingQueue_ctor [Bq_call 1, Bq_wait 1, Bq_call 2] \<lparr>blocked = {1}, testing = {2}, queue = []\<rparr>"
    by (simp add: monitor_defs)
  from bq_run_snoc [OF this step_wait [of 2]]
  have "bq_run BlockingQueue_ctor [Bq_call 1, Bq_wait 1, Bq_call 2, Bq_wait 2]
      \<lparr>blocked = {2, 1}, testing = {}, queue = []\<rparr>"
    by (simp add: bq_take_def monitor_defs)
  from bq_run_snoc [OF this step_put [of "Some 2" _ 5]]
  have "bq_run BlockingQueue_ctor [Bq_call 1, Bq_wait 1, Bq_call 2, Bq_wait 2, Bq_put 5]
      \<lparr>blocked = {1}, testing = {2}, queue = [5]\<rparr>"
    by (simp add: bq_put_def monitor_defs insert_Diff_if)
  from bq_run_snoc [OF this step_put [of "Some 1" _ 6]]
  have "bq_run BlockingQueue_ctor [Bq_call 1, Bq_wait 1, Bq_call 2, Bq_wait 2, Bq_put 5, Bq_put 6]
      \<lparr>blocked = {}, testing = {1, 2}, queue = [5, 6]\<rparr>"
    by (simp add: bq_put_def monitor_defs)
  from bq_run_snoc [OF this step_return [of 2 _ 5]]
  show ?thesis by (simp add: sample_bq_acts_def bq_take_def monitor_defs insert_Diff_if)
qed

theorem blocking_queue_ok_witness:
  "\<exists>s. bq_run BlockingQueue_ctor sample_bq_acts s \<and>
     concat (map bq_given sample_bq_acts) = concat (map bq_taken sample_bq_acts) @ queue s \<and>
     queue s = [6] \<and> (\<exists>s'. bq_step s (Bq_return 1 6) s' \<and> queue s' = [])"
  using blocking_queue_ok [OF sample_bq_run] sample_bq_run
  by (intro exI [of _ "\<lparr>blocked = {}, testing = {1}, queue = [6]\<rparr>"]) simp

section \<open>CountDownLatch\<close>

text \<open>\<open>count_\<close> is an \<open>int\<close>: decrementing the least one leaves defined behaviour.\<close>

record CountDownLatch = monitor +
  count :: int

definition CountDownLatch_ctor :: "int \<Rightarrow> CountDownLatch" where
  "CountDownLatch_ctor n = \<lparr>blocked = {}, testing = {}, count = n\<rparr>"

definition countDown :: "CountDownLatch \<Rightarrow> CountDownLatch result" where
  "countDown s =
     (if count s = - (2 ^ 31) then Inl Signed_overflow
      else let s1 = s\<lparr>count := count s - 1\<rparr> in Inr (if count s1 = 0 then notify_all s1 else s1))"

text \<open>One evaluation of \<open>while (count_ > 0) condition_.wait(lock)\<close>; \<open>True\<close> when \<open>wait()\<close> returns.\<close>

definition latch_wait :: "nat \<Rightarrow> CountDownLatch \<Rightarrow> bool \<times> CountDownLatch" where
  "latch_wait t s = (if count s > 0 then (False, cond_wait t s) else (True, monitor_leave t s))"

definition getCount :: "CountDownLatch \<Rightarrow> int" where
  "getCount s = count s"

datatype latch_act = La_down | La_call nat | La_wait nat | La_return nat | La_spurious nat

inductive latch_step :: "CountDownLatch \<Rightarrow> latch_act \<Rightarrow> CountDownLatch \<Rightarrow> bool" where
  la_down: "countDown s = Inr s' \<Longrightarrow> latch_step s La_down s'"
| la_call: "idle t s \<Longrightarrow> latch_step s (La_call t) (monitor_enter t s)"
| la_wait: "t \<in> testing s \<Longrightarrow> latch_wait t s = (False, s') \<Longrightarrow> latch_step s (La_wait t) s'"
| la_return: "t \<in> testing s \<Longrightarrow> latch_wait t s = (True, s') \<Longrightarrow> latch_step s (La_return t) s'"
| la_spurious: "t \<in> blocked s \<Longrightarrow> latch_step s (La_spurious t) (notify_one (Some t) s)"

inductive latch_run :: "CountDownLatch \<Rightarrow> latch_act list \<Rightarrow> CountDownLatch \<Rightarrow> bool" where
  latch_run_nil: "latch_run s [] s"
| latch_run_snoc: "latch_run s acts u \<Longrightarrow> latch_step u a t \<Longrightarrow> latch_run s (acts @ [a]) t"

definition downs :: "latch_act list \<Rightarrow> int" where
  "downs acts = int (length (filter (\<lambda>a. a = La_down) acts))"

lemma downs_simps [simp]:
  "downs [] = 0"
  "downs (acts @ [a]) = downs acts + (if a = La_down then 1 else 0)"
  by (simp_all add: downs_def)

definition latch_inv :: "CountDownLatch \<Rightarrow> bool" where
  "latch_inv s \<longleftrightarrow> (blocked s \<noteq> {} \<longrightarrow> 0 < count s)"

lemma latch_inv_step: "latch_step s a t \<Longrightarrow> latch_inv s \<Longrightarrow> latch_inv t"
  by (erule latch_step.cases)
    (auto simp: latch_inv_def countDown_def latch_wait_def monitor_defs Let_def split: if_splits)

interpretation latch: inductive_invariant "\<lambda>s. \<exists>n. s = CountDownLatch_ctor n" "\<lambda>s t. \<exists>a. latch_step s a t" latch_inv
proof
  show "latch_inv s" if "\<exists>n. s = CountDownLatch_ctor n" for s
    using that by (auto simp: latch_inv_def CountDownLatch_ctor_def)
qed (auto intro: latch_inv_step)

lemma latch_run_reachable: "latch_run s acts t \<Longrightarrow> s = CountDownLatch_ctor n \<Longrightarrow>
    reachable_from (\<lambda>s. \<exists>n. s = CountDownLatch_ctor n) (\<lambda>s t. \<exists>a. latch_step s a t) t"
  by (induction rule: latch_run.induct) (auto intro: reach_init reach_step)

lemma latch_step_count: "latch_step s a t \<Longrightarrow> count t = count s - (if a = La_down then 1 else 0)"
  by (erule latch_step.cases)
    (auto simp: countDown_def latch_wait_def monitor_defs Let_def split: if_splits)

lemma latch_step_return: "latch_step s (La_return u) t \<Longrightarrow> count s \<le> 0"
  by (erule latch_step.cases) (auto simp: latch_wait_def split: if_splits)

lemma latch_run_count: "latch_run s acts t \<Longrightarrow> count t = count s - downs acts"
  by (induction rule: latch_run.induct) (auto dest: latch_step_count)

lemma latch_run_return:
  "latch_run s acts t \<Longrightarrow> La_return u \<in> set acts \<Longrightarrow> count s \<le> downs acts"
proof (induction rule: latch_run.induct)
  case (latch_run_snoc s acts v a t)
  from latch_run_count [OF latch_run_snoc.hyps(1)] latch_step_return [of v u t] latch_run_snoc show ?case
    by auto
qed simp

text \<open>
  C30. A latch created with count \<open>n\<close>, under any schedule: \<open>wait()\<close> has returned in some thread only when
  \<open>countDown()\<close> was called at least \<open>n\<close> times; and once it was, no thread sleeps in \<open>wait()\<close>
  and each thread inside it returns at its next step.
\<close>

theorem latch_releases_after_count:
  assumes "latch_run (CountDownLatch_ctor n) acts s"
  shows "count s = n - downs acts \<and> (\<forall>t. La_return t \<in> set acts \<longrightarrow> n \<le> downs acts) \<and>
    (n \<le> downs acts \<longrightarrow> blocked s = {} \<and> (\<forall>t. t \<in> testing s \<longrightarrow> latch_step s (La_return t) (monitor_leave t s)))"
proof -
  have c: "count s = n - downs acts"
    using latch_run_count [OF assms] by (simp add: CountDownLatch_ctor_def)
  have "latch_inv s" using latch.reachable_inv [OF latch_run_reachable [OF assms refl]] .
  moreover have "La_return t \<in> set acts \<longrightarrow> n \<le> downs acts" for t
    using latch_run_return [OF assms] by (auto simp: CountDownLatch_ctor_def)
  ultimately show ?thesis
    using c by (auto simp: latch_inv_def latch_wait_def intro!: la_return)
qed

lemma sample_latch_run:
  "latch_run (CountDownLatch_ctor 1) [La_call 3, La_wait 3, La_down] \<lparr>blocked = {}, testing = {3}, count = 0\<rparr>"
proof -
  have "latch_run (CountDownLatch_ctor 1) [La_call 3] \<lparr>blocked = {}, testing = {3}, count = 1\<rparr>"
    using latch_run_snoc [OF latch_run_nil [of "CountDownLatch_ctor 1"] la_call [of 3]] by (simp add: CountDownLatch_ctor_def monitor_defs)
  from latch_run_snoc [OF this la_wait [of 3]]
  have "latch_run (CountDownLatch_ctor 1) [La_call 3, La_wait 3] \<lparr>blocked = {3}, testing = {}, count = 1\<rparr>"
    by (simp add: latch_wait_def monitor_defs)
  from latch_run_snoc [OF this la_down] show ?thesis
    by (simp add: countDown_def monitor_defs Let_def)
qed

theorem latch_releases_after_count_witness:
  "\<exists>s s'. latch_run (CountDownLatch_ctor 1) [La_call 3, La_wait 3, La_down] s \<and> count s = 0 \<and> blocked s = {} \<and>
     latch_step s (La_return 3) s'"
  using latch_releases_after_count [OF sample_latch_run] sample_latch_run
  by (intro exI [of _ "\<lparr>blocked = {}, testing = {3}, count = 0\<rparr>"]
      exI [of _ "monitor_leave 3 \<lparr>blocked = {}, testing = {3}, count = 0\<rparr>"]) simp

end
