(* ===== verification/Siren_Channel.thy ===== *)
theory Siren_Channel
  imports Siren_Prelude
begin

text \<open>
  The channel of \<open>include/siren/net/Channel.h\<close> and \<open>src/net/Channel.cpp\<close>: a descriptor, the
  events it is interested in, the events that happened, and one callback per kind of event.

  Channels are objects that poller, loop and owner share through pointers, so they live in a
  store \<open>chans\<close> from addresses (\<open>chan\<close>) to records; an access through a pointer that is not in
  the store is the fault \<open>Bad_pointer\<close>. The \<open>std::function\<close> members hold the closures the
  library binds, one constructor of \<open>chan_callback\<close> for each \<open>std::bind\<close> of the sources, with
  the identity of the object bound; \<open>None\<close> is the empty function. The operations that end in
  \<open>loop_->updateChannel\<close> or \<open>removeChannel\<close> are in \<open>Siren_EventLoop\<close>; here are the record, the
  event masks, printing, and \<open>handleEvent\<close>, which takes the execution of a callback as a parameter.
\<close>

section \<open>Data\<close>

type_synonym chan = nat

datatype chan_callback =
    EventLoop_handleRead
  | TimerQueue_handleRead
  | Acceptor_handleRead nat
  | Connector_handleWrite nat
  | Connector_handleError nat
  | TcpConnection_handleRead nat
  | TcpConnection_handleWrite nat
  | TcpConnection_handleClose nat
  | TcpConnection_handleError nat
  | User_callback nat

record channel =
  ownerLoop :: nat
  ch_fd :: fd
  events :: cint
  revents :: cint
  index :: int
  logHup :: bool
  tie :: "nat option"
  tied :: bool
  ch_eventHandling :: bool
  addedToLoop :: bool
  readCallback :: "chan_callback option"
  writeCallback :: "chan_callback option"
  closeCallback :: "chan_callback option"
  errorCallback :: "chan_callback option"

record chan_store =
  chans :: "chan \<rightharpoonup> channel"

definition POLLIN :: cint where "POLLIN = 0x1"
definition POLLPRI :: cint where "POLLPRI = 0x2"
definition POLLOUT :: cint where "POLLOUT = 0x4"
definition POLLERR :: cint where "POLLERR = 0x8"
definition POLLHUP :: cint where "POLLHUP = 0x10"
definition POLLNVAL :: cint where "POLLNVAL = 0x20"
definition POLLRDHUP :: cint where "POLLRDHUP = 0x2000"

lemmas poll_flag_defs = POLLIN_def POLLPRI_def POLLOUT_def POLLERR_def POLLHUP_def POLLNVAL_def POLLRDHUP_def

definition kNoneEvent :: cint where "kNoneEvent = 0"
definition kReadEvent :: cint where "kReadEvent = POLLIN OR POLLPRI"
definition kWriteEvent :: cint where "kWriteEvent = POLLOUT"

text \<open>C++'s contextual conversion of a mask test such as \<open>revents_ & POLLIN\<close> to \<open>bool\<close>.\<close>

definition has_flag :: "cint \<Rightarrow> cint \<Rightarrow> bool" where
  "has_flag ev m \<longleftrightarrow> ev AND m \<noteq> 0"

section \<open>Operations on one channel\<close>

definition Channel_ctor :: "nat \<Rightarrow> fd \<Rightarrow> channel" where
  "Channel_ctor loop fd =
     \<lparr>ownerLoop = loop, ch_fd = fd, events = 0, revents = 0, index = - 1, logHup = True, tie = None,
      tied = False, ch_eventHandling = False, addedToLoop = False, readCallback = None,
      writeCallback = None, closeCallback = None, errorCallback = None\<rparr>"

definition setReadCallback :: "chan_callback option \<Rightarrow> channel \<Rightarrow> channel" where
  "setReadCallback cb ch = ch\<lparr>readCallback := cb\<rparr>"

definition setWriteCallback :: "chan_callback option \<Rightarrow> channel \<Rightarrow> channel" where
  "setWriteCallback cb ch = ch\<lparr>writeCallback := cb\<rparr>"

definition setCloseCallback :: "chan_callback option \<Rightarrow> channel \<Rightarrow> channel" where
  "setCloseCallback cb ch = ch\<lparr>closeCallback := cb\<rparr>"

definition setErrorCallback :: "chan_callback option \<Rightarrow> channel \<Rightarrow> channel" where
  "setErrorCallback cb ch = ch\<lparr>errorCallback := cb\<rparr>"

definition doNotLogHup :: "channel \<Rightarrow> channel" where
  "doNotLogHup ch = ch\<lparr>logHup := False\<rparr>"

lemmas callback_setter_defs = setReadCallback_def setWriteCallback_def setCloseCallback_def setErrorCallback_def

definition Channel_tie :: "nat \<Rightarrow> channel \<Rightarrow> channel" where
  "Channel_tie obj ch = ch\<lparr>tie := Some obj, tied := True\<rparr>"

definition isNoneEvent :: "channel \<Rightarrow> bool" where
  "isNoneEvent ch \<longleftrightarrow> events ch = kNoneEvent"

definition isWriting :: "channel \<Rightarrow> bool" where
  "isWriting ch \<longleftrightarrow> has_flag (events ch) kWriteEvent"

definition isReading :: "channel \<Rightarrow> bool" where
  "isReading ch \<longleftrightarrow> has_flag (events ch) kReadEvent"

definition eventsToString :: "fd \<Rightarrow> cint \<Rightarrow> string" where
  "eventsToString fd ev =
     show_int fd @ '': '' @
     (if has_flag ev POLLIN then ''IN '' else []) @
     (if has_flag ev POLLPRI then ''PRI '' else []) @
     (if has_flag ev POLLOUT then ''OUT '' else []) @
     (if has_flag ev POLLHUP then ''HUP '' else []) @
     (if has_flag ev POLLRDHUP then ''RDHUP '' else []) @
     (if has_flag ev POLLERR then ''ERR '' else []) @
     (if has_flag ev POLLNVAL then ''NVAL '' else [])"

definition Channel_reventsToString :: "channel \<Rightarrow> string" where
  "Channel_reventsToString ch = eventsToString (ch_fd ch) (revents ch)"

definition Channel_eventsToString :: "channel \<Rightarrow> string" where
  "Channel_eventsToString ch = eventsToString (ch_fd ch) (events ch)"

section \<open>The store of channels\<close>

definition with_chan :: "chan \<Rightarrow> 'm chan_store_scheme \<Rightarrow> (channel \<Rightarrow> 'a result) \<Rightarrow> 'a result" where
  "with_chan c s f = (case chans s c of None \<Rightarrow> Inl Bad_pointer | Some ch \<Rightarrow> f ch)"

definition put_chan :: "chan \<Rightarrow> channel \<Rightarrow> 'm chan_store_scheme \<Rightarrow> 'm chan_store_scheme" where
  "put_chan c ch s = s\<lparr>chans := (chans s)(c \<mapsto> ch)\<rparr>"

definition upd_chan :: "chan \<Rightarrow> (channel \<Rightarrow> channel) \<Rightarrow> 'm chan_store_scheme \<Rightarrow> 'm chan_store_scheme result" where
  "upd_chan c f s = with_chan c s (\<lambda>ch. Inr (put_chan c (f ch) s))"

section \<open>Event dispatch\<close>

text \<open>One \<open>if (revents_ & ...) { if (callback) callback(); }\<close> of \<open>handleEventWithGuard\<close>.\<close>

definition call_if :: "(chan_callback \<Rightarrow> 'm chan_store_scheme \<Rightarrow> 'm chan_store_scheme result) \<Rightarrow>
    (cint \<Rightarrow> bool) \<Rightarrow> (channel \<Rightarrow> chan_callback option) \<Rightarrow> chan \<Rightarrow>
    'm chan_store_scheme \<Rightarrow> 'm chan_store_scheme result" where
  "call_if exec happened callback c s =
     with_chan c s (\<lambda>ch.
       if happened (revents ch)
       then (case callback ch of None \<Rightarrow> Inr s | Some cb \<Rightarrow> exec cb s)
       else Inr s)"

definition close_happened :: "cint \<Rightarrow> bool" where
  "close_happened r \<longleftrightarrow> has_flag r POLLHUP \<and> \<not> has_flag r POLLIN"

definition error_happened :: "cint \<Rightarrow> bool" where
  "error_happened r \<longleftrightarrow> has_flag r (POLLERR OR POLLNVAL)"

definition read_happened :: "cint \<Rightarrow> bool" where
  "read_happened r \<longleftrightarrow> has_flag r (POLLIN OR POLLPRI OR POLLRDHUP)"

definition write_happened :: "cint \<Rightarrow> bool" where
  "write_happened r \<longleftrightarrow> has_flag r POLLOUT"

definition handleEventWithGuard ::
    "(chan_callback \<Rightarrow> 'm chan_store_scheme \<Rightarrow> 'm chan_store_scheme result) \<Rightarrow> chan \<Rightarrow>
     'm chan_store_scheme \<Rightarrow> 'm chan_store_scheme result" where
  "handleEventWithGuard exec c s0 =
     rbind (upd_chan c (\<lambda>ch. ch\<lparr>ch_eventHandling := True\<rparr>) s0) (\<lambda>s1.
     rbind (call_if exec close_happened closeCallback c s1) (\<lambda>s2.
     rbind (call_if exec error_happened errorCallback c s2) (\<lambda>s3.
     rbind (call_if exec read_happened readCallback c s3) (\<lambda>s4.
     rbind (call_if exec write_happened writeCallback c s4) (\<lambda>s5.
     upd_chan c (\<lambda>ch. ch\<lparr>ch_eventHandling := False\<rparr>) s5)))))"

text \<open>\<open>tie_.lock()\<close> succeeds when the owner is alive, which the state of the owners decides.\<close>

definition handleEvent ::
    "(chan_callback \<Rightarrow> 'm chan_store_scheme \<Rightarrow> 'm chan_store_scheme result) \<Rightarrow>
     (nat \<Rightarrow> 'm chan_store_scheme \<Rightarrow> bool) \<Rightarrow> chan \<Rightarrow> 'm chan_store_scheme \<Rightarrow> 'm chan_store_scheme result" where
  "handleEvent exec alive c s =
     with_chan c s (\<lambda>ch.
       if tied ch
       then (case tie ch of
               None \<Rightarrow> Inr s
             | Some obj \<Rightarrow> if alive obj s then handleEventWithGuard exec c s else Inr s)
       else handleEventWithGuard exec c s)"

text \<open>
  The specification of dispatch, in the bits of poll(2): which callbacks a value of \<open>revents_\<close> selects, in the order they are called. A hang-up (bit 4) closes
  when there is nothing to read (bit 0); bits 3 and 5 are errors; urgent data (bit 1), data and a half-closed peer (bit 13) are to be read;
  bit 2 says that the descriptor can be written to.
\<close>

definition selected :: "bool \<Rightarrow> chan_callback option \<Rightarrow> chan_callback list" where
  "selected b cb = (if b then (case cb of None \<Rightarrow> [] | Some f \<Rightarrow> [f]) else [])"

definition dispatch_list :: "channel \<Rightarrow> chan_callback list" where
  "dispatch_list ch =
     (let r = revents ch in
      selected (bit r 4 \<and> \<not> bit r 0) (closeCallback ch) @
      selected (bit r 3 \<or> bit r 5) (errorCallback ch) @
      selected (bit r 0 \<or> bit r 1 \<or> bit r 13) (readCallback ch) @
      selected (bit r 2) (writeCallback ch))"

text \<open>What dispatch relies on: a callback leaves the channel's pending events and callbacks alone.\<close>

definition same_dispatch :: "channel \<Rightarrow> channel \<Rightarrow> bool" where
  "same_dispatch ch ch' \<longleftrightarrow> revents ch' = revents ch \<and> readCallback ch' = readCallback ch \<and>
     writeCallback ch' = writeCallback ch \<and> closeCallback ch' = closeCallback ch \<and>
     errorCallback ch' = errorCallback ch"

definition keeps_dispatch :: "(chan_callback \<Rightarrow> 'm chan_store_scheme \<Rightarrow> 'm chan_store_scheme result) \<Rightarrow> chan \<Rightarrow> bool" where
  "keeps_dispatch exec c \<longleftrightarrow>
     (\<forall>cb s t ch. chans s c = Some ch \<longrightarrow> exec cb s = Inr t \<longrightarrow>
        (\<exists>ch'. chans t c = Some ch' \<and> same_dispatch ch ch'))"

section \<open>Lemmas\<close>

lemma with_chan_simps [simp]:
  "chans s c = Some ch \<Longrightarrow> with_chan c s f = f ch"
  "chans s c = None \<Longrightarrow> with_chan c s f = Inl Bad_pointer"
  by (simp_all add: with_chan_def)

lemma with_chan_eq_Inr [result_simps]:
  "with_chan c s f = Inr y \<longleftrightarrow> (\<exists>ch. chans s c = Some ch \<and> f ch = Inr y)"
  by (auto simp: with_chan_def split: option.splits)

lemma upd_chan_eq_Inr [result_simps]:
  "upd_chan c f s = Inr t \<longleftrightarrow> (\<exists>ch. chans s c = Some ch \<and> t = put_chan c (f ch) s)"
  by (auto simp: upd_chan_def result_simps)

lemma chans_put_chan [simp]: "chans (put_chan c ch s) = (chans s)(c \<mapsto> ch)"
  by (simp add: put_chan_def)

lemma put_chan_put_chan [simp]: "put_chan c ch' (put_chan c ch s) = put_chan c ch' s"
  by (simp add: put_chan_def)

lemma same_dispatch_trans: "same_dispatch a b \<Longrightarrow> same_dispatch b c \<Longrightarrow> same_dispatch a c"
  by (auto simp: same_dispatch_def)

lemma has_flag_or: "has_flag r (a OR b) \<longleftrightarrow> has_flag r a \<or> has_flag r b"
  by (simp add: has_flag_def bit.conj_disj_distrib) (metis or.right_neutral or_eq_0_iff)

text \<open>The tests of the code are these bits.\<close>

lemma has_flag_bit: "has_flag r (2 ^ n) \<longleftrightarrow> bit r n"
  by (simp add: has_flag_def and_exp_eq_0_iff_not_bit)

lemma poll_flag_bits:
  "POLLIN = 2 ^ 0" "POLLPRI = 2 ^ 1" "POLLOUT = 2 ^ 2" "POLLERR = 2 ^ 3" "POLLHUP = 2 ^ 4" "POLLNVAL = 2 ^ 5" "POLLRDHUP = 2 ^ 13"
  by (simp_all add: poll_flag_defs)

lemma happened_bits:
  "close_happened r \<longleftrightarrow> bit r 4 \<and> \<not> bit r 0" "error_happened r \<longleftrightarrow> bit r 3 \<or> bit r 5"
  "read_happened r \<longleftrightarrow> bit r 0 \<or> bit r 1 \<or> bit r 13" "write_happened r \<longleftrightarrow> bit r 2"
  unfolding close_happened_def error_happened_def read_happened_def write_happened_def has_flag_or poll_flag_bits has_flag_bit by simp_all

definition dispatch_piece :: "channel \<Rightarrow> (cint \<Rightarrow> bool) \<times> (channel \<Rightarrow> chan_callback option) \<Rightarrow> chan_callback list" where
  "dispatch_piece ch = (\<lambda>(happened, callback).
     if happened (revents ch) then (case callback ch of None \<Rightarrow> [] | Some cb \<Rightarrow> [cb]) else [])"

lemma call_if_piece:
  assumes "chans s c = Some ch'" and "same_dispatch ch ch'" and "callback ch' = callback ch"
  shows "call_if exec happened callback c s = rfold exec (dispatch_piece ch (happened, callback)) s"
  using assms
  by (cases "exec (the (callback ch)) s")
    (auto simp: call_if_def dispatch_piece_def same_dispatch_def split: option.splits)

lemma keeps_dispatch_rfold:
  assumes "keeps_dispatch exec c" and "chans s c = Some ch'" and "same_dispatch ch ch'"
    and "rfold exec cbs s = Inr t"
  shows "\<exists>ch''. chans t c = Some ch'' \<and> same_dispatch ch ch''"
  using assms(4,2,3)
proof (induction cbs arbitrary: s ch')
  case Nil
  then show ?case by auto
next
  case (Cons cb cbs)
  then obtain u where "exec cb s = Inr u" and rest: "rfold exec cbs u = Inr t"
    by (auto simp: rbind_eq_Inr)
  with assms(1) Cons.prems obtain ch'' where "chans u c = Some ch''" "same_dispatch ch' ch''"
    unfolding keeps_dispatch_def by blast
  with Cons.IH [OF rest] Cons.prems show ?case
    by (blast intro: same_dispatch_trans)
qed

lemma rfold_call_if:
  assumes "keeps_dispatch exec c" and "chans s c = Some ch'" and "same_dispatch ch ch'"
    and "\<forall>p \<in> set ps. \<forall>ch'. same_dispatch ch ch' \<longrightarrow> snd p ch' = snd p ch"
  shows "rfold (\<lambda>(happened, callback). call_if exec happened callback c) ps s =
         rfold exec (concat (map (dispatch_piece ch) ps)) s"
  using assms(2-)
proof (induction ps arbitrary: s ch')
  case Nil
  then show ?case by simp
next
  case (Cons p ps)
  obtain happened callback where p: "p = (happened, callback)" by fastforce
  have eq: "call_if exec happened callback c s = rfold exec (dispatch_piece ch p) s"
    using Cons.prems p by (auto intro: call_if_piece)
  show ?case
  proof (cases "rfold exec (dispatch_piece ch p) s")
    case (Inl e)
    with eq p show ?thesis by (simp add: rfold_append)
  next
    case (Inr t)
    with keeps_dispatch_rfold [OF assms(1)] Cons.prems
    obtain ch'' where "chans t c = Some ch''" "same_dispatch ch ch''" by blast
    with Cons.IH [of t ch''] Cons.prems Inr eq p show ?thesis by (simp add: rfold_append)
  qed
qed

text \<open>
  C18. \<open>handleEventWithGuard\<close> calls exactly the callbacks that the bits of \<open>revents_\<close> select, each once
  and in a fixed order: close on \<open>POLLHUP\<close> without \<open>POLLIN\<close>, then error on \<open>POLLERR\<close> or \<open>POLLNVAL\<close>, then read on \<open>POLLIN\<close>, \<open>POLLPRI\<close> or
  \<open>POLLRDHUP\<close>, then write on \<open>POLLOUT\<close>; empty callbacks are skipped and the handling flag is set around the calls. (The callbacks leave
  \<open>revents_\<close> and the callbacks of this channel alone.)
\<close>

theorem handleEventWithGuard_dispatches:
  assumes "keeps_dispatch exec c" and "chans s c = Some ch"
  shows "handleEventWithGuard exec c s =
    rbind (rfold exec (dispatch_list ch) (put_chan c (ch\<lparr>ch_eventHandling := True\<rparr>) s))
      (upd_chan c (\<lambda>ch. ch\<lparr>ch_eventHandling := False\<rparr>))"
proof -
  let ?s1 = "put_chan c (ch\<lparr>ch_eventHandling := True\<rparr>) s"
  let ?ps = "[(close_happened, closeCallback), (error_happened, errorCallback),
              (read_happened, readCallback), (write_happened, writeCallback)]"
  have "handleEventWithGuard exec c s =
      rbind (rfold (\<lambda>(happened, callback). call_if exec happened callback c) ?ps ?s1)
        (upd_chan c (\<lambda>ch. ch\<lparr>ch_eventHandling := False\<rparr>))"
    using assms by (simp add: handleEventWithGuard_def upd_chan_def [of c _ s] rbind_assoc)
  also have "rfold (\<lambda>(happened, callback). call_if exec happened callback c) ?ps ?s1 =
      rfold exec (concat (map (dispatch_piece ch) ?ps)) ?s1"
    using assms(1)
    by (rule rfold_call_if [where ch' = "ch\<lparr>ch_eventHandling := True\<rparr>"]) (auto simp: same_dispatch_def)
  also have "concat (map (dispatch_piece ch) ?ps) = dispatch_list ch"
    by (simp add: dispatch_list_def dispatch_piece_def selected_def happened_bits Let_def)
  finally show ?thesis .
qed

record traced_store = chan_store +
  called :: "chan_callback list"

definition trace_exec :: "chan_callback \<Rightarrow> traced_store \<Rightarrow> traced_store result" where
  "trace_exec cb s = Inr (s\<lparr>called := called s @ [cb]\<rparr>)"

theorem handleEventWithGuard_dispatches_witness:
  "keeps_dispatch trace_exec 0 \<and>
   (\<exists>t. handleEventWithGuard trace_exec 0
       \<lparr>chans = [0 \<mapsto> (Channel_ctor 0 5)\<lparr>revents := POLLHUP OR POLLERR OR POLLOUT,
          closeCallback := Some (TcpConnection_handleClose 1), readCallback := Some (TcpConnection_handleRead 1),
          writeCallback := Some (TcpConnection_handleWrite 1)\<rparr>], called = []\<rparr> = Inr t \<and>
     called t = [TcpConnection_handleClose 1, TcpConnection_handleWrite 1])"
proof -
  have keeps: "keeps_dispatch trace_exec 0"
    by (auto simp: keeps_dispatch_def trace_exec_def same_dispatch_def)
  show ?thesis
    using keeps
    by (simp add: handleEventWithGuard_dispatches dispatch_list_def selected_def bit_or_iff poll_flag_bits bit_exp_iff Channel_ctor_def
        trace_exec_def upd_chan_def put_chan_def)
qed

end
