(* ===== verification/Siren_Poller.thy ===== *)
theory Siren_Poller
  imports Siren_Channel
begin

text \<open>
  The poller: \<open>src/net/Poller.cpp\<close> and \<open>src/net/poller/EPollPoller.cpp\<close>.

  The state adds to the store of channels the map \<open>channels_\<close> from descriptors to channel
  pointers, the size of the array handed to \<open>epoll_wait\<close>, and the trace of \<open>epoll_ctl\<close> calls,
  newest first. The kernel is not modelled: the trace is what the program asks of it, the return value
  of \<open>epoll_ctl\<close> is only logged by the code, and the answer of \<open>epoll_wait\<close> is an argument of \<open>poll\<close>.
  \<open>registered\<close> reads off the trace which descriptors the program has registered, with
  which events and pointer, and \<open>epoll_calls_ok\<close> that no call asks for what epoll_ctl(2)
  refuses (adding a registered descriptor, changing or removing one that is not).

  The lemmas show that the registration always agrees with \<open>channels_\<close> and the \<open>index_\<close> of each
  channel (\<open>poller_wf\<close>), so that the assertions of \<open>updateChannel\<close> and \<open>removeChannel\<close> hold.
\<close>

section \<open>Data\<close>

datatype epoll_op = EPOLL_CTL_ADD | EPOLL_CTL_MOD | EPOLL_CTL_DEL

record epoll_call =
  ec_op :: epoll_op
  ec_fd :: fd
  ec_events :: cint
  ec_ptr :: chan

record poller = chan_store +
  channels :: "fd \<rightharpoonup> chan"
  events_size :: nat
  epoll_log :: "epoll_call list"

definition kNew :: int where "kNew = - 1"
definition kAdded :: int where "kAdded = 1"
definition kDeleted :: int where "kDeleted = 2"

lemmas index_defs = kNew_def kAdded_def kDeleted_def

definition kInitEventListSize :: nat where "kInitEventListSize = 16"

section \<open>Operations\<close>

definition EPollPoller_ctor :: poller where
  "EPollPoller_ctor =
     \<lparr>chans = Map.empty, channels = Map.empty, events_size = kInitEventListSize, epoll_log = []\<rparr>"

definition hasChannel :: "chan \<Rightarrow> 'm poller_scheme \<Rightarrow> bool result" where
  "hasChannel c s = with_chan c s (\<lambda>ch. Inr (channels s (ch_fd ch) = Some c))"

definition operationToString :: "epoll_op \<Rightarrow> string" where
  "operationToString op =
     (case op of EPOLL_CTL_ADD \<Rightarrow> ''ADD'' | EPOLL_CTL_DEL \<Rightarrow> ''DEL'' | EPOLL_CTL_MOD \<Rightarrow> ''MOD'')"

definition poller_update :: "epoll_op \<Rightarrow> chan \<Rightarrow> 'm poller_scheme \<Rightarrow> 'm poller_scheme result" where
  "poller_update op c s =
     with_chan c s (\<lambda>ch.
       Inr (s\<lparr>epoll_log := \<lparr>ec_op = op, ec_fd = ch_fd ch, ec_events = events ch, ec_ptr = c\<rparr> # epoll_log s\<rparr>))"

definition set_index :: "chan \<Rightarrow> int \<Rightarrow> 'm poller_scheme \<Rightarrow> 'm poller_scheme result" where
  "set_index c idx s = upd_chan c (\<lambda>ch. ch\<lparr>index := idx\<rparr>) s"

definition EPollPoller_updateChannel :: "chan \<Rightarrow> 'm poller_scheme \<Rightarrow> 'm poller_scheme result" where
  "EPollPoller_updateChannel c s =
     with_chan c s (\<lambda>ch.
       let idx = index ch; fd = ch_fd ch in
       if idx = kNew \<or> idx = kDeleted
       then rbind
              (if idx = kNew
               then (if channels s fd = None then Inr (s\<lparr>channels := (channels s)(fd \<mapsto> c)\<rparr>)
                     else Inl (Assert_failed ''channels_.find(fd) == channels_.end()''))
               else (if channels s fd = None then Inl (Assert_failed ''channels_.find(fd) != channels_.end()'')
                     else if channels s fd \<noteq> Some c then Inl (Assert_failed ''channels_.find(fd)->second == channel'')
                     else Inr s))
              (\<lambda>s1. rbind (set_index c kAdded s1) (poller_update EPOLL_CTL_ADD c))
       else if isNoneEvent ch
       then rbind (poller_update EPOLL_CTL_DEL c s) (set_index c kDeleted)
       else poller_update EPOLL_CTL_MOD c s)"

definition EPollPoller_removeChannel :: "chan \<Rightarrow> 'm poller_scheme \<Rightarrow> 'm poller_scheme result" where
  "EPollPoller_removeChannel c s =
     with_chan c s (\<lambda>ch.
       let fd = ch_fd ch; idx = index ch in
       if channels s fd = None then Inl (Assert_failed ''channels_.find(fd) != channels_.end()'')
       else if channels s fd \<noteq> Some c then Inl (Assert_failed ''channels_[fd] == channel'')
       else if \<not> isNoneEvent ch then Inl (Assert_failed ''channel->isNoneEvent()'')
       else if \<not> (idx = kAdded \<or> idx = kDeleted) then Inl (Assert_failed ''index == kAdded || index == kDeleted'')
       else
         let s1 = s\<lparr>channels := (channels s)(fd := None)\<rparr> in
         rbind (if idx = kAdded then poller_update EPOLL_CTL_DEL c s1 else Inr s1) (set_index c kNew))"

fun fillActiveChannels :: "(chan \<times> cint) list \<Rightarrow> 'm poller_scheme \<Rightarrow> (chan list \<times> 'm poller_scheme) result" where
  "fillActiveChannels [] s = Inr ([], s)"
| "fillActiveChannels ((c, ev) # evs) s =
     rbind (upd_chan c (\<lambda>ch. ch\<lparr>revents := ev\<rparr>) s) (\<lambda>s1.
     rbind (fillActiveChannels evs s1) (\<lambda>(active, s2). Inr (c # active, s2)))"

text \<open>
  \<open>poll\<close> with the answer of \<open>epoll_wait\<close>: an errno, or the events stored in \<open>events_\<close>. It
  returns the active channels.
\<close>

definition EPollPoller_poll :: "errno + (chan \<times> cint) list \<Rightarrow> 'm poller_scheme \<Rightarrow>
    (chan list \<times> 'm poller_scheme) result" where
  "EPollPoller_poll answer s =
     (case answer of
        Inl err \<Rightarrow> Inr ([], s)
      | Inr evs \<Rightarrow>
          if 0 < length evs
          then rbind (fillActiveChannels evs s) (\<lambda>(active, s1).
                 Inr (active, if length evs = events_size s1 then s1\<lparr>events_size := events_size s1 * 2\<rparr> else s1))
          else Inr ([], s))"

text \<open>
  The second back end, \<open>src/net/poller/PollPoller.cpp\<close>, consists of empty bodies: it reports nothing and takes no notice of channels. \<open>newDefaultPoller\<close>
  never chooses it.
\<close>

definition PollPoller_poll :: "'m poller_scheme \<Rightarrow> chan list \<times> 'm poller_scheme" where
  "PollPoller_poll s = ([], s)"

definition PollPoller_updateChannel :: "chan \<Rightarrow> 'm poller_scheme \<Rightarrow> 'm poller_scheme" where
  "PollPoller_updateChannel c s = s"

definition PollPoller_removeChannel :: "chan \<Rightarrow> 'm poller_scheme \<Rightarrow> 'm poller_scheme" where
  "PollPoller_removeChannel c s = s"

definition PollPoller_fillActiveChannels :: "nat \<Rightarrow> chan list \<Rightarrow> chan list" where
  "PollPoller_fillActiveChannels numEvents active = active"

datatype poller_kind = EPollPoller | PollPoller

definition newDefaultPoller :: poller_kind where
  "newDefaultPoller = EPollPoller"

section \<open>The registration read off the trace\<close>

primrec registered :: "epoll_call list \<Rightarrow> fd \<Rightarrow> (cint \<times> chan) option" where
  "registered [] fd = None"
| "registered (e # es) fd =
     (if ec_fd e = fd then (if ec_op e = EPOLL_CTL_DEL then None else Some (ec_events e, ec_ptr e))
      else registered es fd)"

primrec epoll_calls_ok :: "epoll_call list \<Rightarrow> bool" where
  "epoll_calls_ok [] = True"
| "epoll_calls_ok (e # es) =
     ((ec_op e = EPOLL_CTL_ADD \<longleftrightarrow> registered es (ec_fd e) = None) \<and> epoll_calls_ok es)"

definition wanted :: "'m poller_scheme \<Rightarrow> fd \<Rightarrow> (cint \<times> chan) option" where
  "wanted s fd =
     (case channels s fd of
        None \<Rightarrow> None
      | Some c \<Rightarrow> (case chans s c of
                    None \<Rightarrow> None
                  | Some ch \<Rightarrow> if index ch = kAdded then Some (events ch, c) else None))"

definition channel_entry_ok :: "'m poller_scheme \<Rightarrow> chan \<Rightarrow> channel \<Rightarrow> bool" where
  "channel_entry_ok s c ch \<longleftrightarrow>
     index ch \<in> {kNew, kAdded, kDeleted} \<and>
     (index ch \<noteq> kNew \<longrightarrow> channels s (ch_fd ch) = Some c) \<and>
     (index ch \<noteq> kAdded \<longrightarrow> isNoneEvent ch)"

definition poller_wf :: "'m poller_scheme \<Rightarrow> bool" where
  "poller_wf s \<longleftrightarrow>
     (\<forall>fd c. channels s fd = Some c \<longrightarrow> (\<exists>ch. chans s c = Some ch \<and> ch_fd ch = fd \<and> index ch \<noteq> kNew)) \<and>
     (\<forall>c ch. chans s c = Some ch \<longrightarrow> channel_entry_ok s c ch) \<and>
     epoll_calls_ok (epoll_log s) \<and>
     (\<forall>fd. registered (epoll_log s) fd = wanted s fd)"

section \<open>The effect of an update and of a removal\<close>

definition next_index :: "channel \<Rightarrow> cint \<Rightarrow> int" where
  "next_index ch ev = (if index ch = kAdded \<and> ev = kNoneEvent then kDeleted else kAdded)"

definition next_op :: "channel \<Rightarrow> cint \<Rightarrow> epoll_op" where
  "next_op ch ev =
     (if index ch \<noteq> kAdded then EPOLL_CTL_ADD else if ev = kNoneEvent then EPOLL_CTL_DEL else EPOLL_CTL_MOD)"

definition after_update :: "chan \<Rightarrow> channel \<Rightarrow> cint \<Rightarrow> 'm poller_scheme \<Rightarrow> 'm poller_scheme" where
  "after_update c ch ev s =
     s\<lparr>chans := (chans s)(c \<mapsto> ch\<lparr>events := ev, addedToLoop := True, index := next_index ch ev\<rparr>),
       channels := (channels s)(ch_fd ch \<mapsto> c),
       epoll_log := \<lparr>ec_op = next_op ch ev, ec_fd = ch_fd ch, ec_events = ev, ec_ptr = c\<rparr> # epoll_log s\<rparr>"

definition after_remove :: "chan \<Rightarrow> channel \<Rightarrow> 'm poller_scheme \<Rightarrow> 'm poller_scheme" where
  "after_remove c ch s =
     s\<lparr>chans := (chans s)(c \<mapsto> ch\<lparr>index := kNew\<rparr>),
       channels := (channels s)(ch_fd ch := None),
       epoll_log := (if index ch = kAdded
                     then [\<lparr>ec_op = EPOLL_CTL_DEL, ec_fd = ch_fd ch, ec_events = events ch, ec_ptr = c\<rparr>]
                     else []) @ epoll_log s\<rparr>"

text \<open>A descriptor is free for a channel that is not in the poller yet.\<close>

definition fd_free :: "'m poller_scheme \<Rightarrow> channel \<Rightarrow> bool" where
  "fd_free s ch \<longleftrightarrow> (index ch = kNew \<longrightarrow> channels s (ch_fd ch) = None)"

lemma index_distinct [simp]:
  "kNew \<noteq> kAdded" "kAdded \<noteq> kNew" "kNew \<noteq> kDeleted" "kDeleted \<noteq> kNew" "kAdded \<noteq> kDeleted" "kDeleted \<noteq> kAdded"
  by (simp_all add: index_defs)

lemma poller_wf_cong:
  "chans t = chans s \<Longrightarrow> channels t = channels s \<Longrightarrow> epoll_log t = epoll_log s \<Longrightarrow> poller_wf t = poller_wf s"
  by (simp add: poller_wf_def wanted_def channel_entry_ok_def cong: option.case_cong)

lemma poller_wf_ctor: "poller_wf EPollPoller_ctor"
  by (simp add: poller_wf_def EPollPoller_ctor_def wanted_def)

lemma poller_wfD:
  assumes "poller_wf s"
  shows "channels s fd = Some c \<Longrightarrow> \<exists>ch. chans s c = Some ch \<and> ch_fd ch = fd \<and> index ch \<noteq> kNew"
    and "chans s c = Some ch \<Longrightarrow> channel_entry_ok s c ch"
    and "epoll_calls_ok (epoll_log s)"
    and "registered (epoll_log s) fd = wanted s fd"
  using assms by (auto simp: poller_wf_def)

lemma wanted_chan:
  assumes wf: "poller_wf s" and ch: "chans s c = Some ch" and free: "fd_free s ch"
  shows "wanted s (ch_fd ch) = (if index ch = kAdded then Some (events ch, c) else None)"
  using poller_wfD(2) [OF wf ch] free ch
  by (auto simp: wanted_def channel_entry_ok_def fd_free_def split: option.splits)

lemma index_update_idem: "index ch = i \<Longrightarrow> ch\<lparr>events := ev, addedToLoop := a, index := i\<rparr> = ch\<lparr>events := ev, addedToLoop := a\<rparr>"
  by (cases ch) simp

lemma updateChannel_eq:
  assumes wf: "poller_wf s" and ch: "chans s c = Some ch" and free: "fd_free s ch"
  shows "EPollPoller_updateChannel c (put_chan c (ch\<lparr>events := ev, addedToLoop := True\<rparr>) s) =
    Inr (after_update c ch ev s)"
proof -
  consider "index ch = kNew" | "index ch = kDeleted" | "index ch = kAdded"
    using poller_wfD(2) [OF wf ch] by (auto simp: channel_entry_ok_def)
  then show ?thesis
    by cases
      (use poller_wfD(2) [OF wf ch] free in
        \<open>simp_all add: EPollPoller_updateChannel_def Let_def fd_free_def channel_entry_ok_def set_index_def
          upd_chan_def put_chan_def poller_update_def after_update_def next_index_def next_op_def
          isNoneEvent_def fun_upd_idem index_update_idem\<close>)
qed

lemma channels_other:
  assumes wf: "poller_wf s" and ch: "chans s c = Some ch" and "fd \<noteq> ch_fd ch"
    and "channels s fd = Some c'"
  shows "c' \<noteq> c"
  using poller_wfD(1) [OF wf assms(4)] ch assms(3) by auto

lemma after_update_wf:
  assumes wf: "poller_wf s" and ch: "chans s c = Some ch" and free: "fd_free s ch"
  shows "poller_wf (after_update c ch ev s)"
proof -
  note entry = poller_wfD(2) [OF wf ch]
  have log: "epoll_calls_ok (epoll_log (after_update c ch ev s))"
    using poller_wfD(3,4) [OF wf] wanted_chan [OF wf ch free]
    by (simp add: after_update_def next_op_def)
  have reg: "registered (epoll_log (after_update c ch ev s)) fd = wanted (after_update c ch ev s) fd" for fd
  proof (cases "fd = ch_fd ch")
    case True
    then show ?thesis
      by (simp add: after_update_def wanted_def next_op_def next_index_def)
  next
    case False
    then show ?thesis
      using poller_wfD(4) [OF wf, of fd] channels_other [OF wf ch False]
      by (auto simp: after_update_def wanted_def split: option.splits)
  qed
  have map: "\<exists>ch'. chans (after_update c ch ev s) d = Some ch' \<and> ch_fd ch' = fd \<and> index ch' \<noteq> kNew"
    if "channels (after_update c ch ev s) fd = Some d" for fd d
    using that poller_wfD(1) [OF wf, of fd d] ch
    by (auto simp: after_update_def next_index_def split: if_splits)
  have entries: "channel_entry_ok (after_update c ch ev s) d ch'"
    if "chans (after_update c ch ev s) d = Some ch'" for d ch'
  proof (cases "d = c")
    case True
    with that show ?thesis
      by (auto simp: after_update_def channel_entry_ok_def next_index_def isNoneEvent_def split: if_splits)
  next
    case False
    with that have "chans s d = Some ch'" by (simp add: after_update_def)
    from poller_wfD(2) [OF wf this] False entry free show ?thesis
      by (auto simp: after_update_def channel_entry_ok_def fd_free_def)
  qed
  from log reg map entries show ?thesis by (simp add: poller_wf_def)
qed

lemma removeChannel_eq:
  assumes wf: "poller_wf s" and ch: "chans s c = Some ch"
    and "index ch \<noteq> kNew" and "isNoneEvent ch"
  shows "EPollPoller_removeChannel c s = Inr (after_remove c ch s)"
  using poller_wfD(2) [OF wf ch] assms(3,4) ch
  by (auto simp: EPollPoller_removeChannel_def channel_entry_ok_def after_remove_def poller_update_def
      set_index_def upd_chan_def put_chan_def Let_def)

lemma after_remove_wf:
  assumes wf: "poller_wf s" and ch: "chans s c = Some ch" and "index ch \<noteq> kNew" and "isNoneEvent ch"
  shows "poller_wf (after_remove c ch s)"
proof -
  have mine: "channels s (ch_fd ch) = Some c"
    using poller_wfD(2) [OF wf ch] assms(3) by (simp add: channel_entry_ok_def)
  have log: "epoll_calls_ok (epoll_log (after_remove c ch s))"
    using poller_wfD(3,4) [OF wf] wanted_chan [OF wf ch] assms(3)
    by (simp add: after_remove_def fd_free_def)
  have reg: "registered (epoll_log (after_remove c ch s)) fd = wanted (after_remove c ch s) fd" for fd
    using poller_wfD(4) [OF wf, of fd] channels_other [OF wf ch, of fd] mine ch
    by (auto simp: after_remove_def wanted_def split: option.splits)
  have map: "\<exists>ch'. chans (after_remove c ch s) d = Some ch' \<and> ch_fd ch' = fd \<and> index ch' \<noteq> kNew"
    if "channels (after_remove c ch s) fd = Some d" for fd d
    using that poller_wfD(1) [OF wf, of fd d] ch by (auto simp: after_remove_def split: if_splits)
  have entries: "channel_entry_ok (after_remove c ch s) d ch'"
    if "chans (after_remove c ch s) d = Some ch'" for d ch'
  proof (cases "d = c")
    case True
    with that assms(4) show ?thesis
      by (auto simp: after_remove_def channel_entry_ok_def isNoneEvent_def)
  next
    case False
    with that have "chans s d = Some ch'" by (simp add: after_remove_def)
    from poller_wfD(2) [OF wf this] False mine show ?thesis
      by (auto simp: after_remove_def channel_entry_ok_def)
  qed
  from log reg map entries show ?thesis by (simp add: poller_wf_def)
qed

section \<open>Polling\<close>

text \<open>Replacing a channel by one that agrees on what the poller reads keeps the invariant.\<close>

definition same_registration :: "channel \<Rightarrow> channel \<Rightarrow> bool" where
  "same_registration ch ch' \<longleftrightarrow> ch_fd ch' = ch_fd ch \<and> index ch' = index ch \<and> events ch' = events ch"

lemma put_chan_wf:
  assumes wf: "poller_wf s" and ch: "chans s c = Some ch" and same: "same_registration ch ch'"
  shows "poller_wf (put_chan c ch' s)"
proof -
  have "wanted (put_chan c ch' s) fd = wanted s fd" for fd
    using ch same by (auto simp: wanted_def put_chan_def same_registration_def split: option.splits)
  moreover have "channel_entry_ok (put_chan c ch' s) d x" if "chans (put_chan c ch' s) d = Some x" for d x
  proof (cases "d = c")
    case True
    with that poller_wfD(2) [OF wf ch] same show ?thesis
      by (auto simp: put_chan_def channel_entry_ok_def isNoneEvent_def same_registration_def)
  next
    case False
    with that have "chans s d = Some x" by (simp add: put_chan_def)
    from poller_wfD(2) [OF wf this] show ?thesis by (simp add: put_chan_def channel_entry_ok_def)
  qed
  moreover have "\<exists>x. chans (put_chan c ch' s) d = Some x \<and> ch_fd x = fd \<and> index x \<noteq> kNew"
    if "channels s fd = Some d" for fd d
    using poller_wfD(1) [OF wf that] ch same by (auto simp: put_chan_def same_registration_def)
  ultimately show ?thesis
    using poller_wfD(3,4) [OF wf] by (auto simp: poller_wf_def put_chan_def)
qed

definition reported :: "(chan \<times> cint) list \<Rightarrow> chan \<Rightarrow> channel \<Rightarrow> channel" where
  "reported evs c ch = (case map_of (rev evs) c of None \<Rightarrow> ch | Some ev \<Rightarrow> ch\<lparr>revents := ev\<rparr>)"

lemma reported_Nil [simp]: "reported [] c ch = ch"
  by (simp add: reported_def)

lemma reported_Cons:
  "reported ((c, ev) # evs) d ch = (if d = c then reported evs d (ch\<lparr>revents := ev\<rparr>) else reported evs d ch)"
  by (auto simp: reported_def map_add_def split: option.splits)

lemma fillActiveChannels_ok:
  assumes "poller_wf s" and "\<forall>c \<in> fst ` set evs. chans s c \<noteq> None"
  shows "\<exists>t. fillActiveChannels evs s = Inr (map fst evs, t) \<and> poller_wf t \<and>
    chans t = (\<lambda>d. map_option (reported evs d) (chans s d)) \<and>
    channels t = channels s \<and> epoll_log t = epoll_log s \<and> events_size t = events_size s"
  using assms
proof (induction evs arbitrary: s)
  case Nil
  then show ?case by (simp add: option.map_ident)
next
  case (Cons p evs)
  obtain c ev where p: "p = (c, ev)" by fastforce
  from Cons.prems p obtain ch where ch: "chans s c = Some ch" by auto
  let ?s = "put_chan c (ch\<lparr>revents := ev\<rparr>) s"
  have wf: "poller_wf ?s"
    using Cons.prems(1) ch by (rule put_chan_wf) (simp add: same_registration_def)
  moreover have "\<forall>d \<in> fst ` set evs. chans ?s d \<noteq> None" using Cons.prems p by auto
  ultimately obtain t where t: "fillActiveChannels evs ?s = Inr (map fst evs, t)" "poller_wf t"
      "chans t = (\<lambda>d. map_option (reported evs d) (chans ?s d))"
      "channels t = channels ?s" "epoll_log t = epoll_log ?s" "events_size t = events_size ?s"
    using Cons.IH by blast
  have "upd_chan c (\<lambda>ch. ch\<lparr>revents := ev\<rparr>) s = Inr ?s" using ch by (simp add: upd_chan_def)
  with t ch p show ?case
    by (auto simp: put_chan_def reported_Cons fun_eq_iff)
qed

text \<open>Polling changes nothing but the channels' events and the size of the array.\<close>

lemma fillActiveChannels_frame: "fillActiveChannels evs s = Inr (cs, t) \<Longrightarrow> \<exists>m. t = s\<lparr>chans := m\<rparr>"
proof (induction evs arbitrary: s cs)
  case Nil
  then show ?case by (intro exI [of _ "chans s"]) simp
next
  case (Cons p evs)
  obtain c ev where p: "p = (c, ev)" by fastforce
  from Cons.prems obtain ch cs' where "fillActiveChannels evs (put_chan c (ch\<lparr>revents := ev\<rparr>) s) = Inr (cs', t)"
    by (auto simp: p result_simps)
  from Cons.IH [OF this] show ?case by (auto simp: put_chan_def)
qed

lemma poll_frame:
  assumes "EPollPoller_poll answer s = Inr (cs, t)"
  shows "\<exists>m n. t = s\<lparr>chans := m, events_size := n\<rparr>"
proof -
  consider "t = s" | evs u n where "fillActiveChannels evs s = Inr (cs, u)" "t = u\<lparr>events_size := n\<rparr> \<or> t = u"
    using assms by (auto simp: EPollPoller_poll_def result_simps split: sum.splits if_splits)
  then show ?thesis
  proof cases
    case 1
    then show ?thesis by (intro exI [of _ "chans s"] exI [of _ "events_size s"]) simp
  next
    case 2
    obtain m where m: "u = s\<lparr>chans := m\<rparr>" using fillActiveChannels_frame [OF 2(1)] by blast
    have "u = u\<lparr>events_size := events_size u\<rparr>" by simp
    with 2(2) show ?thesis unfolding m by metis
  qed
qed

lemma poll_ok:
  assumes "poller_wf s" and "\<forall>c \<in> fst ` set evs. chans s c \<noteq> None"
  shows "\<exists>t. EPollPoller_poll (Inr evs) s = Inr (map fst evs, t) \<and> poller_wf t \<and>
    chans t = (\<lambda>d. map_option (reported evs d) (chans s d)) \<and> channels t = channels s \<and>
    epoll_log t = epoll_log s \<and>
    events_size t = (if evs \<noteq> [] \<and> length evs = events_size s then events_size s * 2 else events_size s)"
proof -
  obtain t where t: "fillActiveChannels evs s = Inr (map fst evs, t)" "poller_wf t"
      "chans t = (\<lambda>d. map_option (reported evs d) (chans s d))"
      "channels t = channels s" "epoll_log t = epoll_log s" "events_size t = events_size s"
    using fillActiveChannels_ok [OF assms] by blast
  have "poller_wf (t\<lparr>events_size := n\<rparr>)" for n
    using t(2) poller_wf_cong [of "t\<lparr>events_size := n\<rparr>" t] by simp
  with t assms show ?thesis
    by (cases evs) (auto simp: EPollPoller_poll_def option.map_ident)
qed

text \<open>
  C19. When \<open>epoll_wait\<close> reports channels that are alive, \<open>poll\<close> returns exactly them, in the
  order reported, with the reported events stored in each and every other channel unchanged; the
  registrations stay, and the event array doubles exactly when the report filled it.
\<close>

theorem poll_reports_active:
  assumes "poller_wf s" and "\<forall>c \<in> fst ` set evs. chans s c \<noteq> None"
  shows "\<exists>t. EPollPoller_poll (Inr evs) s = Inr (map fst evs, t) \<and> poller_wf t \<and>
    chans t = (\<lambda>d. map_option (reported evs d) (chans s d)) \<and> channels t = channels s \<and>
    epoll_log t = epoll_log s \<and>
    events_size t = (if evs \<noteq> [] \<and> length evs = events_size s then events_size s * 2 else events_size s)"
  using assms by (rule poll_ok)

definition one_channel_poller :: poller where
  "one_channel_poller =
     after_update 0 (Channel_ctor 0 5) kReadEvent (put_chan 0 (Channel_ctor 0 5) EPollPoller_ctor)"

lemma one_channel_poller_wf: "poller_wf one_channel_poller"
  unfolding one_channel_poller_def
proof (rule after_update_wf)
  show "poller_wf (put_chan 0 (Channel_ctor 0 5) EPollPoller_ctor)"
    using poller_wf_ctor
    by (auto simp: poller_wf_def put_chan_def EPollPoller_ctor_def wanted_def channel_entry_ok_def
        Channel_ctor_def index_defs isNoneEvent_def kNoneEvent_def)
qed (simp_all add: fd_free_def EPollPoller_ctor_def put_chan_def)

theorem poll_reports_active_witness:
  "poller_wf one_channel_poller \<and> chans one_channel_poller 0 \<noteq> None \<and>
   (\<exists>t. EPollPoller_poll (Inr [(0, POLLIN)]) one_channel_poller = Inr ([0], t) \<and>
      map_option revents (chans t 0) = Some POLLIN \<and> events_size t = 16)"
proof -
  have alive: "\<forall>c \<in> fst ` set [(0 :: chan, POLLIN)]. chans one_channel_poller c \<noteq> None"
    by (simp add: one_channel_poller_def after_update_def)
  from poll_reports_active [OF one_channel_poller_wf alive] alive one_channel_poller_wf show ?thesis
    by (auto simp: one_channel_poller_def after_update_def reported_def put_chan_def EPollPoller_ctor_def
        kInitEventListSize_def)
qed

end
