(* ===== verification/Siren_EventLoop.thy ===== *)
theory Siren_EventLoop
  imports Siren_Poller
begin

text \<open>
  The event loop of \<open>include/siren/net/EventLoop.h\<close> and \<open>src/net/EventLoop.cpp\<close>, and the
  operations of \<open>src/net/Channel.cpp\<close> that go through it.

  One \<open>loop\<close> record is the state of one \<open>EventLoop\<close>: the poller with the channels of this loop, the
  flags, the active channels, and the queue of pending functors. A functor is a closure that the
  library binds; \<open>closure\<close> has one constructor for each of them, with the bound arguments, and \<open>None\<close>
  in the queue is an empty \<open>std::function\<close>. Executing a functor or a channel callback belongs to the
  components, so \<open>runInLoop\<close>, \<open>doPendingFunctors\<close> and \<open>loop\<close> take it as the parameter \<open>run\<close> or \<open>exec\<close>.
  The calling thread is an argument \<open>tid\<close>. \<open>assertInLoopThread\<close> only writes a log line in this code
  base, so it has no effect in the model. \<open>wakeups\<close> counts the writes to the eventfd since it was
  last read. \<open>loop\<close> runs against a list of \<open>epoll_wait\<close> answers; when the list is used up the
  loop is waiting in \<open>epoll_wait\<close>.
\<close>

section \<open>Data\<close>

datatype closure =
    Fn_sendInLoop_ptr nat nat nat
  | Fn_sendInLoop nat "byte list"
  | Fn_shutdownInLoop nat
  | Fn_forceCloseInLoop nat
  | Fn_startReadInLoop nat
  | Fn_stopReadInLoop nat
  | Fn_writeComplete nat nat
  | Fn_highWaterMark nat nat size_t
  | Fn_connectEstablished nat
  | Fn_connectDestroyed nat
  | Fn_setCloseCallback nat
  | Fn_addTimerInLoop nat
  | Fn_Connector_startInLoop nat
  | Fn_Connector_stopInLoop nat
  | Fn_Connector_resetChannel nat
  | Fn_Acceptor_listen nat
  | Fn_removeConnectionInLoop nat nat
  | Fn_user nat

record loop = poller +
  loop_id :: nat
  threadId :: nat
  looping :: bool
  callingPendingFunctors :: bool
  quit :: bool
  eventHandling :: bool
  activeChannels :: "chan list"
  currentActiveChannel :: "chan option"
  pollReturnTime :: int
  pendingFunctors :: "closure option list"
  wakeupFd :: fd
  wakeupChannel :: chan
  wakeups :: nat

section \<open>Channels of the loop\<close>

definition EventLoop_updateChannel :: "chan \<Rightarrow> 'm loop_scheme \<Rightarrow> 'm loop_scheme result" where
  "EventLoop_updateChannel c s =
     with_chan c s (\<lambda>ch.
       if ownerLoop ch \<noteq> loop_id s then Inl (Assert_failed ''channel->ownerLoop() == this'')
       else EPollPoller_updateChannel c s)"

definition EventLoop_removeChannel :: "chan \<Rightarrow> 'm loop_scheme \<Rightarrow> 'm loop_scheme result" where
  "EventLoop_removeChannel c s =
     with_chan c s (\<lambda>ch.
       if ownerLoop ch \<noteq> loop_id s then Inl (Assert_failed ''channel->ownerLoop() == this'')
       else if eventHandling s \<and> \<not> (currentActiveChannel s = Some c \<or> c \<notin> set (activeChannels s))
       then Inl (Assert_failed ''currentActiveChannel_ == channel || not active'')
       else EPollPoller_removeChannel c s)"

definition EventLoop_hasChannel :: "chan \<Rightarrow> 'm loop_scheme \<Rightarrow> bool result" where
  "EventLoop_hasChannel c s =
     with_chan c s (\<lambda>ch.
       if ownerLoop ch \<noteq> loop_id s then Inl (Assert_failed ''channel->ownerLoop() == this'')
       else hasChannel c s)"

definition Channel_update :: "chan \<Rightarrow> 'm loop_scheme \<Rightarrow> 'm loop_scheme result" where
  "Channel_update c s =
     rbind (upd_chan c (\<lambda>ch. ch\<lparr>addedToLoop := True\<rparr>) s) (EventLoop_updateChannel c)"

definition enableReading :: "chan \<Rightarrow> 'm loop_scheme \<Rightarrow> 'm loop_scheme result" where
  "enableReading c s =
     rbind (upd_chan c (\<lambda>ch. ch\<lparr>events := events ch OR kReadEvent\<rparr>) s) (Channel_update c)"

definition disableReading :: "chan \<Rightarrow> 'm loop_scheme \<Rightarrow> 'm loop_scheme result" where
  "disableReading c s =
     rbind (upd_chan c (\<lambda>ch. ch\<lparr>events := events ch AND NOT kReadEvent\<rparr>) s) (Channel_update c)"

definition enableWriting :: "chan \<Rightarrow> 'm loop_scheme \<Rightarrow> 'm loop_scheme result" where
  "enableWriting c s =
     rbind (upd_chan c (\<lambda>ch. ch\<lparr>events := events ch OR kWriteEvent\<rparr>) s) (Channel_update c)"

definition disableWriting :: "chan \<Rightarrow> 'm loop_scheme \<Rightarrow> 'm loop_scheme result" where
  "disableWriting c s =
     rbind (upd_chan c (\<lambda>ch. ch\<lparr>events := events ch AND NOT kWriteEvent\<rparr>) s) (Channel_update c)"

definition disableAll :: "chan \<Rightarrow> 'm loop_scheme \<Rightarrow> 'm loop_scheme result" where
  "disableAll c s =
     rbind (upd_chan c (\<lambda>ch. ch\<lparr>events := kNoneEvent\<rparr>) s) (Channel_update c)"

definition Channel_remove :: "chan \<Rightarrow> 'm loop_scheme \<Rightarrow> 'm loop_scheme result" where
  "Channel_remove c s =
     with_chan c s (\<lambda>ch.
       if \<not> isNoneEvent ch then Inl (Assert_failed ''isNoneEvent()'')
       else rbind (upd_chan c (\<lambda>ch. ch\<lparr>addedToLoop := False\<rparr>) s) (EventLoop_removeChannel c))"

section \<open>Functors and wake-up\<close>

definition isInLoopThread :: "nat \<Rightarrow> 'm loop_scheme \<Rightarrow> bool" where
  "isInLoopThread tid s \<longleftrightarrow> threadId s = tid"

definition wakeup :: "'m loop_scheme \<Rightarrow> 'm loop_scheme" where
  "wakeup s = s\<lparr>wakeups := wakeups s + 1\<rparr>"

definition EventLoop_handleRead_op :: "'m loop_scheme \<Rightarrow> 'm loop_scheme" where
  "EventLoop_handleRead_op s = s\<lparr>wakeups := 0\<rparr>"

definition Channel_dtor :: "nat \<Rightarrow> chan \<Rightarrow> 'm loop_scheme \<Rightarrow> 'm loop_scheme result" where
  "Channel_dtor tid c s =
     (if isInLoopThread tid s
      then rbind (EventLoop_hasChannel c s) (\<lambda>has.
             if has then Inl (Assert_failed ''!loop_->hasChannel(this)'')
             else Inr (s\<lparr>chans := (chans s)(c := None)\<rparr>))
      else Inr (s\<lparr>chans := (chans s)(c := None)\<rparr>))"

text \<open>
  \<open>queueInLoop\<close>: the functor is pushed, then the loop is woken unless it is certain to look. \<open>queue_push\<close> is the push when no other thread is at
  \<open>pendingFunctors_\<close>: \<open>std::unique_lock<std::mutex>(mutex_)\<close> in the source declares an empty lock of the name \<open>mutex_\<close> and locks nothing, so pushes of several
  threads may overlap; \<open>Siren_Wakeup\<close> has them in two steps.
\<close>

definition queue_push :: "closure option \<Rightarrow> 'm loop_scheme \<Rightarrow> 'm loop_scheme" where
  "queue_push cb s = s\<lparr>pendingFunctors := pendingFunctors s @ [cb]\<rparr>"

definition queue_wake :: "nat \<Rightarrow> 'm loop_scheme \<Rightarrow> 'm loop_scheme" where
  "queue_wake tid s = (if \<not> isInLoopThread tid s \<or> callingPendingFunctors s then wakeup s else s)"

definition queueInLoop :: "nat \<Rightarrow> closure option \<Rightarrow> 'm loop_scheme \<Rightarrow> 'm loop_scheme" where
  "queueInLoop tid cb s = queue_wake tid (queue_push cb s)"

definition runInLoop :: "(closure \<Rightarrow> 'm loop_scheme \<Rightarrow> 'm loop_scheme result) \<Rightarrow> nat \<Rightarrow> closure option \<Rightarrow>
    'm loop_scheme \<Rightarrow> 'm loop_scheme result" where
  "runInLoop run tid cb s =
     (if isInLoopThread tid s
      then (case cb of None \<Rightarrow> Inl Bad_function_call | Some f \<Rightarrow> run f s)
      else Inr (queueInLoop tid cb s))"

definition EventLoop_quit :: "nat \<Rightarrow> 'm loop_scheme \<Rightarrow> 'm loop_scheme" where
  "EventLoop_quit tid s =
     (let s1 = s\<lparr>quit := True\<rparr> in if \<not> isInLoopThread tid s1 then wakeup s1 else s1)"

definition pending_begin :: "'m loop_scheme \<Rightarrow> closure option list \<times> 'm loop_scheme" where
  "pending_begin s = (pendingFunctors s, s\<lparr>callingPendingFunctors := True, pendingFunctors := []\<rparr>)"

definition pending_end :: "'m loop_scheme \<Rightarrow> 'm loop_scheme" where
  "pending_end s = s\<lparr>callingPendingFunctors := False\<rparr>"

definition run_if_set :: "(closure \<Rightarrow> 'm loop_scheme \<Rightarrow> 'm loop_scheme result) \<Rightarrow> closure option \<Rightarrow>
    'm loop_scheme \<Rightarrow> 'm loop_scheme result" where
  "run_if_set run cb s = (case cb of None \<Rightarrow> Inr s | Some f \<Rightarrow> run f s)"

definition doPendingFunctors :: "(closure \<Rightarrow> 'm loop_scheme \<Rightarrow> 'm loop_scheme result) \<Rightarrow>
    'm loop_scheme \<Rightarrow> 'm loop_scheme result" where
  "doPendingFunctors run s =
     (case pending_begin s of (functors, s1) \<Rightarrow>
        rbind (rfold (run_if_set run) functors s1) (\<lambda>s2. Inr (pending_end s2)))"

section \<open>The loop\<close>

definition handle_active :: "(chan_callback \<Rightarrow> 'm loop_scheme \<Rightarrow> 'm loop_scheme result) \<Rightarrow>
    (nat \<Rightarrow> 'm loop_scheme \<Rightarrow> bool) \<Rightarrow> chan \<Rightarrow> 'm loop_scheme \<Rightarrow> 'm loop_scheme result" where
  "handle_active exec alive c s = handleEvent exec alive c (s\<lparr>currentActiveChannel := Some c\<rparr>)"

definition loop_iteration :: "(chan_callback \<Rightarrow> 'm loop_scheme \<Rightarrow> 'm loop_scheme result) \<Rightarrow>
    (nat \<Rightarrow> 'm loop_scheme \<Rightarrow> bool) \<Rightarrow> (closure \<Rightarrow> 'm loop_scheme \<Rightarrow> 'm loop_scheme result) \<Rightarrow>
    int \<times> (errno + (chan \<times> cint) list) \<Rightarrow> 'm loop_scheme \<Rightarrow> 'm loop_scheme result" where
  "loop_iteration exec alive run answer s =
     rbind (EPollPoller_poll (snd answer) (s\<lparr>activeChannels := []\<rparr>)) (\<lambda>(active, s1).
     rbind (rfold (handle_active exec alive) active
              (s1\<lparr>activeChannels := active, pollReturnTime := fst answer, eventHandling := True\<rparr>)) (\<lambda>s2.
     doPendingFunctors run (s2\<lparr>currentActiveChannel := None, eventHandling := False\<rparr>)))"

primrec loop_while :: "(int \<times> (errno + (chan \<times> cint) list) \<Rightarrow> 'm loop_scheme \<Rightarrow> 'm loop_scheme result) \<Rightarrow>
    (int \<times> (errno + (chan \<times> cint) list)) list \<Rightarrow> 'm loop_scheme \<Rightarrow> 'm loop_scheme result" where
  "loop_while body [] s = Inr (if quit s then s\<lparr>looping := False\<rparr> else s)"
| "loop_while body (a # as) s =
     (if quit s then Inr (s\<lparr>looping := False\<rparr>) else rbind (body a s) (loop_while body as))"

definition EventLoop_loop :: "(chan_callback \<Rightarrow> 'm loop_scheme \<Rightarrow> 'm loop_scheme result) \<Rightarrow>
    (nat \<Rightarrow> 'm loop_scheme \<Rightarrow> bool) \<Rightarrow> (closure \<Rightarrow> 'm loop_scheme \<Rightarrow> 'm loop_scheme result) \<Rightarrow>
    (int \<times> (errno + (chan \<times> cint) list)) list \<Rightarrow> 'm loop_scheme \<Rightarrow> 'm loop_scheme result" where
  "EventLoop_loop exec alive run answers s =
     loop_while (loop_iteration exec alive run) answers (s\<lparr>looping := True, quit := False\<rparr>)"

section \<open>Construction\<close>

text \<open>
  The constructor: the poller, then the timer queue with its channel on \<open>timerfd\<close> (address 0),
  then the eventfd (negative when \<open>eventfd\<close> fails, which aborts) with its channel (address 1).
\<close>

definition createEventfd :: "fd \<Rightarrow> fd result" where
  "createEventfd evtfd = (if evtfd < 0 then Inl Aborted else Inr evtfd)"

definition TimerQueue_ctor :: "nat \<Rightarrow> fd \<Rightarrow> 'm loop_scheme \<Rightarrow> 'm loop_scheme result" where
  "TimerQueue_ctor self timerfd s =
     enableReading 0 (put_chan 0 ((Channel_ctor self timerfd)\<lparr>readCallback := Some TimerQueue_handleRead\<rparr>) s)"

definition EventLoop_ctor :: "nat \<Rightarrow> nat \<Rightarrow> fd \<Rightarrow> fd \<Rightarrow> loop result" where
  "EventLoop_ctor self tid timerfd eventfd =
     (let s0 = \<lparr>chans = Map.empty, channels = Map.empty, events_size = kInitEventListSize, epoll_log = [],
                loop_id = self, threadId = tid, looping = False, callingPendingFunctors = False,
                quit = False, eventHandling = False, activeChannels = [], currentActiveChannel = None,
                pollReturnTime = 0, pendingFunctors = [], wakeupFd = eventfd, wakeupChannel = 1, wakeups = 0\<rparr>
      in rbind (TimerQueue_ctor self timerfd s0) (\<lambda>s1.
         rbind (createEventfd eventfd) (\<lambda>evtfd.
         enableReading 1 (put_chan 1 ((Channel_ctor self evtfd)\<lparr>readCallback := Some EventLoop_handleRead\<rparr>) s1))))"

lemmas ctor_defs = EventLoop_ctor_def TimerQueue_ctor_def createEventfd_def

section \<open>Interest in events\<close>

datatype interest_op = EnableReading | DisableReading | EnableWriting | DisableWriting | DisableAll

fun channel_op :: "interest_op \<Rightarrow> chan \<Rightarrow> 'm loop_scheme \<Rightarrow> 'm loop_scheme result" where
  "channel_op EnableReading = enableReading"
| "channel_op DisableReading = disableReading"
| "channel_op EnableWriting = enableWriting"
| "channel_op DisableWriting = disableWriting"
| "channel_op DisableAll = disableAll"

fun interest :: "interest_op \<Rightarrow> cint \<Rightarrow> cint" where
  "interest EnableReading ev = ev OR kReadEvent"
| "interest DisableReading ev = ev AND NOT kReadEvent"
| "interest EnableWriting ev = ev OR kWriteEvent"
| "interest DisableWriting ev = ev AND NOT kWriteEvent"
| "interest DisableAll ev = kNoneEvent"

definition loop_wf :: "'m loop_scheme \<Rightarrow> bool" where
  "loop_wf s \<longleftrightarrow> poller_wf s \<and> (\<forall>c ch. chans s c = Some ch \<longrightarrow> ownerLoop ch = loop_id s)"

definition usable :: "'m loop_scheme \<Rightarrow> chan \<Rightarrow> bool" where
  "usable s c \<longleftrightarrow> (\<exists>ch. chans s c = Some ch \<and> fd_free s ch)"

definition chan_events :: "'m loop_scheme \<Rightarrow> chan \<Rightarrow> cint" where
  "chan_events s c = (case chans s c of None \<Rightarrow> 0 | Some ch \<Rightarrow> events ch)"

lemma channel_op_eq:
  assumes wf: "loop_wf s" and ch: "chans s c = Some ch" and free: "fd_free s ch"
  shows "channel_op op c s = Inr (after_update c ch (interest op (events ch)) s)"
proof -
  have own: "ownerLoop ch = loop_id s" and pwf: "poller_wf s"
    using wf ch by (auto simp: loop_wf_def)
  have "EventLoop_updateChannel c (put_chan c (ch\<lparr>events := ev, addedToLoop := True\<rparr>) s) =
      Inr (after_update c ch ev s)" for ev
    using updateChannel_eq [OF pwf ch free, of ev] own
    by (simp add: EventLoop_updateChannel_def) (simp add: put_chan_def)
  then show ?thesis
    using ch by (cases op)
      (simp_all add: enableReading_def disableReading_def enableWriting_def disableWriting_def disableAll_def
        Channel_update_def upd_chan_def)
qed

lemma after_update_loop_wf:
  assumes "loop_wf s" and "chans s c = Some ch" and "fd_free s ch"
  shows "loop_wf (after_update c ch ev s)"
  using assms after_update_wf [of s c ch ev] by (auto simp: loop_wf_def after_update_def split: if_splits)

lemma Channel_remove_eq:
  assumes wf: "loop_wf s" and ch: "chans s c = Some ch" and "index ch \<noteq> kNew" and "isNoneEvent ch"
    and "eventHandling s \<longrightarrow> currentActiveChannel s = Some c \<or> c \<notin> set (activeChannels s)"
  shows "Channel_remove c s = Inr (after_remove c (ch\<lparr>addedToLoop := False\<rparr>) s)"
proof -
  let ?ch = "ch\<lparr>addedToLoop := False\<rparr>" and ?s = "put_chan c (ch\<lparr>addedToLoop := False\<rparr>) s"
  have own: "ownerLoop ch = loop_id s" and pwf: "poller_wf s"
    using wf ch by (auto simp: loop_wf_def)
  have "poller_wf ?s"
    using pwf ch by (rule put_chan_wf) (simp add: same_registration_def)
  then have "EPollPoller_removeChannel c ?s = Inr (after_remove c ?ch ?s)"
    using assms(3,4) by (intro removeChannel_eq) (simp_all add: isNoneEvent_def)
  moreover have "after_remove c ?ch ?s = after_remove c ?ch s"
    by (simp add: after_remove_def put_chan_def)
  ultimately show ?thesis
    using ch own assms(4,5)
    by (auto simp: Channel_remove_def EventLoop_removeChannel_def upd_chan_def) (simp_all add: put_chan_def)
qed

lemma after_remove_loop_wf:
  assumes wf: "loop_wf s" and ch: "chans s c = Some ch" and "index ch \<noteq> kNew" and "isNoneEvent ch"
  shows "loop_wf (after_remove c (ch\<lparr>addedToLoop := False\<rparr>) s)"
proof -
  let ?ch = "ch\<lparr>addedToLoop := False\<rparr>"
  have "poller_wf (put_chan c ?ch s)"
    using wf ch by (intro put_chan_wf [of s c ch]) (simp_all add: loop_wf_def same_registration_def)
  then have "poller_wf (after_remove c ?ch (put_chan c ?ch s))"
    by (rule after_remove_wf) (use assms(3,4) in \<open>simp_all add: isNoneEvent_def\<close>)
  moreover have "after_remove c ?ch (put_chan c ?ch s) = after_remove c ?ch s"
    by (simp add: after_remove_def put_chan_def)
  ultimately show ?thesis
    using wf ch by (auto simp: loop_wf_def after_remove_def split: if_splits)
qed

lemma loop_wf_drop_chan:
  assumes wf: "loop_wf s" and ch: "chans s d = Some ch" and out: "channels s (ch_fd ch) \<noteq> Some d"
  shows "loop_wf (s\<lparr>chans := (chans s)(d := None)\<rparr>)"
proof -
  let ?t = "s\<lparr>chans := (chans s)(d := None)\<rparr>"
  have pwf: "poller_wf s" using wf by (simp add: loop_wf_def)
  have other: "e \<noteq> d" if "channels s fd = Some e" for fd e
    using poller_wfD(1) [OF pwf that] ch out that by auto
  have "wanted ?t fd = wanted s fd" for fd
    using other [of fd] by (auto simp: wanted_def split: option.splits)
  moreover have "\<exists>x. chans ?t e = Some x \<and> ch_fd x = fd \<and> index x \<noteq> kNew" if "channels s fd = Some e" for fd e
    using poller_wfD(1) [OF pwf that] other [OF that] by auto
  moreover have "channel_entry_ok ?t e x" if "chans ?t e = Some x" for e x
    using that poller_wfD(2) [OF pwf, of e x] by (auto simp: channel_entry_ok_def split: if_splits)
  ultimately have "poller_wf ?t" using poller_wfD(3,4) [OF pwf] by (auto simp: poller_wf_def)
  then show ?thesis using wf by (auto simp: loop_wf_def split: if_splits)
qed

text \<open>The end of a channel, as its owners bring it about: no interest, out of the poller, destroyed.\<close>

definition retire :: "chan \<Rightarrow> 'm loop_scheme \<Rightarrow> 'm loop_scheme result" where
  "retire c s = rbind (disableAll c s) (\<lambda>s1. rbind (Channel_remove c s1) (Channel_dtor (threadId s) c))"

lemma unregister_ok:
  assumes wf: "loop_wf s" and ch: "chans s c = Some ch" and idx: "index ch \<noteq> kNew" and out: "\<not> eventHandling s"
  shows "\<exists>t ch'. rbind (disableAll c s) (Channel_remove c) = Inr t \<and> loop_wf t \<and> ch_fd ch' = ch_fd ch \<and> index ch' = kNew \<and>
    (\<exists>l. t = s\<lparr>chans := (chans s)(c \<mapsto> ch'), channels := (channels s)(ch_fd ch := None), epoll_log := l\<rparr>)"
proof -
  let ?s1 = "after_update c ch kNoneEvent s"
  let ?ch1 = "ch\<lparr>events := kNoneEvent, addedToLoop := True, index := next_index ch kNoneEvent\<rparr>"
  let ?ch2 = "?ch1\<lparr>addedToLoop := False\<rparr>"
  let ?s2 = "after_remove c ?ch2 ?s1"
  have free: "fd_free s ch" using idx by (simp add: fd_free_def)
  have s1: "disableAll c s = Inr ?s1" using channel_op_eq [OF wf ch free, of DisableAll] by simp
  have wf1: "loop_wf ?s1" using wf ch free by (rule after_update_loop_wf)
  have ch1: "chans ?s1 c = Some ?ch1" "index ?ch1 \<noteq> kNew" "isNoneEvent ?ch1"
    using idx by (simp_all add: after_update_def isNoneEvent_def next_index_def)
  have s2: "Channel_remove c ?s1 = Inr ?s2"
    using out by (intro Channel_remove_eq [OF wf1 ch1]) (simp add: after_update_def)
  have wf2: "loop_wf ?s2" using wf1 ch1 by (rule after_remove_loop_wf)
  have "?s2 = s\<lparr>chans := (chans s)(c \<mapsto> ?ch2\<lparr>index := kNew\<rparr>), channels := (channels s)(ch_fd ch := None), epoll_log := epoll_log ?s2\<rparr>"
    by (simp add: after_remove_def after_update_def)
  with s1 s2 wf2 show ?thesis by (intro exI [of _ ?s2] exI [of _ "?ch2\<lparr>index := kNew\<rparr>"]) (auto simp del: fun_upd_apply)
qed

lemma retire_ok:
  assumes wf: "loop_wf s" and ch: "chans s c = Some ch" and idx: "index ch \<noteq> kNew" and out: "\<not> eventHandling s"
  obtains t where "retire c s = Inr t" "loop_wf t" "chans t = (chans s)(c := None)"
    "channels t = (channels s)(ch_fd ch := None)" "\<not> eventHandling t" "threadId t = threadId s" "wakeupChannel t = wakeupChannel s"
proof -
  from unregister_ok [OF assms] obtain u ch' l where u: "rbind (disableAll c s) (Channel_remove c) = Inr u" "loop_wf u" "ch_fd ch' = ch_fd ch"
    "u = s\<lparr>chans := (chans s)(c \<mapsto> ch'), channels := (channels s)(ch_fd ch := None), epoll_log := l\<rparr>" by blast
  let ?t = "u\<lparr>chans := (chans u)(c := None)\<rparr>"
  have at: "chans u c = Some ch'" "channels u (ch_fd ch') \<noteq> Some c" "threadId u = threadId s" using u(3,4) by simp_all
  then have "Channel_dtor (threadId s) c u = Inr ?t"
    using wf ch u(2) by (simp add: Channel_dtor_def isInLoopThread_def EventLoop_hasChannel_def hasChannel_def loop_wf_def)
  then have "retire c s = Inr ?t" using u(1) by (simp add: retire_def rbind_assoc [symmetric])
  moreover have "loop_wf ?t" using u(2) at(1,2) by (rule loop_wf_drop_chan)
  ultimately show thesis using out u(3,4) by (intro that [of ?t]) simp_all
qed

lemma loop_wf_registered:
  "loop_wf s \<Longrightarrow> channels s fd = None \<Longrightarrow> registered (epoll_log s) fd = None"
  by (simp add: loop_wf_def poller_wf_def wanted_def)

section \<open>The registry as an interface\<close>

text \<open>
  What the owners of a channel (connections, acceptor, connector, timer queue) rely on: from a
  well-formed loop, changing the interest of a usable channel succeeds, leaves the loop well-formed
  and the channel usable, with the new interest. The client lemma: any sequence of changes does.
\<close>

locale channel_registry =
  fixes wf :: "'s \<Rightarrow> bool"
    and ready :: "'s \<Rightarrow> chan \<Rightarrow> bool"
    and interest_of :: "'s \<Rightarrow> chan \<Rightarrow> cint"
    and set_interest :: "interest_op \<Rightarrow> chan \<Rightarrow> 's \<Rightarrow> 's result"
  assumes set_interest_ok: "wf s \<Longrightarrow> ready s c \<Longrightarrow>
    \<exists>t. set_interest op c s = Inr t \<and> wf t \<and> ready t c \<and> interest_of t c = interest op (interest_of s c)"
begin

lemma interest_sequence:
  assumes "wf s" and "ready s c"
  shows "\<exists>t. rfold (\<lambda>op. set_interest op c) ops s = Inr t \<and> wf t \<and> ready t c \<and>
    interest_of t c = fold interest ops (interest_of s c)"
  using assms
proof (induction ops arbitrary: s)
  case Nil
  then show ?case by simp
next
  case (Cons op ops)
  from set_interest_ok [OF Cons.prems, of op] obtain u where
    u: "set_interest op c s = Inr u" "wf u" "ready u c" "interest_of u c = interest op (interest_of s c)"
    by blast
  with Cons.IH [OF u(2,3)] show ?case by simp
qed

end

lemma after_update_usable:
  "chans s c = Some ch \<Longrightarrow> usable (after_update c ch ev s) c"
  by (simp add: usable_def after_update_def fd_free_def next_index_def)

interpretation loop_reg: channel_registry loop_wf usable chan_events channel_op
proof
  fix s :: "'m loop_scheme" and c op
  assume wf: "loop_wf s" and "usable s c"
  then obtain ch where ch: "chans s c = Some ch" and free: "fd_free s ch"
    by (auto simp: usable_def)
  let ?t = "after_update c ch (interest op (events ch)) s"
  have "chan_events ?t c = interest op (chan_events s c)"
    using ch by (simp add: chan_events_def after_update_def)
  with channel_op_eq [OF wf ch free, of op] after_update_loop_wf [OF wf ch free]
    after_update_usable [OF ch, of "interest op (events ch)"]
  show "\<exists>t. channel_op op c s = Inr t \<and> loop_wf t \<and> usable t c \<and>
      chan_events t c = interest op (chan_events s c)"
    by blast
qed

section \<open>Properties of channels\<close>

text \<open>
  C16. Changing the interest of a channel never fails an assertion and keeps \<open>channels_\<close>, the
  indices and the registration with epoll in agreement: no call adds a registered descriptor or changes
  one that is not, and afterwards the descriptor is registered with exactly the new events and
  this channel, or not at all when a registered channel lost its last interest. No other descriptor is touched.
\<close>

theorem channel_op_registers:
  assumes "loop_wf s" and "chans s c = Some ch" and "fd_free s ch"
  shows "\<exists>t. channel_op op c s = Inr t \<and> loop_wf t \<and> epoll_calls_ok (epoll_log t) \<and>
    registered (epoll_log t) (ch_fd ch) =
      (if index ch = kAdded \<and> interest op (events ch) = kNoneEvent then None
       else Some (interest op (events ch), c)) \<and>
    (\<forall>fd. fd \<noteq> ch_fd ch \<longrightarrow> registered (epoll_log t) fd = registered (epoll_log s) fd)"
proof -
  let ?t = "after_update c ch (interest op (events ch)) s"
  have wf: "loop_wf ?t" using assms by (rule after_update_loop_wf)
  then have "epoll_calls_ok (epoll_log ?t)"
    using poller_wfD(3) by (auto simp: loop_wf_def)
  then show ?thesis
    using channel_op_eq [OF assms, of op] wf
    by (auto simp: after_update_def next_op_def)
qed

lemma put_new_chan_wf:
  assumes wf: "loop_wf s" and new: "chans s c = None"
    and ch: "index ch = kNew" "isNoneEvent ch" "ownerLoop ch = loop_id s"
  shows "loop_wf (put_chan c ch s)"
proof -
  have pwf: "poller_wf s" using wf by (simp add: loop_wf_def)
  have other: "d \<noteq> c" if "channels s fd = Some d" for fd d
    using poller_wfD(1) [OF pwf that] new by auto
  have "wanted (put_chan c ch s) fd = wanted s fd" for fd
    using other [of fd] by (auto simp: wanted_def put_chan_def split: option.splits)
  moreover have "channel_entry_ok (put_chan c ch s) d x" if "chans (put_chan c ch s) d = Some x" for d x
    using that poller_wfD(2) [OF pwf, of d x] ch
    by (auto simp: put_chan_def channel_entry_ok_def split: if_splits)
  moreover have "\<exists>x. chans (put_chan c ch s) d = Some x \<and> ch_fd x = fd \<and> index x \<noteq> kNew"
    if "channels s fd = Some d" for fd d
    using poller_wfD(1) [OF pwf that] other [OF that] by (auto simp: put_chan_def)
  ultimately have "poller_wf (put_chan c ch s)"
    using poller_wfD(3,4) [OF pwf] by (auto simp: poller_wf_def put_chan_def)
  then show ?thesis using wf ch by (auto simp: loop_wf_def put_chan_def split: if_splits)
qed

lemma new_channel_enableReading:
  fixes cb :: "chan_callback option"
  assumes wf: "loop_wf s" and new: "chans s c = None" and free: "channels s fd = None"
    and self: "loop_id s = self"
  defines "ch \<equiv> (Channel_ctor self fd)\<lparr>readCallback := cb\<rparr>"
  shows "enableReading c (put_chan c ch s) = Inr (after_update c ch kReadEvent (put_chan c ch s))"
    and "loop_wf (after_update c ch kReadEvent (put_chan c ch s))"
proof -
  have ch: "index ch = kNew" "isNoneEvent ch" "ownerLoop ch = loop_id s" "events ch = 0" "ch_fd ch = fd"
    by (simp_all add: ch_def Channel_ctor_def kNew_def isNoneEvent_def kNoneEvent_def self)
  have wf': "loop_wf (put_chan c ch s)" using wf new ch(1-3) by (rule put_new_chan_wf)
  have free': "fd_free (put_chan c ch s) ch" using free ch by (simp add: fd_free_def put_chan_def)
  have at: "chans (put_chan c ch s) c = Some ch" by simp
  show "enableReading c (put_chan c ch s) = Inr (after_update c ch kReadEvent (put_chan c ch s))"
    using channel_op_eq [OF wf' at free', of EnableReading] ch by simp
  show "loop_wf (after_update c ch kReadEvent (put_chan c ch s))"
    using wf' at free' by (rule after_update_loop_wf)
qed

lemma EventLoop_ctor_eq:
  assumes "timerfd \<noteq> evtfd" and "0 \<le> evtfd"
  shows "\<exists>s. EventLoop_ctor self tid timerfd evtfd = Inr s \<and> loop_wf s \<and> pendingFunctors s = [] \<and> \<not> quit s \<and>
    loop_id s = self \<and> threadId s = tid \<and> \<not> eventHandling s \<and> dom (chans s) = {0, 1} \<and> channels s = [timerfd \<mapsto> 0, evtfd \<mapsto> 1] \<and>
    (\<forall>fd. registered (epoll_log s) fd =
      (if fd = timerfd then Some (kReadEvent, 0) else if fd = evtfd then Some (kReadEvent, wakeupChannel s) else None))"
proof -
  let ?s0 = "\<lparr>chans = Map.empty, channels = Map.empty, events_size = kInitEventListSize, epoll_log = [],
      loop_id = self, threadId = tid, looping = False, callingPendingFunctors = False,
      quit = False, eventHandling = False, activeChannels = [], currentActiveChannel = None,
      pollReturnTime = 0, pendingFunctors = [], wakeupFd = evtfd, wakeupChannel = 1, wakeups = 0\<rparr>"
  let ?c0 = "(Channel_ctor self timerfd)\<lparr>readCallback := Some TimerQueue_handleRead\<rparr>"
  let ?c1 = "(Channel_ctor self evtfd)\<lparr>readCallback := Some EventLoop_handleRead\<rparr>"
  let ?s1 = "after_update 0 ?c0 kReadEvent (put_chan 0 ?c0 ?s0)"
  have wf0: "loop_wf ?s0"
    by (simp add: loop_wf_def poller_wf_def wanted_def)
  have e0: "enableReading 0 (put_chan 0 ?c0 ?s0) = Inr ?s1" "loop_wf ?s1"
    by (intro new_channel_enableReading [OF wf0]; simp)+
  have e1: "enableReading 1 (put_chan 1 ?c1 ?s1) = Inr (after_update 1 ?c1 kReadEvent (put_chan 1 ?c1 ?s1))"
    "loop_wf (after_update 1 ?c1 kReadEvent (put_chan 1 ?c1 ?s1))"
    using assms
    by (intro new_channel_enableReading [OF e0(2)]; simp add: after_update_def put_chan_def Channel_ctor_def)+
  have "EventLoop_ctor self tid timerfd evtfd = Inr (after_update 1 ?c1 kReadEvent (put_chan 1 ?c1 ?s1))"
    using e0(1) e1(1) assms(2) by (simp add: ctor_defs Let_def)
  with e1(2) assms(1) show ?thesis
    by (auto simp: after_update_def put_chan_def Channel_ctor_def next_op_def index_defs)
qed

text \<open>
  C15. A new loop listens on its timer descriptor and on its wake-up descriptor, and on nothing else;
  its state is well-formed. (The two descriptors the kernel returned are distinct.)
\<close>

theorem EventLoop_ctor_ok:
  assumes "timerfd \<noteq> evtfd" and "0 \<le> evtfd"
  shows "\<exists>s. EventLoop_ctor self tid timerfd evtfd = Inr s \<and> loop_wf s \<and> pendingFunctors s = [] \<and> \<not> quit s \<and>
    (\<forall>fd. registered (epoll_log s) fd =
      (if fd = timerfd then Some (kReadEvent, 0) else if fd = evtfd then Some (kReadEvent, wakeupChannel s) else None))"
  using EventLoop_ctor_eq [OF assms, of self tid] by blast

definition sample_loop :: loop where
  "sample_loop = (case EventLoop_ctor 7 3 4 5 of Inr s \<Rightarrow> s)"

lemma sample_loop_eq:
  "sample_loop =
     \<lparr>chans = [0 \<mapsto> (Channel_ctor 7 4)\<lparr>events := kReadEvent, index := kAdded, addedToLoop := True,
                       readCallback := Some TimerQueue_handleRead\<rparr>,
              1 \<mapsto> (Channel_ctor 7 5)\<lparr>events := kReadEvent, index := kAdded, addedToLoop := True,
                       readCallback := Some EventLoop_handleRead\<rparr>],
      channels = [4 \<mapsto> 0, 5 \<mapsto> 1], events_size = 16,
      epoll_log = [\<lparr>ec_op = EPOLL_CTL_ADD, ec_fd = 5, ec_events = kReadEvent, ec_ptr = 1\<rparr>,
                   \<lparr>ec_op = EPOLL_CTL_ADD, ec_fd = 4, ec_events = kReadEvent, ec_ptr = 0\<rparr>],
      loop_id = 7, threadId = 3, looping = False, callingPendingFunctors = False, quit = False,
      eventHandling = False, activeChannels = [], currentActiveChannel = None, pollReturnTime = 0,
      pendingFunctors = [], wakeupFd = 5, wakeupChannel = 1, wakeups = 0\<rparr>"
  by (simp add: sample_loop_def ctor_defs enableReading_def Channel_update_def upd_chan_def put_chan_def
      EventLoop_updateChannel_def EPollPoller_updateChannel_def set_index_def poller_update_def Channel_ctor_def
      index_defs Let_def kInitEventListSize_def)

theorem EventLoop_ctor_ok_witness:
  "(4 :: fd) \<noteq> 5 \<and> (0 :: fd) \<le> 5 \<and> EventLoop_ctor 7 3 4 5 = Inr sample_loop \<and> loop_wf sample_loop"
proof -
  have "\<exists>s. EventLoop_ctor 7 3 4 5 = Inr s \<and> loop_wf s"
    using EventLoop_ctor_ok [of 4 5 7 3] by auto
  then show ?thesis by (auto simp: sample_loop_def)
qed

lemma sample_loop_wf: "loop_wf sample_loop"
proof -
  have "wanted sample_loop fd = registered (epoll_log sample_loop) fd" for fd
    by (simp add: sample_loop_eq wanted_def)
  then show ?thesis
    by (auto simp: loop_wf_def poller_wf_def sample_loop_eq Channel_ctor_def channel_entry_ok_def split: if_splits)
qed

theorem channel_op_registers_witness:
  "\<exists>ch t. chans sample_loop 1 = Some ch \<and> fd_free sample_loop ch \<and>
     channel_op DisableAll 1 sample_loop = Inr t \<and> loop_wf t \<and> registered (epoll_log t) 5 = None \<and>
     registered (epoll_log t) 4 = Some (kReadEvent, 0)"
proof -
  obtain ch where ch: "chans sample_loop 1 = Some ch" and f: "fd_free sample_loop ch"
    and i: "index ch = kAdded" "ch_fd ch = 5"
    by (simp add: sample_loop_eq fd_free_def Channel_ctor_def)
  from channel_op_registers [OF sample_loop_wf ch f, of DisableAll] i ch f show ?thesis
    by (auto simp: sample_loop_eq)
qed

section \<open>Pending functors\<close>

lemma queueInLoop_pending [simp]:
  "pendingFunctors (queueInLoop tid cb s) = pendingFunctors s @ [cb]"
  by (simp add: queueInLoop_def queue_wake_def queue_push_def wakeup_def)

interpretation pending: work_queue pendingFunctors snd "\<lambda>(tid, cb). queueInLoop tid cb" pending_begin
  by unfold_locales (auto simp: pending_begin_def)

text \<open>
  Functors are neither lost, repeated nor reordered between calls of \<open>queueInLoop\<close> that do not overlap and the batches that \<open>doPendingFunctors\<close> takes: the
  batches in order, followed by what is still pending, are what was pending at first followed by what was queued. (For calls
  that overlap see \<open>Siren_Wakeup\<close>.)
\<close>

lemma pending_functors_in_order:
  "fst (wq_run (\<lambda>(tid, cb). queueInLoop tid cb) pending_begin ops s) @
   pendingFunctors (snd (wq_run (\<lambda>(tid, cb). queueInLoop tid cb) pending_begin ops s)) =
   pendingFunctors s @ wq_pushed snd ops"
  by (rule pending.run_in_order)

section \<open>Running the loop\<close>

text \<open>
  A \<open>quit()\<close> that comes before \<open>loop()\<close> is lost: \<open>loop()\<close> clears \<open>quit_\<close> when it starts,
  so it runs as if \<open>quit()\<close> had only written to the wake-up descriptor.
\<close>

theorem quit_before_loop_lost:
  "EventLoop_loop exec alive run as (EventLoop_quit tid s) =
   EventLoop_loop exec alive run as (if isInLoopThread tid s then s else wakeup s)"
  by (simp add: EventLoop_loop_def EventLoop_quit_def Let_def wakeup_def isInLoopThread_def)

end
