(* ===== verification/Siren_Wakeup.thy ===== *)
theory Siren_Wakeup
  imports Siren_EventLoop
begin

text \<open>
  \<open>EventLoop\<close> between its own thread and the others: \<open>loop()\<close>, \<open>doPendingFunctors()\<close>, \<open>queueInLoop()\<close> and
  \<open>quit()\<close> of \<open>src/net/EventLoop.cpp\<close> as interleaved steps.

  The loop's thread is at one point of \<open>loop()\<close>, a \<open>phase\<close>. \<open>queueInLoop()\<close> is three steps: the thread goes into
  \<open>push_back\<close> (\<open>pushing\<close>), the functor is stored, and then (\<open>queueing\<close>) the thread decides whether to write to the eventfd. \<open>quit()\<close> is two, the
  store and that decision (\<open>quitting\<close>). Steps of other threads are possible in between. The loop's own thread calls them from channel callbacks
  and functors only, and goes on in \<open>loop()\<close> when the call has returned. Channel callbacks and functors may change
  everything else of the state. \<open>epoll_wait\<close> may return at any time, with any channels, but reports the
  wake-up channel only when the eventfd was written.

  \<open>queueInLoop()\<close> holds no lock during \<open>push_back\<close>: the statement that should take \<open>mutex_\<close> declares a new lock of
  that name, which locks nothing. When a thread goes into \<open>push_back\<close> while another is in it, or the loop swaps the vector while a thread is in it, the state is
  marked as \<open>raced\<close>, and from then on every step is possible.

  \<open>loop()\<close> may start with functors in the vector, \<open>early\<close>: its own thread may call \<open>queueInLoop()\<close> before \<open>loop()\<close>, which writes no eventfd. \<open>polled\<close> says
  whether \<open>epoll_wait\<close> has returned at least once.
\<close>

section \<open>States and steps\<close>

datatype loop_phase =
    Ph_Test
  | Ph_Poll
  | Ph_Handle "chan list"
  | Ph_Swap
  | Ph_Call "closure option list"
  | Ph_Exit

record loop_sys =
  el :: loop
  phase :: loop_phase
  pushing :: "nat set"
  queueing :: "nat set"
  quitting :: "nat set"
  early :: "closure option list"
  polled :: bool
  raced :: bool

definition quit_set :: "'m loop_scheme \<Rightarrow> 'm loop_scheme" where
  "quit_set s = s\<lparr>quit := True\<rparr>"

definition quit_wake :: "nat \<Rightarrow> 'm loop_scheme \<Rightarrow> 'm loop_scheme" where
  "quit_wake tid s = (if \<not> isInLoopThread tid s then wakeup s else s)"

lemma EventLoop_quit_steps: "EventLoop_quit tid s = quit_wake tid (quit_set s)"
  by (simp add: EventLoop_quit_def quit_wake_def quit_set_def Let_def)

text \<open>The part of the state the wake-up protocol is about.\<close>

definition wake_view :: "'m loop_scheme \<Rightarrow> nat \<times> bool \<times> bool \<times> closure option list \<times> nat" where
  "wake_view s = (threadId s, callingPendingFunctors s, quit s, pendingFunctors s, wakeups s)"

definition user_code :: "loop_phase \<Rightarrow> bool" where
  "user_code p = (case p of Ph_Handle _ \<Rightarrow> True | Ph_Call _ \<Rightarrow> True | _ \<Rightarrow> False)"

definition in_loop :: "loop_sys \<Rightarrow> bool" where
  "in_loop w \<longleftrightarrow> threadId (el w) \<notin> pushing w \<and> threadId (el w) \<notin> queueing w \<and> threadId (el w) \<notin> quitting w"

definition may_call :: "nat \<Rightarrow> loop_sys \<Rightarrow> bool" where
  "may_call tid w \<longleftrightarrow> tid \<notin> pushing w \<and> tid \<notin> queueing w \<and> tid \<notin> quitting w \<and> (isInLoopThread tid (el w) \<longrightarrow> user_code (phase w))"

inductive loop_step :: "loop_sys \<Rightarrow> loop_sys \<Rightarrow> bool" where
  at_exit: "phase w = Ph_Test \<Longrightarrow> in_loop w \<Longrightarrow> quit (el w) \<Longrightarrow>
    loop_step w (w\<lparr>phase := Ph_Exit, el := (el w)\<lparr>looping := False\<rparr>\<rparr>)"
| at_test: "phase w = Ph_Test \<Longrightarrow> in_loop w \<Longrightarrow> \<not> quit (el w) \<Longrightarrow> loop_step w (w\<lparr>phase := Ph_Poll\<rparr>)"
| at_poll: "phase w = Ph_Poll \<Longrightarrow> in_loop w \<Longrightarrow>
    EPollPoller_poll answer ((el w)\<lparr>activeChannels := []\<rparr>) = Inr (active, s) \<Longrightarrow>
    wakeupChannel (el w) \<in> set active \<longrightarrow> 0 < wakeups (el w) \<Longrightarrow>
    loop_step w (w\<lparr>phase := Ph_Handle active, polled := True,
      el := s\<lparr>activeChannels := active, pollReturnTime := time, eventHandling := True\<rparr>\<rparr>)"
| at_wakeup_channel: "phase w = Ph_Handle (c # cs) \<Longrightarrow> in_loop w \<Longrightarrow> c = wakeupChannel (el w) \<Longrightarrow>
    loop_step w (w\<lparr>phase := Ph_Handle cs, el := EventLoop_handleRead_op (el w)\<rparr>)"
| at_channel: "phase w = Ph_Handle (c # cs) \<Longrightarrow> in_loop w \<Longrightarrow> wake_view s = wake_view (el w) \<Longrightarrow>
    loop_step w (w\<lparr>phase := Ph_Handle cs, el := s\<rparr>)"
| at_handled: "phase w = Ph_Handle [] \<Longrightarrow> in_loop w \<Longrightarrow>
    loop_step w (w\<lparr>phase := Ph_Swap,
      el := (el w)\<lparr>currentActiveChannel := None, eventHandling := False, callingPendingFunctors := True\<rparr>\<rparr>)"
| at_swap: "phase w = Ph_Swap \<Longrightarrow> in_loop w \<Longrightarrow> pending_begin (el w) = (fs, s) \<Longrightarrow>
    loop_step w (w\<lparr>phase := Ph_Call fs, el := s, raced := raced w \<or> pushing w \<noteq> {}\<rparr>)"
| at_call: "phase w = Ph_Call (f # fs) \<Longrightarrow> in_loop w \<Longrightarrow> wake_view s = wake_view (el w) \<Longrightarrow>
    loop_step w (w\<lparr>phase := Ph_Call fs, el := s\<rparr>)"
| at_called: "phase w = Ph_Call [] \<Longrightarrow> in_loop w \<Longrightarrow>
    loop_step w (w\<lparr>phase := Ph_Test, el := pending_end (el w)\<rparr>)"
| push_begin: "may_call tid w \<Longrightarrow>
    loop_step w (w\<lparr>pushing := insert tid (pushing w), raced := raced w \<or> pushing w \<noteq> {}\<rparr>)"
| push: "tid \<in> pushing w \<Longrightarrow>
    loop_step w (w\<lparr>el := queue_push cb (el w), pushing := pushing w - {tid}, queueing := insert tid (queueing w)\<rparr>)"
| push_wake: "tid \<in> queueing w \<Longrightarrow>
    loop_step w (w\<lparr>el := queue_wake tid (el w), queueing := queueing w - {tid}\<rparr>)"
| set_quit: "may_call tid w \<Longrightarrow>
    loop_step w (w\<lparr>el := quit_set (el w), quitting := insert tid (quitting w)\<rparr>)"
| set_quit_wake: "tid \<in> quitting w \<Longrightarrow>
    loop_step w (w\<lparr>el := quit_wake tid (el w), quitting := quitting w - {tid}\<rparr>)"
| torn: "raced w \<Longrightarrow> raced w' \<Longrightarrow> loop_step w w'"

text \<open>\<open>loop()\<close> has just started.\<close>

definition loop_start :: "loop_sys \<Rightarrow> bool" where
  "loop_start w \<longleftrightarrow> phase w = Ph_Test \<and> pushing w = {} \<and> queueing w = {} \<and> quitting w = {} \<and> early w = pendingFunctors (el w) \<and>
     \<not> polled w \<and> \<not> raced w \<and> \<not> quit (el w) \<and> \<not> callingPendingFunctors (el w)"

section \<open>The invariant\<close>

definition calling :: "loop_phase \<Rightarrow> bool" where
  "calling p = (case p of Ph_Swap \<Rightarrow> True | Ph_Call _ \<Rightarrow> True | _ \<Rightarrow> False)"

definition must_be_woken :: "loop_phase \<Rightarrow> bool" where
  "must_be_woken p = (case p of Ph_Test \<Rightarrow> True | Ph_Poll \<Rightarrow> True | Ph_Call _ \<Rightarrow> True | _ \<Rightarrow> False)"

text \<open>Nothing has been queued since \<open>loop()\<close> was called, and it has not yet got past its first \<open>epoll_wait\<close>.\<close>

definition only_early :: "loop_sys \<Rightarrow> bool" where
  "only_early w \<longleftrightarrow> \<not> polled w \<and> (phase w = Ph_Test \<or> phase w = Ph_Poll) \<and> pendingFunctors (el w) = early w"

definition wake_inv :: "loop_sys \<Rightarrow> bool" where
  "wake_inv w \<longleftrightarrow>
     callingPendingFunctors (el w) = calling (phase w) \<and>
     (in_loop w \<or> user_code (phase w)) \<and>
     (must_be_woken (phase w) \<and> pendingFunctors (el w) \<noteq> [] \<longrightarrow> 0 < wakeups (el w) \<or> queueing w \<noteq> {} \<or> only_early w) \<and>
     (phase w = Ph_Poll \<and> quit (el w) \<longrightarrow> 0 < wakeups (el w) \<or> quitting w \<noteq> {})"

lemmas phase_defs = calling_def must_be_woken_def user_code_def only_early_def
lemmas wake_defs = in_loop_def may_call_def isInLoopThread_def queue_push_def queue_wake_def quit_set_def
  quit_wake_def wakeup_def EventLoop_handleRead_op_def pending_begin_def pending_end_def

lemma wake_viewD:
  "wake_view s = wake_view t \<Longrightarrow> threadId s = threadId t \<and> callingPendingFunctors s = callingPendingFunctors t \<and>
     quit s = quit t \<and> pendingFunctors s = pendingFunctors t \<and> wakeups s = wakeups t"
  by (simp add: wake_view_def)

lemma wake_view_put_chan [simp]: "wake_view (put_chan c ch s) = wake_view s"
  by (simp add: wake_view_def put_chan_def)

lemma wake_fill_frame:
  "fillActiveChannels evs s = Inr (active, t) \<Longrightarrow> wake_view t = wake_view s"
  by (induction evs arbitrary: s active)
    (fastforce simp: rbind_eq_Inr upd_chan_def with_chan_def split: option.splits prod.splits)+

lemma wake_poll_frame: "EPollPoller_poll answer s = Inr (active, t) \<Longrightarrow> wake_view t = wake_view s"
  by (auto simp: EPollPoller_poll_def rbind_eq_Inr dest!: wake_fill_frame
      split: sum.splits if_splits) (simp_all add: wake_view_def)

lemma wake_inv_start: "loop_start w \<Longrightarrow> wake_inv w"
  by (simp add: loop_start_def wake_inv_def phase_defs in_loop_def)

lemma wake_inv_step:
  assumes "loop_step w v" and inv: "wake_inv w"
  shows "raced v \<or> wake_inv v"
  using assms(1)
proof cases
  case (at_poll answer active s time)
  with wake_viewD [OF wake_poll_frame [OF at_poll(4)]] inv show ?thesis
    by (simp add: wake_inv_def phase_defs in_loop_def)
next
  case (at_channel c cs s)
  with wake_viewD [OF at_channel(4)] inv show ?thesis by (simp add: wake_inv_def phase_defs in_loop_def)
next
  case (at_call f fs s)
  with wake_viewD [OF at_call(4)] inv show ?thesis by (simp add: wake_inv_def phase_defs in_loop_def)
next
  case (at_swap fs s)
  with inv show ?thesis by (auto simp: wake_inv_def wake_defs phase_defs)
next
  case (push_begin tid)
  with inv show ?thesis
    by (auto simp: wake_inv_def wake_defs phase_defs split: loop_phase.splits)
next
  case (push tid cb)
  with inv show ?thesis
    by (auto simp: wake_inv_def wake_defs phase_defs split: loop_phase.splits)
next
  case (push_wake tid)
  with inv show ?thesis
    by (auto simp: wake_inv_def wake_defs phase_defs split: loop_phase.splits if_splits)
next
  case (set_quit tid)
  with inv show ?thesis
    by (auto simp: wake_inv_def wake_defs phase_defs split: loop_phase.splits)
next
  case (set_quit_wake tid)
  with inv show ?thesis
    by (auto simp: wake_inv_def wake_defs phase_defs split: loop_phase.splits if_splits)
qed (use inv in \<open>auto simp: wake_inv_def wake_defs phase_defs\<close>)

lemma raced_step: "loop_step w v \<Longrightarrow> raced w \<Longrightarrow> raced v"
  by (erule loop_step.cases) simp_all

interpretation loop_wake: inductive_invariant loop_start loop_step "\<lambda>w. raced w \<or> wake_inv w"
  by unfold_locales (auto intro: wake_inv_start dest: wake_inv_step raced_step)

section \<open>Properties\<close>

text \<open>
  C10. No wake-up is lost. However the loop and the threads that call \<open>queueInLoop()\<close> and \<open>quit()\<close> interleave, as long as no two of them have been at the
  unlocked \<open>pendingFunctors_\<close> at once: whenever the loop is in \<open>epoll_wait\<close> while functors are pending or \<open>quit_\<close> is set, the eventfd has
  been written, so that \<open>epoll_wait\<close> returns, or another thread is just about to write it, or the loop is in its first \<open>epoll_wait\<close> and
  the functors are those that were queued before \<open>loop()\<close> was called.
\<close>

theorem no_lost_wakeup:
  assumes "reachable_from loop_start loop_step w" and "\<not> raced w" and "phase w = Ph_Poll"
    and "pendingFunctors (el w) \<noteq> [] \<or> quit (el w)"
  shows "0 < wakeups (el w) \<or>
    (\<exists>tid. \<not> isInLoopThread tid (el w) \<and>
       (tid \<in> queueing w \<and> 0 < wakeups (queue_wake tid (el w)) \<or>
        tid \<in> quitting w \<and> 0 < wakeups (quit_wake tid (el w)))) \<or>
    \<not> polled w \<and> \<not> quit (el w) \<and> pendingFunctors (el w) = early w"
proof -
  have inv: "wake_inv w" using loop_wake.reachable_inv [OF assms(1)] assms(2) by simp
  then have "in_loop w" using assms(3) by (simp add: wake_inv_def user_code_def)
  then have woken: "\<not> isInLoopThread tid (el w) \<and> 0 < wakeups (queue_wake tid (el w))" if "tid \<in> queueing w" for tid
    using that by (auto simp: wake_defs)
  from \<open>in_loop w\<close> have told: "\<not> isInLoopThread tid (el w) \<and> 0 < wakeups (quit_wake tid (el w))" if "tid \<in> quitting w" for tid
    using that by (auto simp: wake_defs)
  consider "0 < wakeups (el w)" | "queueing w \<noteq> {}" | "quitting w \<noteq> {}" | "only_early w" "\<not> quit (el w)"
    using inv assms(3,4) by (auto simp: wake_inv_def must_be_woken_def)
  then show ?thesis
  proof cases
    case 4
    then show ?thesis by (simp add: only_early_def)
  qed (use woken told in blast)+
qed

text \<open>
  The last case happens: a functor that the loop's own thread queues before it calls \<open>loop()\<close> leaves the eventfd unwritten, and the loop
  goes into \<open>epoll_wait\<close> with the functor pending and nothing to wake it.
\<close>

lemma early_functor_waits:
  assumes "\<not> callingPendingFunctors s" and "\<not> quit s" and "wakeups s = 0"
  shows "\<exists>w. reachable_from loop_start loop_step w \<and> \<not> raced w \<and> phase w = Ph_Poll \<and> el w = queueInLoop (threadId s) cb s \<and>
    pendingFunctors (el w) \<noteq> [] \<and> wakeups (el w) = 0 \<and> queueing w = {} \<and> quitting w = {}"
proof -
  let ?s = "queueInLoop (threadId s) cb s"
  let ?w = "\<lparr>el = ?s, phase = Ph_Test, pushing = {}, queueing = {}, quitting = {}, early = pendingFunctors ?s, polled = False, raced = False\<rparr>"
  have s: "\<not> callingPendingFunctors ?s" "\<not> quit ?s" "wakeups ?s = 0" "pendingFunctors ?s \<noteq> []"
    using assms by (simp_all add: queueInLoop_def queue_push_def queue_wake_def isInLoopThread_def)
  have "reachable_from loop_start loop_step ?w" using s by (intro reach_init) (simp add: loop_start_def)
  moreover have "loop_step ?w (?w\<lparr>phase := Ph_Poll\<rparr>)" using s by (intro at_test) (simp_all add: in_loop_def)
  ultimately have "reachable_from loop_start loop_step (?w\<lparr>phase := Ph_Poll\<rparr>)" by (rule reach_step)
  then show ?thesis using s by (intro exI [of _ "?w\<lparr>phase := Ph_Poll\<rparr>"]) simp
qed

text \<open>Two threads that call \<open>queueInLoop()\<close> can both be in \<open>push_back\<close>, from any state in which both may call it.\<close>

lemma pushes_race:
  assumes "may_call a w" and "may_call b w" and "a \<noteq> b"
  shows "\<exists>u v. loop_step w u \<and> loop_step u v \<and> raced v \<and> el v = el w"
proof -
  let ?u = "w\<lparr>pushing := insert a (pushing w), raced := raced w \<or> pushing w \<noteq> {}\<rparr>"
  have "may_call b ?u" using assms(2,3) by (simp add: may_call_def)
  from push_begin [OF this] push_begin [OF assms(1)] show ?thesis by (intro exI conjI) (assumption, assumption, simp_all)
qed

definition sample_loop_sys :: loop_sys where
  "sample_loop_sys = \<lparr>el = sample_loop, phase = Ph_Test, pushing = {}, queueing = {}, quitting = {}, early = [], polled = False, raced = False\<rparr>"

definition pushed_loop_sys :: loop_sys where
  "pushed_loop_sys = sample_loop_sys\<lparr>phase := Ph_Poll, el := queue_push (Some (Fn_user 1)) sample_loop, queueing := {9}\<rparr>"

lemma pushed_loop_sys_reachable: "reachable_from loop_start loop_step pushed_loop_sys"
proof -
  have start: "reachable_from loop_start loop_step sample_loop_sys"
    by (rule reach_init) (simp add: loop_start_def sample_loop_sys_def sample_loop_eq)
  have "loop_step sample_loop_sys (sample_loop_sys\<lparr>phase := Ph_Poll\<rparr>)"
    by (rule at_test) (simp_all add: sample_loop_sys_def in_loop_def sample_loop_eq)
  from reach_step [OF start this]
  have poll: "reachable_from loop_start loop_step (sample_loop_sys\<lparr>phase := Ph_Poll\<rparr>)" .
  have "may_call 9 (sample_loop_sys\<lparr>phase := Ph_Poll\<rparr>)"
    by (simp add: may_call_def sample_loop_sys_def isInLoopThread_def sample_loop_eq)
  from reach_step [OF poll push_begin [OF this]]
  have "reachable_from loop_start loop_step (sample_loop_sys\<lparr>phase := Ph_Poll, pushing := {9}\<rparr>)"
    by (simp add: sample_loop_sys_def)
  from reach_step [OF this push [of 9 _ "Some (Fn_user 1)"]] show ?thesis
    by (simp add: sample_loop_sys_def pushed_loop_sys_def)
qed

theorem no_lost_wakeup_witness:
  "\<exists>w. reachable_from loop_start loop_step w \<and> \<not> raced w \<and> phase w = Ph_Poll \<and> pendingFunctors (el w) = [Some (Fn_user 1)] \<and>
     (\<exists>tid. \<not> isInLoopThread tid (el w) \<and> tid \<in> queueing w \<and> 0 < wakeups (queue_wake tid (el w)))"
proof -
  let ?w = pushed_loop_sys
  have w: "pendingFunctors (el ?w) = [Some (Fn_user 1)]" "wakeups (el ?w) = 0" "quitting ?w = {}" "phase ?w = Ph_Poll" "\<not> raced ?w" "early ?w = []"
    by (simp_all add: pushed_loop_sys_def sample_loop_sys_def queue_push_def sample_loop_eq)
  from no_lost_wakeup [OF pushed_loop_sys_reachable w(5,4)] w
  have "\<exists>tid. \<not> isInLoopThread tid (el ?w) \<and> tid \<in> queueing ?w \<and> 0 < wakeups (queue_wake tid (el ?w))" by simp
  then show ?thesis using pushed_loop_sys_reachable w by blast
qed

end
