(* ===== verification/Siren_Buffer.thy ===== *)
theory Siren_Buffer
  imports Siren_Prelude
begin

text \<open>
  The byte buffer of \<open>include/siren/net/Buffer.h\<close> and \<open>src/net/Buffer.cpp\<close>: one
  \<open>std::vector<char>\<close> with a reader and a writer index,

  \<^verbatim>\<open>
    +-------------------+------------------+------------------+
    | prependable bytes |  readable bytes  |  writable bytes  |
    0      <=      readerIndex   <=   writerIndex    <=     size
  \<close>

  The record keeps the three members (a member \<open>x_\<close> of a class is the field \<open>x\<close>); indices are \<open>size_t\<close> words, so every sum and
  difference wraps as in the code, and \<open>retrieve\<close> keeps its \<open>int\<close> parameter with the
  conversions the compiler inserts. An operation that copies through a pointer checks the
  bounds of the vector and faults outside them. \<open>readv\<close> is the system call, an argument of
  \<open>readFd\<close>: given the descriptor and the lengths of the iovec entries it answers an errno or
  the bytes it stored, first entry first.

  The lemmas show that under the index invariant \<open>buf_wf\<close> the operations are those of a
  first-in first-out byte sequence, the readable bytes \<open>contents\<close>; the locale \<open>byte_fifo\<close>
  states that contract for the clients of a buffer.
\<close>

section \<open>Data\<close>

record Buffer =
  buffer :: "byte list"
  readerIndex :: size_t
  writerIndex :: size_t

definition kCheapPrepend :: size_t where
  "kCheapPrepend = 8"

definition kInitialSize :: size_t where
  "kInitialSize = 1024"

text \<open>\<open>std::vector<char>\<close>: its size, its \<open>max_size()\<close> (\<open>PTRDIFF_MAX\<close>) and \<open>resize\<close>.\<close>

definition vec_size :: "Buffer \<Rightarrow> size_t" where
  "vec_size b = of_nat (length (buffer b))"

definition vec_max_size :: size_t where
  "vec_max_size = 0x7FFFFFFFFFFFFFFF"

definition vec_resize :: "size_t \<Rightarrow> byte list \<Rightarrow> byte list result" where
  "vec_resize n xs =
     (if vec_max_size < n then Inl Length_error
      else Inr (take (unat n) xs @ replicate (unat n - length xs) 0))"

text \<open>Reading and writing memory of the vector through a pointer into it.\<close>

definition load_at :: "nat \<Rightarrow> nat \<Rightarrow> Buffer \<Rightarrow> byte list result" where
  "load_at off len b =
     (if off + len \<le> length (buffer b) then Inr (take len (drop off (buffer b)))
      else Inl Out_of_bounds)"

definition store_at :: "nat \<Rightarrow> byte list \<Rightarrow> Buffer \<Rightarrow> Buffer result" where
  "store_at off data b =
     (if off + length data \<le> length (buffer b)
      then Inr (b\<lparr>buffer := overwrite (buffer b) off data\<rparr>)
      else Inl Out_of_bounds)"

section \<open>Operations\<close>

definition readableBytes :: "Buffer \<Rightarrow> size_t" where
  "readableBytes b = writerIndex b - readerIndex b"

definition writableBytes :: "Buffer \<Rightarrow> size_t" where
  "writableBytes b = vec_size b - writerIndex b"

definition prependableBytes :: "Buffer \<Rightarrow> size_t" where
  "prependableBytes b = readerIndex b"

definition Buffer_ctor :: "size_t \<Rightarrow> Buffer result" where
  "Buffer_ctor initialSize =
     rbind (vec_resize (kCheapPrepend + initialSize) []) (\<lambda>v.
       let b = \<lparr>buffer = v, readerIndex = kCheapPrepend, writerIndex = kCheapPrepend\<rparr> in
       if readableBytes b \<noteq> 0 then Inl (Assert_failed ''readableBytes() == 0'')
       else if writableBytes b \<noteq> initialSize then Inl (Assert_failed ''writableBytes() == initialSize'')
       else if prependableBytes b \<noteq> kCheapPrepend
         then Inl (Assert_failed ''prependableBytes() == kCheapPrepend'')
       else Inr b)"

definition swap_buffers :: "Buffer \<Rightarrow> Buffer \<Rightarrow> Buffer \<times> Buffer" where
  "swap_buffers b rhs =
     (b\<lparr>buffer := buffer rhs, readerIndex := readerIndex rhs, writerIndex := writerIndex rhs\<rparr>,
      rhs\<lparr>buffer := buffer b, readerIndex := readerIndex b, writerIndex := writerIndex b\<rparr>)"

text \<open>\<open>len\<close> bytes read through the pointer that \<open>peek()\<close> returns.\<close>

definition peek_bytes :: "nat \<Rightarrow> Buffer \<Rightarrow> byte list result" where
  "peek_bytes len b = load_at (unat (readerIndex b)) len b"

definition retrieveAll :: "Buffer \<Rightarrow> Buffer" where
  "retrieveAll b = b\<lparr>readerIndex := kCheapPrepend, writerIndex := kCheapPrepend\<rparr>"

definition retrieve :: "cint \<Rightarrow> Buffer \<Rightarrow> Buffer" where
  "retrieve len b =
     (if (scast len :: size_t) < readableBytes b
      then b\<lparr>readerIndex := readerIndex b + scast len\<rparr>
      else retrieveAll b)"

definition retrieveAsString :: "size_t \<Rightarrow> Buffer \<Rightarrow> (byte list \<times> Buffer) result" where
  "retrieveAsString len b =
     (if len \<le> readableBytes b
      then rbind (peek_bytes (unat len) b) (\<lambda>result. Inr (result, retrieve (ucast len) b))
      else Inl (Assert_failed ''len <= readableBytes()''))"

definition retrieveAllAsString :: "Buffer \<Rightarrow> (byte list \<times> Buffer) result" where
  "retrieveAllAsString b = retrieveAsString (readableBytes b) b"

definition hasWritten :: "size_t \<Rightarrow> Buffer \<Rightarrow> Buffer result" where
  "hasWritten len b =
     (if len \<le> writableBytes b then Inr (b\<lparr>writerIndex := writerIndex b + len\<rparr>)
      else Inl (Assert_failed ''len <= writableBytes()''))"

definition makeSpace :: "size_t \<Rightarrow> Buffer \<Rightarrow> Buffer result" where
  "makeSpace len b =
     (if writableBytes b + prependableBytes b < len + kCheapPrepend
      then rbind (vec_resize (writerIndex b + len) (buffer b)) (\<lambda>v. Inr (b\<lparr>buffer := v\<rparr>))
      else if \<not> kCheapPrepend < readerIndex b
      then Inl (Assert_failed ''kCheapPrepend < readerIndex'')
      else if \<not> (readerIndex b \<le> writerIndex b \<and> unat (writerIndex b) \<le> length (buffer b))
      then Inl Out_of_bounds
      else
        let readable = readableBytes b;
            b' = b\<lparr>buffer := copy_within (buffer b) (unat (readerIndex b)) (unat readable)
                                (unat kCheapPrepend),
                   readerIndex := kCheapPrepend,
                   writerIndex := kCheapPrepend + readable\<rparr>
        in if readable = readableBytes b' then Inr b'
           else Inl (Assert_failed ''readable == readableBytes()''))"

definition ensureWritableBytes :: "size_t \<Rightarrow> Buffer \<Rightarrow> Buffer result" where
  "ensureWritableBytes len b =
     rbind (if writableBytes b < len then makeSpace len b else Inr b) (\<lambda>b'.
       if len \<le> writableBytes b' then Inr b'
       else Inl (Assert_failed ''writableBytes() >= len''))"

definition append_data :: "byte list \<Rightarrow> Buffer \<Rightarrow> Buffer result" where
  "append_data data b =
     (let len = of_nat (length data) in
      rbind (ensureWritableBytes len b) (\<lambda>b1.
      rbind (store_at (unat (writerIndex b1)) data b1) (\<lambda>b2.
      hasWritten len b2)))"

definition prepend :: "byte list \<Rightarrow> Buffer \<Rightarrow> Buffer result" where
  "prepend data b =
     (let len = of_nat (length data) in
      if len \<le> prependableBytes b
      then let b1 = b\<lparr>readerIndex := readerIndex b - len\<rparr>
           in store_at (unat (readerIndex b1)) data b1
      else Inl (Assert_failed ''len <= prependableBytes()''))"

definition readFd_iov :: "Buffer \<Rightarrow> size_t list" where
  "readFd_iov b = (if writableBytes b < 65536 then [writableBytes b, 65536] else [writableBytes b])"

definition readFd :: "(fd \<Rightarrow> size_t list \<Rightarrow> errno + byte list) \<Rightarrow> fd \<Rightarrow> Buffer \<Rightarrow> (int \<times> Buffer) result" where
  "readFd readv fd b =
     (let writable = writableBytes b
      in case readv fd (readFd_iov b) of
           Inl err \<Rightarrow> Inr (- 1, b)
         | Inr got \<Rightarrow>
             let n = length got in
             if (of_nat n :: size_t) \<le> writable
             then rbind (store_at (unat (writerIndex b)) got b) (\<lambda>b'.
                    Inr (int n, b'\<lparr>writerIndex := writerIndex b' + of_nat n\<rparr>))
             else rbind (store_at (unat (writerIndex b)) (take (unat writable) got) b) (\<lambda>b1.
                  rbind (append_data (drop (unat writable) got) (b1\<lparr>writerIndex := vec_size b1\<rparr>)) (\<lambda>b2.
                    Inr (int n, b2))))"

text \<open>
  What readv(2) documents: it stores at most as many bytes as the iovec entries hold, which
  is at most \<open>SSIZE_MAX\<close>.
\<close>

definition readv_documented :: "(fd \<Rightarrow> size_t list \<Rightarrow> errno + byte list) \<Rightarrow> bool" where
  "readv_documented readv \<longleftrightarrow>
     (\<forall>fd vec got. readv fd vec = Inr got \<longrightarrow> length got \<le> sum_list (map unat vec) \<and> length got < 2 ^ 63)"

section \<open>Invariant and abstraction\<close>

definition buf_wf :: "Buffer \<Rightarrow> bool" where
  "buf_wf b \<longleftrightarrow>
     readerIndex b \<le> writerIndex b \<and> unat (writerIndex b) \<le> length (buffer b) \<and>
     8 \<le> length (buffer b) \<and> length (buffer b) < 2 ^ 63"

definition contents :: "Buffer \<Rightarrow> byte list" where
  "contents b = take (unat (readableBytes b)) (drop (unat (readerIndex b)) (buffer b))"

section \<open>A first-in first-out byte sequence as an interface\<close>

datatype 'a fifo_op = Put "'a list" | Consume nat

text \<open>
  A run of a buffer by its client: bytes are put at the end, and a number of them is taken from
  the front after having been read. The run collects the bytes taken.
\<close>

fun fifo_run :: "('b \<Rightarrow> 'a list) \<Rightarrow> ('a list \<Rightarrow> 'b \<Rightarrow> 'b result) \<Rightarrow> (nat \<Rightarrow> 'b \<Rightarrow> 'b) \<Rightarrow>
    'a fifo_op list \<Rightarrow> 'b \<Rightarrow> ('a list \<times> 'b) result" where
  "fifo_run seq_of put consume [] b = Inr ([], b)"
| "fifo_run seq_of put consume (Put d # ops) b = rbind (put d b) (fifo_run seq_of put consume ops)"
| "fifo_run seq_of put consume (Consume n # ops) b =
     rbind (fifo_run seq_of put consume ops (consume n b)) (\<lambda>(out, b'). Inr (take n (seq_of b) @ out, b'))"

fun fifo_puts :: "'a fifo_op list \<Rightarrow> 'a list" where
  "fifo_puts [] = []"
| "fifo_puts (Put d # ops) = d @ fifo_puts ops"
| "fifo_puts (Consume n # ops) = fifo_puts ops"

fun fifo_op_ok :: "'a fifo_op \<Rightarrow> bool" where
  "fifo_op_ok (Put d) = (length d < 2 ^ 63)"
| "fifo_op_ok (Consume n) = (n < 2 ^ 31)"

locale byte_fifo =
  fixes wf :: "'b \<Rightarrow> bool"
    and seq_of :: "'b \<Rightarrow> 'a list"
    and put :: "'a list \<Rightarrow> 'b \<Rightarrow> 'b result"
    and consume :: "nat \<Rightarrow> 'b \<Rightarrow> 'b"
  assumes put_abs: "wf b \<Longrightarrow> length d < 2 ^ 63 \<Longrightarrow> put d b = Inr b' \<Longrightarrow> wf b' \<and> seq_of b' = seq_of b @ d"
    and put_fault: "wf b \<Longrightarrow> length d < 2 ^ 63 \<Longrightarrow> put d b = Inl e \<Longrightarrow> e = Length_error"
    and consume_abs: "wf b \<Longrightarrow> n < 2 ^ 31 \<Longrightarrow> wf (consume n b) \<and> seq_of (consume n b) = drop n (seq_of b)"
begin

lemma fifo_run_stream:
  assumes "wf b" and "list_all fifo_op_ok ops" and "fifo_run seq_of put consume ops b = Inr (out, b')"
  shows "wf b' \<and> out @ seq_of b' = seq_of b @ fifo_puts ops"
  using assms
proof (induction ops arbitrary: b out)
  case Nil
  then show ?case by simp
next
  case (Cons op ops)
  show ?case
  proof (cases op)
    case (Put d)
    with Cons.prems obtain b1 where "put d b = Inr b1" and "fifo_run seq_of put consume ops b1 = Inr (out, b')"
      by (auto simp: rbind_eq_Inr)
    with Cons.IH [of b1 out] Cons.prems Put put_abs [of b d b1] show ?thesis by simp
  next
    case (Consume n)
    with Cons.prems obtain out1 where "fifo_run seq_of put consume ops (consume n b) = Inr (out1, b')"
      and "out = take n (seq_of b) @ out1"
      by (auto simp: rbind_eq_Inr)
    with Cons.IH [of "consume n b" out1] Cons.prems Consume consume_abs [of b n] show ?thesis by simp
  qed
qed

end

section \<open>Sizes under the invariant\<close>

lemma unat_vec_size [simp]: "buf_wf b \<Longrightarrow> unat (vec_size b) = length (buffer b)"
  by (simp add: buf_wf_def vec_size_def size_simps)

lemma buf_wfD:
  assumes "buf_wf b"
  shows "readerIndex b \<le> writerIndex b" and "writerIndex b \<le> vec_size b"
    and "unat (readerIndex b) \<le> unat (writerIndex b)"
    and "unat (writerIndex b) \<le> length (buffer b)"
    and "8 \<le> length (buffer b)" and "length (buffer b) < 2 ^ 63"
  using assms unat_vec_size [OF assms] by (auto simp: buf_wf_def word_le_nat_alt)

lemma unat_readableBytes [simp]:
  "buf_wf b \<Longrightarrow> unat (readableBytes b) = unat (writerIndex b) - unat (readerIndex b)"
  by (simp add: readableBytes_def size_simps buf_wfD)

lemma unat_writableBytes [simp]:
  "buf_wf b \<Longrightarrow> unat (writableBytes b) = length (buffer b) - unat (writerIndex b)"
  by (simp add: writableBytes_def size_simps buf_wfD)

lemma unat_kCheapPrepend [simp]: "unat kCheapPrepend = 8"
  by (simp add: kCheapPrepend_def)

lemma unat_vec_max_size [simp]: "unat vec_max_size = 2 ^ 63 - 1"
  by (simp add: vec_max_size_def)

lemma length_contents [simp]: "buf_wf b \<Longrightarrow> length (contents b) = unat (readableBytes b)"
  using buf_wfD [of b] by (simp add: contents_def)

lemma contents_eq:
  "buf_wf b \<Longrightarrow> contents b =
     take (unat (writerIndex b) - unat (readerIndex b)) (drop (unat (readerIndex b)) (buffer b))"
  by (simp add: contents_def)

lemma contents_bound: "buf_wf b \<Longrightarrow> length (contents b) < 2 ^ 63"
  using buf_wfD [of b] by simp

lemma contents_empty_iff: "buf_wf b \<Longrightarrow> contents b = [] \<longleftrightarrow> readableBytes b = 0"
  by (metis length_0_conv length_contents unat_eq_zero)

lemma size_le_iff: "(a :: size_t) \<le> b \<longleftrightarrow> unat a \<le> unat b"
  by (simp add: word_le_nat_alt)

lemma size_less_iff: "(a :: size_t) < b \<longleftrightarrow> unat a < unat b"
  by (simp add: word_less_nat_alt)

section \<open>The constructor and retrieval\<close>

lemma Buffer_ctor_ok:
  assumes "unat n + 8 < 2 ^ 63"
  obtains b where "Buffer_ctor n = Inr b" "buf_wf b" "contents b = []"
    "unat (writableBytes b) = unat n" "prependableBytes b = kCheapPrepend"
proof -
  let ?b = "\<lparr>buffer = replicate (8 + unat n) 0, readerIndex = kCheapPrepend, writerIndex = kCheapPrepend\<rparr>"
  have n: "unat (kCheapPrepend + n) = 8 + unat n"
    using assms by (subst unat_add_bound) simp_all
  then have res: "vec_resize (kCheapPrepend + n) [] = Inr (replicate (8 + unat n) 0)"
    using assms by (simp add: vec_resize_def size_less_iff)
  have wf: "buf_wf ?b"
    using assms by (simp add: buf_wf_def)
  have w: "unat (writableBytes ?b) = unat n"
    using unat_writableBytes [OF wf] by simp
  then have w': "writableBytes ?b = n"
    by (rule word_unat_eq_iff [THEN iffD2])
  have r: "readableBytes ?b = 0"
    by (simp add: readableBytes_def)
  show ?thesis
  proof (rule that)
    show "Buffer_ctor n = Inr ?b"
      by (simp add: Buffer_ctor_def res w' r prependableBytes_def)
    show "contents ?b = []"
      by (simp add: contents_def r)
  qed (use wf w in \<open>simp_all add: prependableBytes_def\<close>)
qed

lemma retrieveAll_wf [simp]: "buf_wf b \<Longrightarrow> buf_wf (retrieveAll b)"
  by (simp add: buf_wf_def retrieveAll_def)

lemma retrieveAll_contents [simp]: "contents (retrieveAll b) = []"
  by (simp add: contents_def readableBytes_def retrieveAll_def)

lemma unat_scast_nonneg:
  fixes len :: cint
  assumes "0 \<le> sint len"
  shows "unat (scast len :: size_t) = nat (sint len)"
proof -
  have lt: "sint len < 2 ^ 31" using sint_lt [of len] by simp
  have "uint (scast len :: size_t) = sint len mod 2 ^ 64"
    unfolding scast_eq uint_word_of_int by simp
  also have "\<dots> = sint len"
    using assms lt by (intro mod_pos_pos_trivial) auto
  finally show ?thesis by (simp only: nat_uint_eq [symmetric])
qed

lemma unat_scast_neg:
  fixes len :: cint
  assumes "sint len < 0"
  shows "2 ^ 63 \<le> unat (scast len :: size_t)"
proof -
  have ge: "- (2 ^ 31) \<le> sint len" using sint_ge [of len] by simp
  have "uint (scast len :: size_t) = sint len mod 2 ^ 64"
    unfolding scast_eq uint_word_of_int by simp
  also have "\<dots> = (sint len + 2 ^ 64) mod 2 ^ 64" by simp
  also have "\<dots> = sint len + 2 ^ 64"
    using ge assms by (intro mod_pos_pos_trivial) auto
  finally have "int (unat (scast len :: size_t)) = sint len + 2 ^ 64" by simp
  with ge have "int (2 ^ 63) \<le> int (unat (scast len :: size_t))" by simp
  then show ?thesis by (simp only: of_nat_le_iff)
qed

lemma retrieve_wf [simp]: "buf_wf b \<Longrightarrow> buf_wf (retrieve len b)"
proof -
  assume wf: "buf_wf b"
  show ?thesis
  proof (cases "(scast len :: size_t) < readableBytes b")
    case True
    then have lt: "unat (scast len :: size_t) < unat (writerIndex b) - unat (readerIndex b)"
      using wf by (simp add: size_less_iff)
    with buf_wfD [OF wf] have "unat (readerIndex b + scast len) = unat (readerIndex b) + unat (scast len :: size_t)"
      by (intro unat_add_bound) simp
    with True lt wf show ?thesis
      by (auto simp: retrieve_def buf_wf_def size_le_iff)
  qed (simp add: wf retrieve_def)
qed

lemma retrieve_contents:
  assumes wf: "buf_wf b"
  shows "contents (retrieve len b) =
    (if sint len < 0 then [] else drop (nat (sint len)) (contents b))"
proof (cases "(scast len :: size_t) < readableBytes b")
  case True
  then have lt: "unat (scast len :: size_t) < unat (writerIndex b) - unat (readerIndex b)"
    using wf by (simp add: size_less_iff)
  with buf_wfD [OF wf] have r: "unat (readerIndex b + scast len) = unat (readerIndex b) + unat (scast len :: size_t)"
    by (intro unat_add_bound) simp
  have "\<not> sint len < 0"
    using unat_scast_neg [of len] lt buf_wfD [OF wf] by auto
  moreover have "contents (retrieve len b) = drop (unat (scast len :: size_t)) (contents b)"
    using True r retrieve_wf [OF wf, of len] wf
    by (simp add: contents_eq) (simp add: retrieve_def drop_take add.commute)
  ultimately show ?thesis by (simp add: unat_scast_nonneg)
next
  case False
  then have "length (contents b) \<le> unat (scast len :: size_t)"
    using wf by (simp add: size_less_iff)
  with False show ?thesis
    using unat_scast_nonneg [of len] by (auto simp: retrieve_def)
qed

lemma sint_of_nat_small: "n < 2 ^ 31 \<Longrightarrow> sint (of_nat n :: cint) = int n"
  by (simp add: signed_of_nat signed_take_bit_int_eq_self)

lemma retrieve_of_nat:
  "buf_wf b \<Longrightarrow> n < 2 ^ 31 \<Longrightarrow> contents (retrieve (of_nat n) b) = drop n (contents b)"
  by (simp add: retrieve_contents sint_of_nat_small)

lemma peek_bytes_contents:
  "buf_wf b \<Longrightarrow> n \<le> length (contents b) \<Longrightarrow> peek_bytes n b = Inr (take n (contents b))"
  using buf_wfD [of b] by (auto simp: peek_bytes_def load_at_def contents_eq min.absorb1 min.absorb2)

section \<open>Making room and appending\<close>

lemma buf_wf_contents_grow:
  assumes wf: "buf_wf b" and "length (buffer b @ zs) < 2 ^ 63"
  shows "buf_wf (b\<lparr>buffer := buffer b @ zs\<rparr>)" and "contents (b\<lparr>buffer := buffer b @ zs\<rparr>) = contents b"
proof -
  show wf': "buf_wf (b\<lparr>buffer := buffer b @ zs\<rparr>)"
    using assms by (simp add: buf_wf_def)
  show "contents (b\<lparr>buffer := buffer b @ zs\<rparr>) = contents b"
    using buf_wfD [OF wf] by (simp add: contents_eq wf wf')
qed

lemma makeSpace_grow:
  assumes wf: "buf_wf b" and n: "unat len < 2 ^ 63"
    and full: "length (buffer b) < unat (writerIndex b) + unat len"
    and tight: "length (buffer b) - unat (writerIndex b) + unat (readerIndex b) < unat len + 8"
  shows "makeSpace len b =
    (if unat (writerIndex b) + unat len < 2 ^ 63
     then Inr (b\<lparr>buffer := buffer b @ replicate (unat (writerIndex b) + unat len - length (buffer b)) 0\<rparr>)
     else Inl Length_error)"
proof -
  note d = buf_wfD [OF wf]
  have "unat (writableBytes b + prependableBytes b) =
      length (buffer b) - unat (writerIndex b) + unat (readerIndex b)"
    using d by (subst unat_add_bound) (simp_all add: prependableBytes_def wf)
  moreover have "unat (len + kCheapPrepend) = unat len + 8"
    using n by (subst unat_add_bound) simp_all
  ultimately have c: "writableBytes b + prependableBytes b < len + kCheapPrepend"
    using tight by (simp add: size_less_iff)
  have w: "unat (writerIndex b + len) = unat (writerIndex b) + unat len"
    using d n by (intro unat_add_bound) simp
  show ?thesis
    using c w full by (simp add: makeSpace_def vec_resize_def size_less_iff)
qed

lemma makeSpace_move:
  assumes wf: "buf_wf b" and n: "unat len < 2 ^ 63"
    and full: "length (buffer b) < unat (writerIndex b) + unat len"
    and loose: "unat len + 8 \<le> length (buffer b) - unat (writerIndex b) + unat (readerIndex b)"
  obtains b' where "makeSpace len b = Inr b'" and "buf_wf b'" and "contents b' = contents b"
    and "length (buffer b') = length (buffer b)" and "readerIndex b' = kCheapPrepend"
    and "unat len \<le> unat (writableBytes b')"
proof -
  note d = buf_wfD [OF wf]
  let ?r = "unat (readerIndex b)" and ?w = "unat (writerIndex b)" and ?k = "unat (readableBytes b)"
  let ?b = "b\<lparr>buffer := copy_within (buffer b) ?r ?k 8, readerIndex := kCheapPrepend,
              writerIndex := kCheapPrepend + readableBytes b\<rparr>"
  have sum: "unat (writableBytes b + prependableBytes b) = length (buffer b) - ?w + ?r"
    using d by (subst unat_add_bound) (simp_all add: prependableBytes_def wf)
  moreover have "unat (len + kCheapPrepend) = unat len + 8"
    using n by (subst unat_add_bound) simp_all
  ultimately have c: "\<not> writableBytes b + prependableBytes b < len + kCheapPrepend"
    using loose by (simp add: size_less_iff)
  have r8: "8 < ?r" using full loose d by linarith
  have w': "unat (kCheapPrepend + readableBytes b) = 8 + ?k"
    using d wf by (subst unat_add_bound) simp_all
  have moved: "buffer ?b = overwrite (buffer b) 8 (contents b)"
    using copy_within_eq_overwrite [of 8 ?r ?k "buffer b"] r8 d wf by (simp add: contents_def)
  have wf': "buf_wf ?b"
    using d wf w' r8 by (auto simp: buf_wf_def size_le_iff)
  show ?thesis
  proof (rule that [of ?b])
    have "readableBytes ?b = readableBytes b"
      by (simp add: readableBytes_def)
    then show "makeSpace len b = Inr ?b"
      using c r8 d by (simp add: makeSpace_def size_less_iff Let_def)
    show "contents ?b = contents b"
      unfolding contents_eq [OF wf'] moved using w' wf d r8
      by (simp add: overwrite_def contents_eq)
    show "unat len \<le> unat (writableBytes ?b)"
      unfolding unat_writableBytes [OF wf'] using w' wf d loose r8 by simp
  qed (use wf' in simp_all)
qed

text \<open>
  Room for \<open>len\<close> more bytes: either there is some, or the vector grows (and only a request
  beyond \<open>max_size()\<close> fails), or the readable bytes move to the front. No assertion of
  \<open>makeSpace\<close> or \<open>ensureWritableBytes\<close> fails.
\<close>

lemma ensureWritableBytes_cases:
  assumes wf: "buf_wf b" and n: "unat len < 2 ^ 63"
  obtains (fault) "ensureWritableBytes len b = Inl Length_error" "2 ^ 63 \<le> unat (writerIndex b) + unat len"
  | (ok) b' where "ensureWritableBytes len b = Inr b'" "buf_wf b'" "contents b' = contents b"
      "unat len \<le> unat (writableBytes b')"
      "length (contents b) + unat len + 8 \<le> length (buffer b) \<Longrightarrow> length (buffer b') = length (buffer b)"
proof -
  note d = buf_wfD [OF wf]
  consider (room) "\<not> writableBytes b < len"
    | (grow) "writableBytes b < len"
        "length (buffer b) - unat (writerIndex b) + unat (readerIndex b) < unat len + 8"
    | (move) "writableBytes b < len"
        "unat len + 8 \<le> length (buffer b) - unat (writerIndex b) + unat (readerIndex b)"
    by linarith
  then show thesis
  proof cases
    case room
    then show thesis
      by (intro ok [of b]) (simp_all add: ensureWritableBytes_def wf size_le_iff size_less_iff)
  next
    case grow
    have full: "length (buffer b) < unat (writerIndex b) + unat len"
      using grow(1) wf by (simp add: size_less_iff)
    note ms = makeSpace_grow [OF wf n full grow(2)]
    show thesis
    proof (cases "unat (writerIndex b) + unat len < 2 ^ 63")
      case True
      let ?zs = "replicate (unat (writerIndex b) + unat len - length (buffer b)) (0 :: byte)"
      let ?b = "b\<lparr>buffer := buffer b @ ?zs\<rparr>"
      have len: "length (buffer b @ ?zs) < 2 ^ 63" using True d by simp
      note wf' = buf_wf_contents_grow [OF wf len]
      have room': "unat len \<le> unat (writableBytes ?b)"
        using unat_writableBytes [OF wf'(1)] full by simp
      show thesis
      proof (rule ok [of ?b])
        show "ensureWritableBytes len b = Inr ?b"
          using grow(1) ms True room' by (simp add: ensureWritableBytes_def size_le_iff)
      qed (use wf' room' grow(2) d wf in auto)
    next
      case False
      then show thesis
        using grow(1) ms by (intro fault) (simp_all add: ensureWritableBytes_def)
    qed
  next
    case move
    have full: "length (buffer b) < unat (writerIndex b) + unat len"
      using move(1) wf by (simp add: size_less_iff)
    obtain b' where b': "makeSpace len b = Inr b'" "buf_wf b'" "contents b' = contents b"
      "length (buffer b') = length (buffer b)" "unat len \<le> unat (writableBytes b')"
      using makeSpace_move [OF wf n full move(2)] by blast
    then show thesis
      using move(1) by (intro ok [of b']) (simp_all add: ensureWritableBytes_def size_le_iff)
  qed
qed

lemma write_region:
  assumes wf: "buf_wf b" and room: "length d \<le> unat (writableBytes b)"
  defines "b' \<equiv> b\<lparr>buffer := overwrite (buffer b) (unat (writerIndex b)) d,
                  writerIndex := writerIndex b + of_nat (length d)\<rparr>"
  shows "buf_wf b'" and "contents b' = contents b @ d" and "length (buffer b') = length (buffer b)"
    and "store_at (unat (writerIndex b)) d b =
           Inr (b\<lparr>buffer := overwrite (buffer b) (unat (writerIndex b)) d\<rparr>)"
proof -
  note dd = buf_wfD [OF wf]
  have room': "unat (writerIndex b) + length d \<le> length (buffer b)"
    using room wf dd by simp
  have w': "unat (writerIndex b + of_nat (length d)) = unat (writerIndex b) + length d"
    using room' dd by (subst unat_add_bound) (simp_all add: unat_of_nat_bound)
  show len: "length (buffer b') = length (buffer b)"
    using room' by (simp add: b'_def length_overwrite)
  show wf': "buf_wf b'"
    using room' dd w' wf len by (simp add: b'_def buf_wf_def size_le_iff)
  show "store_at (unat (writerIndex b)) d b =
      Inr (b\<lparr>buffer := overwrite (buffer b) (unat (writerIndex b)) d\<rparr>)"
    using room' by (simp add: store_at_def)
  have "contents b' = take (unat (writerIndex b) + length d - unat (readerIndex b))
      (overwrite (drop (unat (readerIndex b)) (buffer b)) (unat (writerIndex b) - unat (readerIndex b)) d)"
    unfolding contents_eq [OF wf'] using w' dd room'
    by (simp add: b'_def drop_overwrite)
  also have "\<dots> = contents b @ d"
    using dd room' by (simp add: overwrite_def contents_eq [OF wf])
  finally show "contents b' = contents b @ d" .
qed

lemma append_cases:
  assumes wf: "buf_wf b" and n: "length d < 2 ^ 63"
  obtains (fault) "append_data d b = Inl Length_error" "2 ^ 63 \<le> unat (writerIndex b) + length d"
  | (ok) b' where "append_data d b = Inr b'" "buf_wf b'" "contents b' = contents b @ d"
      "length (contents b) + length d + 8 \<le> length (buffer b) \<Longrightarrow> length (buffer b') = length (buffer b)"
proof -
  let ?len = "of_nat (length d) :: size_t"
  have len: "unat ?len = length d" using n by (simp add: unat_of_nat_bound)
  then have "unat ?len < 2 ^ 63" using n by simp
  with wf show thesis
  proof (cases rule: ensureWritableBytes_cases)
    case fault
    then show thesis using len by (intro that(1)) (simp_all add: append_data_def Let_def)
  next
    case (ok b1)
    have room: "length d \<le> unat (writableBytes b1)" using ok len by simp
    note wr = write_region [OF ok(2) room]
    let ?b2 = "b1\<lparr>buffer := overwrite (buffer b1) (unat (writerIndex b1)) d\<rparr>"
    have "vec_size ?b2 = vec_size b1" using wr(3) by (simp add: vec_size_def)
    then have "?len \<le> writableBytes ?b2"
      using ok(4) by (simp add: writableBytes_def size_le_iff)
    then have "append_data d b = Inr (?b2\<lparr>writerIndex := writerIndex b1 + ?len\<rparr>)"
      using ok(1) wr(4) by (simp add: append_data_def hasWritten_def Let_def)
    then show thesis
      by (rule that(2)) (use wr ok len in simp_all)
  qed
qed

lemma prepend_ok:
  assumes wf: "buf_wf b" and n: "length d \<le> unat (prependableBytes b)"
  obtains b' where "prepend d b = Inr b'" "buf_wf b'" "contents b' = d @ contents b"
proof -
  note dd = buf_wfD [OF wf]
  let ?len = "of_nat (length d) :: size_t"
  have len: "unat ?len = length d"
    using n dd by (intro unat_of_nat_bound) (simp add: prependableBytes_def)
  have le: "?len \<le> readerIndex b" using n len by (simp add: size_le_iff prependableBytes_def)
  have r': "unat (readerIndex b - ?len) = unat (readerIndex b) - length d"
    using le len by (simp add: unat_sub_le)
  let ?b = "b\<lparr>readerIndex := readerIndex b - ?len,
              buffer := overwrite (buffer b) (unat (readerIndex b) - length d) d\<rparr>"
  have bd: "unat (readerIndex b) - length d + length d \<le> length (buffer b)"
    using n dd by (simp add: prependableBytes_def)
  have wf': "buf_wf ?b"
    using dd r' bd wf by (auto simp: buf_wf_def size_le_iff length_overwrite)
  show thesis
  proof (rule that [of ?b])
    show "prepend d b = Inr ?b"
      using le r' bd by (simp add: prepend_def prependableBytes_def store_at_def Let_def)
    have "contents ?b = take (unat (writerIndex b) - (unat (readerIndex b) - length d))
        (d @ drop (unat (readerIndex b)) (buffer b))"
      unfolding contents_eq [OF wf'] using r' n dd
      by (simp add: overwrite_def prependableBytes_def)
    also have "\<dots> = d @ contents b"
      using n dd by (simp add: contents_eq [OF wf] prependableBytes_def)
    finally show "contents ?b = d @ contents b" .
  qed (rule wf')
qed

section \<open>Reading from a descriptor\<close>

lemma readFd_cases:
  assumes wf: "buf_wf b" and ok: "readv_documented readv"
  obtains (err) e where "readFd readv fd b = Inr (- 1, b)" "readv fd (readFd_iov b) = Inl e"
  | (fault) got where "readFd readv fd b = Inl Length_error" "readv fd (readFd_iov b) = Inr got"
      "2 ^ 63 \<le> length (buffer b) + length got"
  | (got) got b' where "readFd readv fd b = Inr (int (length got), b')" "buf_wf b'"
      "contents b' = contents b @ got" "readv fd (readFd_iov b) = Inr got"
proof -
  let ?w = "writableBytes b"
  let ?vec = "readFd_iov b"
  note dd = buf_wfD [OF wf]
  show thesis
  proof (cases "readv fd ?vec")
    case (Inl e)
    then show thesis by (intro err) (auto simp: readFd_def)
  next
    case (Inr got')
    then have bound: "length got' < 2 ^ 63"
      using ok by (auto simp: readv_documented_def)
    then have len: "unat (of_nat (length got') :: size_t) = length got'"
      by (intro unat_of_nat_bound) simp
    show thesis
    proof (cases "(of_nat (length got') :: size_t) \<le> ?w")
      case True
      then have "length got' \<le> unat ?w" using len by (simp add: size_le_iff)
      note wr = write_region [OF wf this]
      have "readFd readv fd b = Inr (int (length got'),
          b\<lparr>buffer := overwrite (buffer b) (unat (writerIndex b)) got',
            writerIndex := writerIndex b + of_nat (length got')\<rparr>)"
        using wr(4) Inr True by (simp add: readFd_def Let_def)
      then show thesis
        by (rule got) (use wr Inr in simp_all)
    next
      case False
      then have more: "unat ?w < length got'" using len by (simp add: size_le_iff)
      let ?fst = "take (unat ?w) got'" and ?snd = "drop (unat ?w) got'"
      have "length ?fst \<le> unat ?w" by simp
      note wr = write_region [OF wf this]
      let ?b1 = "b\<lparr>buffer := overwrite (buffer b) (unat (writerIndex b)) ?fst\<rparr>"
      have lf: "length ?fst = unat ?w" using more by simp
      have "vec_size ?b1 = writerIndex b + of_nat (length ?fst)"
        using wr(3) lf by (simp add: vec_size_def word_unat_eq_iff [symmetric] writableBytes_def)
      with wr have b1: "buf_wf (?b1\<lparr>writerIndex := vec_size ?b1\<rparr>)"
        "contents (?b1\<lparr>writerIndex := vec_size ?b1\<rparr>) = contents b @ ?fst"
        by simp_all
      have "length ?snd < 2 ^ 63" using bound by simp
      with b1(1) show thesis
      proof (cases rule: append_cases)
        case fault
        have "unat (vec_size ?b1) = length (buffer b)"
          using wr(3) lf dd by (simp add: vec_size_def length_overwrite unat_of_nat_bound)
        then have "2 ^ 63 \<le> length (buffer b) + length got'" using fault(2) by simp
        then show thesis using Inr False wr(4) fault(1) by (intro that(2) [of got']) (simp_all add: readFd_def Let_def)
      next
        case (ok b2)
        then show thesis using Inr False wr(4) b1
          by (intro got [of got' b2]) (simp_all add: readFd_def Let_def)
      qed
    qed
  qed
qed

section \<open>Strings taken out of the buffer\<close>

lemma sint_cint_cases:
  fixes x :: cint
  shows "sint x = (if unat x < 2 ^ 31 then int (unat x) else int (unat x) - 2 ^ 32)"
proof -
  have x: "unat x < 2 ^ 32" using unsigned_less [of x, where 'a = nat] by simp
  have div: "int m div 2 ^ 31 = (if m < 2 ^ 31 then 0 else 1)" if "m < 2 ^ 32" for m :: nat
    using that by auto
  have "bit (uint x) 31 \<longleftrightarrow> odd (uint x div 2 ^ 31)"
    by (simp add: bit_iff_odd)
  also have "\<dots> \<longleftrightarrow> \<not> unat x < 2 ^ 31"
    using div [OF x] by simp
  finally have "bit (uint x) 31 \<longleftrightarrow> \<not> unat x < 2 ^ 31" .
  moreover have "take_bit 32 (uint x) = uint x"
    using unsigned_less [of x, where 'a = int] by (intro take_bit_int_eq_self) simp_all
  ultimately show ?thesis
    unfolding sint_uint by (simp add: signed_take_bit_eq_take_bit_minus)
qed

lemma unat_ucast_cint: "unat (ucast (len :: size_t) :: cint) = unat len mod 2 ^ 32"
  by (simp add: unsigned_ucast_eq take_bit_eq_mod)

lemma retrieveAsString_ok:
  assumes "buf_wf b" and "len \<le> readableBytes b"
  shows "retrieveAsString len b = Inr (take (unat len) (contents b), retrieve (ucast len) b)"
  using assms peek_bytes_contents [of b "unat len"]
  by (simp add: retrieveAsString_def size_le_iff)

lemma retrieve_ucast_contents:
  "buf_wf b \<Longrightarrow> contents (retrieve (ucast (len :: size_t)) b) =
     (if unat len mod 2 ^ 32 < 2 ^ 31 then drop (unat len mod 2 ^ 32) (contents b) else [])"
  by (simp add: retrieve_contents sint_cint_cases unat_ucast_cint)

lemma retrieveAllAsString_ok:
  assumes "buf_wf b" and "length (contents b) < 2 ^ 31"
  shows "\<exists>b'. retrieveAllAsString b = Inr (contents b, b') \<and> buf_wf b' \<and> contents b' = []"
  using assms
  by (simp add: retrieveAllAsString_def retrieveAsString_ok retrieve_ucast_contents)

interpretation buf: byte_fifo buf_wf contents append_data "\<lambda>n. retrieve (of_nat n)"
proof
  fix b b' :: Buffer and d :: "byte list" and e n
  assume wf: "buf_wf b"
  {
    assume d: "length d < 2 ^ 63" and "append_data d b = Inr b'"
    with wf show "buf_wf b' \<and> contents b' = contents b @ d"
      by (cases rule: append_cases) simp_all
  next
    assume d: "length d < 2 ^ 63" and "append_data d b = Inl e"
    with wf show "e = Length_error"
      by (cases rule: append_cases) simp_all
  next
    assume "n < (2 ^ 31 :: nat)"
    with wf show "buf_wf (retrieve (of_nat n) b) \<and> contents (retrieve (of_nat n) b) = drop n (contents b)"
      by (simp add: retrieve_of_nat)
  }
qed

section \<open>Properties\<close>

text \<open>
  C1. Appending to a well-formed buffer puts the bytes after the readable ones and keeps the
  buffer well-formed; the only failure is \<open>std::length_error\<close>, and only past \<open>max_size()\<close>: the
  assertions of \<open>makeSpace\<close>, \<open>ensureWritableBytes\<close> and \<open>hasWritten\<close> never fail and no byte is
  written outside the vector. While the readable bytes, the new ones and the cheap-prepend area
  fit, the vector does not grow.
\<close>

theorem append_refines_sequence:
  assumes "buf_wf b" and "length d < 2 ^ 63"
  shows "(append_data d b = Inl Length_error \<and> 2 ^ 63 \<le> unat (writerIndex b) + length d) \<or>
    (\<exists>b'. append_data d b = Inr b' \<and> buf_wf b' \<and> contents b' = contents b @ d \<and>
       (length (contents b) + length d + 8 \<le> length (buffer b) \<longrightarrow>
          length (buffer b') = length (buffer b)))"
  using assms by (cases rule: append_cases) auto

definition sample_buffer :: Buffer where
  "sample_buffer = \<lparr>buffer = [0, 0, 0, 0, 0, 0, 0, 0, 65, 66, 67, 68], readerIndex = 10, writerIndex = 12\<rparr>"

lemma sample_buffer_wf: "buf_wf sample_buffer"
  by (simp add: buf_wf_def sample_buffer_def)

lemma sample_buffer_contents: "contents sample_buffer = [67, 68]"
  by (simp add: contents_def readableBytes_def sample_buffer_def)

theorem append_refines_sequence_witness:
  "buf_wf sample_buffer \<and> length [69 :: byte, 70] < 2 ^ 63 \<and>
   (\<exists>b'. append_data [69, 70] sample_buffer = Inr b' \<and> buf_wf b' \<and> contents b' = [67, 68, 69, 70] \<and>
      length (buffer b') = 12)"
proof -
  have n: "length [69 :: byte, 70] < 2 ^ 63" by simp
  have w: "unat (writerIndex sample_buffer) = 12" by (simp add: sample_buffer_def)
  from append_refines_sequence [OF sample_buffer_wf n] w
  show ?thesis by (auto simp: sample_buffer_wf sample_buffer_contents) (simp_all add: sample_buffer_def)
qed

text \<open>
  C2. A buffer is a first-in first-out byte stream for its client: over any sequence of appends
  and of reads that retrieve fewer than 2 GiB each, the bytes taken out followed by the bytes still readable are
  the bytes readable at the start followed by the bytes appended, in order, none lost and none twice.
\<close>

theorem buffer_stream:
  assumes "buf_wf b" and "list_all fifo_op_ok ops"
    and "fifo_run contents append_data (\<lambda>n. retrieve (of_nat n)) ops b = Inr (out, b')"
  shows "buf_wf b' \<and> out @ contents b' = contents b @ fifo_puts ops"
  using assms by (rule buf.fifo_run_stream)

theorem buffer_stream_witness:
  "\<exists>out b'. fifo_run contents append_data (\<lambda>n. retrieve (of_nat n)) [Consume 1, Put [69], Consume 2] sample_buffer
      = Inr (out, b') \<and> buf_wf b' \<and> out @ contents b' = [67, 68, 69]"
proof -
  let ?ops = "[Consume 1, Put [69], Consume 2] :: byte fifo_op list"
  have ok: "list_all fifo_op_ok ?ops" by simp
  let ?b = "\<lparr>buffer = [0, 0, 0, 0, 0, 0, 0, 0, 68, 69, 67, 68], readerIndex = 8, writerIndex = 8\<rparr>"
  have "fifo_run contents append_data (\<lambda>n. retrieve (of_nat n)) ?ops sample_buffer = Inr ([67, 68, 69], ?b)"
    by code_simp
  with buffer_stream [OF sample_buffer_wf ok this] show ?thesis
    by (auto simp: sample_buffer_contents)
qed

text \<open>
  C17. \<open>readFd\<close> puts exactly the bytes the kernel delivered after the readable ones, whether
  they fit the writable area or spill into the 64 KiB stack buffer, and returns their number; on an
  error of readv it returns -1 and leaves the buffer alone.
\<close>

theorem readFd_appends_input:
  assumes "buf_wf b" and "readv_documented readv"
  shows "case readv fd (readFd_iov b) of
      Inl e \<Rightarrow> readFd readv fd b = Inr (- 1, b)
    | Inr got \<Rightarrow> (readFd readv fd b = Inl Length_error \<and> 2 ^ 63 \<le> length (buffer b) + length got) \<or>
        (\<exists>b'. readFd readv fd b = Inr (int (length got), b') \<and> buf_wf b' \<and> contents b' = contents b @ got)"
  using assms by (cases rule: readFd_cases [where fd = fd]) auto

definition one_byte_readv :: "fd \<Rightarrow> size_t list \<Rightarrow> errno + byte list" where
  "one_byte_readv fd vec = Inr (if list_ex (\<lambda>n. n \<noteq> 0) vec then [69] else [])"

lemma one_byte_readv_documented: "readv_documented one_byte_readv"
proof -
  have "1 \<le> sum_list (map unat vec)" if "list_ex (\<lambda>n. n \<noteq> 0) vec" for vec :: "size_t list"
    using that by (induction vec) (auto simp: Suc_le_eq unat_gt_0)
  then show ?thesis by (auto simp: readv_documented_def one_byte_readv_def split: if_splits)
qed

theorem readFd_appends_input_witness:
  "readv_documented one_byte_readv \<and>
   (\<exists>b'. readFd one_byte_readv 5 sample_buffer = Inr (1, b') \<and> buf_wf b' \<and> contents b' = [67, 68, 69])"
proof -
  let ?b = "\<lparr>buffer = [0, 0, 0, 0, 0, 0, 0, 0, 67, 68, 69, 68], readerIndex = 8, writerIndex = 11\<rparr>"
  have "readFd one_byte_readv 5 sample_buffer = Inr (1, ?b)"
    by code_simp
  with readFd_appends_input [OF sample_buffer_wf one_byte_readv_documented, of 5]
  show ?thesis
    by (auto simp: sample_buffer_contents one_byte_readv_documented one_byte_readv_def split: sum.splits if_splits)
qed

text \<open>
  \<open>retrieveAllAsString\<close> returns all readable bytes and leaves none, as long as there are
  fewer than \<open>2 ^ 31\<close> of them.
\<close>

theorem retrieveAllAsString_drains:
  assumes "buf_wf b" and "length (contents b) < 2 ^ 31"
  shows "\<exists>b'. retrieveAllAsString b = Inr (contents b, b') \<and> buf_wf b' \<and> contents b' = []"
  using assms by (rule retrieveAllAsString_ok)

theorem retrieveAllAsString_drains_witness:
  "length (contents sample_buffer) < 2 ^ 31 \<and>
   (\<exists>b'. retrieveAllAsString sample_buffer = Inr ([67, 68], b') \<and> buf_wf b' \<and> contents b' = [])"
proof -
  have n: "length (contents sample_buffer) < 2 ^ 31"
    by (simp add: sample_buffer_contents)
  from retrieveAllAsString_drains [OF sample_buffer_wf n] n show ?thesis
    by (simp add: sample_buffer_contents)
qed

text \<open>
  Above that size the length is narrowed to the \<open>int\<close> parameter of \<open>retrieve\<close>: with
  \<open>2 ^ 32 + k\<close> readable bytes, \<open>k < 2 ^ 31\<close>, the string returned holds all of them but only
  \<open>k\<close> are removed, so \<open>2 ^ 32\<close> bytes already handed out stay readable.
\<close>

theorem retrieveAllAsString_narrows:
  assumes "buf_wf b" and "length (contents b) = 2 ^ 32 + k" and "k < 2 ^ 31"
  shows "\<exists>b'. retrieveAllAsString b = Inr (contents b, b') \<and> contents b' = drop k (contents b) \<and>
    length (contents b') = 2 ^ 32"
proof -
  have "unat (readableBytes b) mod 2 ^ 32 = k"
    using assms by (simp add: mod_add_left_eq [symmetric])
  then show ?thesis using assms
    by (simp add: retrieveAllAsString_def retrieveAsString_ok retrieve_ucast_contents)
qed

theorem retrieveAllAsString_narrows_witness:
  "\<exists>b b'. buf_wf b \<and> length (contents b) = 2 ^ 32 + 5 \<and>
     retrieveAllAsString b = Inr (contents b, b') \<and> length (contents b') = 2 ^ 32"
proof -
  obtain v :: "byte list" where v: "length v = 2 ^ 32 + 13"
    using Ex_list_of_length by blast
  let ?b = "\<lparr>buffer = v, readerIndex = 8, writerIndex = 2 ^ 32 + 13\<rparr>"
  have wf: "buf_wf ?b" by (simp add: buf_wf_def v)
  then have len: "length (contents ?b) = 2 ^ 32 + 5" by simp
  from retrieveAllAsString_narrows [OF wf len] wf len show ?thesis by auto
qed

end
