(* ===== verification/Siren_Timer.thy ===== *)
theory Siren_Timer
  imports Siren_EventLoop Complex_Main "HOL-Library.Signed_Division"
begin

text \<open>
  Timers: \<open>include/siren/net/Timer.h\<close>, \<open>src/net/Timer.cpp\<close>, \<open>src/net/TimerQueue.cpp\<close>,
  \<open>src/net/TimerId.cpp\<close> and the \<open>runAt\<close> family of \<open>src/net/EventLoop.cpp\<close>.

  Time points are nanoseconds (the period of \<open>system_clock\<close> in libstdc++) as \<open>int\<close>; the \<open>double\<close>
  delays in seconds are rationals. The queue shares the state of its loop: \<open>tloop\<close> extends the loop
  by the heap of timers, the ordered set \<open>timers_\<close> of pointers, the static counter
  \<open>s_numCreated_\<close> and the trace of \<open>timerfd_settime\<close> calls, newest first, each with the expiration it was
  computed from. A pointer to a timer is its sequence number, which is unique. The readings of the clock are
  arguments (\<open>now\<close>, and \<open>now'\<close> for a later reading).

  \<open>std::set<Timer*, TimerCmp>\<close> is a list in iteration order; \<open>set_insert\<close> is its \<open>insert\<close>, which
  drops an element equivalent to one that is present. \<open>TimerCmp\<close> compares expirations only, which are the
  keys \<open>set_insert\<close> compares.
\<close>

section \<open>Data\<close>

datatype timer_cb =
    TC_user nat
  | TC_forceClose nat
  | TC_Connector_startInLoop nat
  | TC_removeConnector nat

record Timer =
  callback :: "timer_cb option"
  expiration :: int
  interval :: int
  repeat :: bool
  sequence :: int

record timespec =
  tv_sec :: int
  tv_nsec :: int

record TimerId =
  timer_ptr :: nat
  timer_seq :: int

record tloop = loop +
  timer_mem :: "nat \<rightharpoonup> Timer"
  timers :: "nat list"
  s_numCreated :: nat
  callingExpiredTimers :: bool
  timerfd :: fd
  armed :: "(int \<times> timespec) list"

definition ns_per_s :: int where "ns_per_s = 1000000000"
definition ns_per_ms :: int where "ns_per_ms = 1000000"

text \<open>\<open>static_cast<int64_t>\<close> of a double: truncation towards zero.\<close>

definition trunc :: "rat \<Rightarrow> int" where
  "trunc x = (if 0 \<le> x then \<lfloor>x\<rfloor> else \<lceil>x\<rceil>)"

section \<open>Timer\<close>

definition Timer_ctor :: "timer_cb option \<Rightarrow> int \<Rightarrow> int \<Rightarrow> nat \<Rightarrow> Timer" where
  "Timer_ctor cb when ivl created =
     \<lparr>callback = cb, expiration = when, interval = ivl, repeat = (0 < ivl), sequence = int created\<rparr>"

definition Timer_restart :: "int \<Rightarrow> int \<Rightarrow> Timer \<Rightarrow> Timer" where
  "Timer_restart now clock t =
     (if repeat t then t\<lparr>expiration := now + interval t * 1000 * ns_per_ms\<rparr>
      else t\<lparr>expiration := clock\<rparr>)"

section \<open>The timer descriptor\<close>

definition howMuchTimeFromNow :: "int \<Rightarrow> int \<Rightarrow> timespec" where
  "howMuchTimeFromNow now when =
     (let microseconds = max ((when - now) sdiv 1000) 100
      in \<lparr>tv_sec = microseconds div 1000 div 1000, tv_nsec = (microseconds mod (1000 * 1000)) * 1000\<rparr>)"

definition resetTimerfd :: "int \<Rightarrow> int \<Rightarrow> 'm tloop_scheme \<Rightarrow> 'm tloop_scheme" where
  "resetTimerfd now when s = s\<lparr>armed := (when, howMuchTimeFromNow now when) # armed s\<rparr>"

section \<open>TimerQueue\<close>

definition expir :: "'m tloop_scheme \<Rightarrow> nat \<Rightarrow> int" where
  "expir s t = (case timer_mem s t of None \<Rightarrow> 0 | Some tm \<Rightarrow> expiration tm)"

definition timer_alive :: "'m tloop_scheme \<Rightarrow> nat \<Rightarrow> bool" where
  "timer_alive s t \<longleftrightarrow> timer_mem s t \<noteq> None"

fun set_insert :: "('a \<Rightarrow> int) \<Rightarrow> 'a \<Rightarrow> 'a list \<Rightarrow> 'a list" where
  "set_insert key x [] = [x]"
| "set_insert key x (y # ys) =
     (if key x < key y then x # y # ys
      else if key y < key x then y # set_insert key x ys
      else y # ys)"

definition insert_timer :: "nat \<Rightarrow> 'm tloop_scheme \<Rightarrow> (bool \<times> 'm tloop_scheme) result" where
  "insert_timer t s =
     (if \<not> list_all (timer_alive s) (t # timers s) then Inl Bad_pointer
      else
        let earliestChanged = (timers s = [] \<or> expir s t < expir s (hd (timers s)))
        in Inr (earliestChanged, s\<lparr>timers := set_insert (expir s) t (timers s)\<rparr>))"

definition addTimerInLoop :: "int \<Rightarrow> nat \<Rightarrow> 'm tloop_scheme \<Rightarrow> 'm tloop_scheme result" where
  "addTimerInLoop now t s =
     rbind (insert_timer t s) (\<lambda>(earliestChanged, s1).
       Inr (if earliestChanged then resetTimerfd now (expir s1 t) s1 else s1))"

text \<open>\<open>new Timer\<close>: the counter gives the sequence number and the address.\<close>

definition new_timer :: "timer_cb option \<Rightarrow> int \<Rightarrow> int \<Rightarrow> 'm tloop_scheme \<Rightarrow> nat \<times> 'm tloop_scheme" where
  "new_timer cb when ivl s =
     (s_numCreated s,
      s\<lparr>timer_mem := (timer_mem s)(s_numCreated s \<mapsto> Timer_ctor cb when ivl (s_numCreated s)),
        s_numCreated := s_numCreated s + 1\<rparr>)"

definition addTimer :: "int \<Rightarrow> nat \<Rightarrow> timer_cb option \<Rightarrow> int \<Rightarrow> int \<Rightarrow> 'm tloop_scheme \<Rightarrow>
    (TimerId \<times> 'm tloop_scheme) result" where
  "addTimer now tid cb when ivl s =
     (case new_timer cb when ivl s of (t, s1) \<Rightarrow>
        rbind (runInLoop (\<lambda>f. addTimerInLoop now t) tid (Some (Fn_addTimerInLoop t)) s1) (\<lambda>s2.
          Inr (\<lparr>timer_ptr = t, timer_seq = int t\<rparr>, s2)))"

definition TimerQueue_cancel :: "TimerId \<Rightarrow> 'm tloop_scheme \<Rightarrow> 'm tloop_scheme" where
  "TimerQueue_cancel timerId s = s"

definition getExpired :: "int \<Rightarrow> 'm tloop_scheme \<Rightarrow> nat list \<times> 'm tloop_scheme" where
  "getExpired now s =
     (if timers s = [] then ([], s)
      else (takeWhile (\<lambda>t. \<not> now < expir s t) (timers s),
            s\<lparr>timers := dropWhile (\<lambda>t. \<not> now < expir s t) (timers s), s_numCreated := s_numCreated s + 1\<rparr>))"

definition reset_one :: "int \<Rightarrow> nat \<Rightarrow> 'm tloop_scheme \<Rightarrow> 'm tloop_scheme result" where
  "reset_one now t s =
     (case timer_mem s t of
        None \<Rightarrow> Inl Bad_pointer
      | Some tm \<Rightarrow>
          if repeat tm
          then rbind (insert_timer t (s\<lparr>timer_mem := (timer_mem s)(t \<mapsto> Timer_restart now now tm)\<rparr>)) (\<lambda>(_, s1). Inr s1)
          else Inr (s\<lparr>timer_mem := (timer_mem s)(t := None)\<rparr>))"

definition reset_timers :: "int \<Rightarrow> int \<Rightarrow> nat list \<Rightarrow> 'm tloop_scheme \<Rightarrow> 'm tloop_scheme result" where
  "reset_timers now now' expired s =
     rbind (rfold (reset_one now) expired s) (\<lambda>s1.
       Inr (if timers s1 \<noteq> [] then resetTimerfd now' (expir s1 (hd (timers s1))) s1 else s1))"

definition run_timer :: "(timer_cb \<Rightarrow> 'm tloop_scheme \<Rightarrow> 'm tloop_scheme result) \<Rightarrow> nat \<Rightarrow>
    'm tloop_scheme \<Rightarrow> 'm tloop_scheme result" where
  "run_timer exec t s =
     (case timer_mem s t of
        None \<Rightarrow> Inl Bad_pointer
      | Some tm \<Rightarrow> (case callback tm of None \<Rightarrow> Inl Bad_function_call | Some cb \<Rightarrow> exec cb s))"

definition TimerQueue_handleRead_op :: "(timer_cb \<Rightarrow> 'm tloop_scheme \<Rightarrow> 'm tloop_scheme result) \<Rightarrow> int \<Rightarrow> int \<Rightarrow>
    'm tloop_scheme \<Rightarrow> 'm tloop_scheme result" where
  "TimerQueue_handleRead_op exec now now' s =
     (case getExpired now s of (expired, s1) \<Rightarrow>
        rbind (rfold (run_timer exec) expired (s1\<lparr>callingExpiredTimers := True\<rparr>)) (\<lambda>s2.
          reset_timers now now' expired (s2\<lparr>callingExpiredTimers := False\<rparr>)))"

definition TimerQueue_dtor :: "'m tloop_scheme \<Rightarrow> 'm tloop_scheme result" where
  "TimerQueue_dtor s =
     rbind (disableAll 0 s) (\<lambda>s1.
     rbind (Channel_remove 0 s1) (\<lambda>s2.
       Inr (s2\<lparr>timer_mem := (timer_mem s2) |` (- set (timers s2))\<rparr>)))"

text \<open>
  The destructor of the loop: its own body, the channel \<open>wakeupChannel_\<close>, then \<open>timerQueue_\<close> with its channel. The closing of the two
  descriptors comes after they have left the poller and is not recorded here.
\<close>

definition EventLoop_dtor :: "'m tloop_scheme \<Rightarrow> 'm tloop_scheme result" where
  "EventLoop_dtor s =
     rbind (disableAll (wakeupChannel s) s) (\<lambda>s1.
     rbind (Channel_remove (wakeupChannel s) s1) (\<lambda>s2.
     rbind (Channel_dtor (threadId s) (wakeupChannel s) s2) (\<lambda>s3.
     rbind (TimerQueue_dtor s3) (Channel_dtor (threadId s) 0))))"

section \<open>Timers of the loop\<close>

definition runAt :: "int \<Rightarrow> nat \<Rightarrow> int \<Rightarrow> timer_cb option \<Rightarrow> 'm tloop_scheme \<Rightarrow> (TimerId \<times> 'm tloop_scheme) result" where
  "runAt now tid time cb s = addTimer now tid cb time 0 s"

definition runAfter :: "int \<Rightarrow> int \<Rightarrow> nat \<Rightarrow> rat \<Rightarrow> timer_cb option \<Rightarrow> 'm tloop_scheme \<Rightarrow>
    (TimerId \<times> 'm tloop_scheme) result" where
  "runAfter now now' tid delay cb s = runAt now' tid (now + trunc (delay * 1000) * ns_per_ms) cb s"

definition runEvery :: "int \<Rightarrow> int \<Rightarrow> nat \<Rightarrow> rat \<Rightarrow> timer_cb option \<Rightarrow> 'm tloop_scheme \<Rightarrow>
    (TimerId \<times> 'm tloop_scheme) result" where
  "runEvery now now' tid ivl cb s =
     addTimer now' tid cb (now + trunc (ivl * 1000) * ns_per_ms) (trunc ivl) s"

section \<open>Invariant\<close>

text \<open>
  \<open>timers_ok\<close>: the set holds live timers in strictly increasing order of expiration, and addresses
  come from the counter. \<open>armed_ok\<close>: the descriptor was last armed for the earliest timer.
\<close>

definition timers_ok :: "'m tloop_scheme \<Rightarrow> bool" where
  "timers_ok s \<longleftrightarrow> list_all (timer_alive s) (timers s) \<and>
     sorted_wrt (\<lambda>t u. expir s t < expir s u) (timers s) \<and>
     (\<forall>t. timer_alive s t \<longrightarrow> t < s_numCreated s)"

definition armed_ok :: "'m tloop_scheme \<Rightarrow> bool" where
  "armed_ok s \<longleftrightarrow> (timers s \<noteq> [] \<longrightarrow> (\<exists>ts rest. armed s = (expir s (hd (timers s)), ts) # rest))"

lemma timers_okD:
  assumes "timers_ok s"
  shows "t \<in> set (timers s) \<Longrightarrow> timer_alive s t" and "list_all (timer_alive s) (timers s)"
    and "sorted_wrt (\<lambda>t u. expir s t < expir s u) (timers s)"
    and "timer_alive s t \<Longrightarrow> t < s_numCreated s"
  using assms by (auto simp: timers_ok_def list_all_iff)

text \<open>The destructor succeeds outside of event handling, and takes both descriptors of the loop out of the poller.\<close>

lemma loop_wf_timer_mem [simp]: "loop_wf (s\<lparr>timer_mem := m\<rparr>) = loop_wf s"
  using poller_wf_cong [of "s\<lparr>timer_mem := m\<rparr>" s] by (simp add: loop_wf_def)

lemma EventLoop_dtor_ok:
  assumes wf: "loop_wf s" and c0: "chans s 0 = Some ch0" "index ch0 \<noteq> kNew"
    and c1: "chans s (wakeupChannel s) = Some ch1" "index ch1 \<noteq> kNew"
    and ne: "wakeupChannel s \<noteq> 0" and out: "\<not> eventHandling s"
  obtains t where "EventLoop_dtor s = Inr t" "loop_wf t"
    "registered (epoll_log t) (ch_fd ch0) = None" "registered (epoll_log t) (ch_fd ch1) = None"
proof -
  from wf c1 out obtain s3 where s3: "retire (wakeupChannel s) s = Inr s3" "loop_wf s3"
    "chans s3 = (chans s)(wakeupChannel s := None)" "channels s3 = (channels s)(ch_fd ch1 := None)" "\<not> eventHandling s3"
    "threadId s3 = threadId s"
    by (rule retire_ok)
  have "chans s3 0 = Some ch0" using s3(3) c0 ne by simp
  with s3(2) obtain s4 where s4: "retire 0 s3 = Inr s4" "loop_wf s4" "channels s4 = (channels s3)(ch_fd ch0 := None)"
    by (rule retire_ok) (use c0(2) s3(5) in simp_all)
  have mem: "Channel_dtor tid 0 (u\<lparr>timer_mem := m\<rparr>) = rbind (Channel_dtor tid 0 u) (\<lambda>v. Inr (v\<lparr>timer_mem := m\<rparr>))"
    for tid m and u :: "'a tloop_scheme"
    by (auto simp: Channel_dtor_def isInLoopThread_def EventLoop_hasChannel_def hasChannel_def with_chan_def rbind_def
        split: option.splits if_splits)
  have "EventLoop_dtor s = rbind (retire (wakeupChannel s) s) (\<lambda>s3. rbind (TimerQueue_dtor s3) (Channel_dtor (threadId s) 0))"
    by (simp add: EventLoop_dtor_def retire_def rbind_def split: sum.splits)
  also have "\<dots> = rbind (TimerQueue_dtor s3) (Channel_dtor (threadId s3) 0)" using s3 by simp
  finally obtain m where run: "EventLoop_dtor s = Inr (s4\<lparr>timer_mem := m\<rparr>)"
    using s4(1) by (auto simp: TimerQueue_dtor_def retire_def rbind_def mem split: sum.splits)
  have "loop_wf (s4\<lparr>timer_mem := m\<rparr>)" using s4(2) by simp
  moreover have "channels (s4\<lparr>timer_mem := m\<rparr>) (ch_fd ch0) = None" "channels (s4\<lparr>timer_mem := m\<rparr>) (ch_fd ch1) = None"
    using s3(4) s4(3) by simp_all
  ultimately show thesis using run by (intro that [of "s4\<lparr>timer_mem := m\<rparr>"]) (blast intro: loop_wf_registered)+
qed

section \<open>The ordered set\<close>

lemma set_set_insert:
  "sorted_wrt (\<lambda>a b. key a < key b) xs \<Longrightarrow>
   set (set_insert key x xs) = (if key x \<in> key ` set xs then set xs else insert x (set xs))"
  by (induction xs) (auto simp: image_iff)

lemma sorted_set_insert:
  "sorted_wrt (\<lambda>a b. key a < key b) xs \<Longrightarrow> sorted_wrt (\<lambda>a b. key a < key b) (set_insert key x xs)"
  by (induction xs) (auto simp: set_set_insert split: if_splits)

lemma set_insert_equal_key:
  "sorted_wrt (\<lambda>a b. key a < key b) xs \<Longrightarrow> y \<in> set xs \<Longrightarrow> key y = key x \<Longrightarrow> set_insert key x xs = xs"
  by (induction xs) auto

lemma hd_set_insert:
  "hd (set_insert key x xs) = (if xs = [] \<or> key x < key (hd xs) then x else hd xs)"
  by (cases xs) auto

lemma set_insert_not_Nil [simp]: "set_insert key x xs \<noteq> []"
  by (cases xs) auto

lemma set_insert_cong:
  "(\<And>y. y \<in> insert x (set xs) \<Longrightarrow> key y = key' y) \<Longrightarrow> set_insert key x xs = set_insert key' x xs"
  by (induction xs) auto

lemma sorted_prefix_filter:
  assumes "sorted_wrt (\<lambda>a b. key a < (key b :: int)) xs"
  shows "takeWhile (\<lambda>t. \<not> now < key t) xs = filter (\<lambda>t. key t \<le> now) xs"
    and "dropWhile (\<lambda>t. \<not> now < key t) xs = filter (\<lambda>t. now < key t) xs"
  using assms by (induction xs) (auto simp: not_less intro!: filter_False [symmetric] filter_True [symmetric])

section \<open>Lemmas on the queue\<close>

lemma expir_upd [simp]:
  "expir (s\<lparr>timers := ts\<rparr>) t = expir s t"
  "expir (s\<lparr>armed := ar\<rparr>) t = expir s t"
  "expir (s\<lparr>s_numCreated := n\<rparr>) t = expir s t"
  "expir (s\<lparr>callingExpiredTimers := b\<rparr>) t = expir s t"
  by (simp_all add: expir_def)

lemma timer_alive_upd [simp]:
  "timer_alive (s\<lparr>timers := ts\<rparr>) t = timer_alive s t"
  "timer_alive (s\<lparr>armed := ar\<rparr>) t = timer_alive s t"
  "timer_alive (s\<lparr>s_numCreated := n\<rparr>) t = timer_alive s t"
  "timer_alive (s\<lparr>callingExpiredTimers := b\<rparr>) t = timer_alive s t"
  by (simp_all add: timer_alive_def)

lemma timers_ok_upd [simp]:
  "timers_ok (s\<lparr>armed := ar\<rparr>) = timers_ok s"
  "timers_ok (s\<lparr>callingExpiredTimers := b\<rparr>) = timers_ok s"
  by (simp_all add: timers_ok_def list_all_iff)

lemma insert_timer_ok:
  assumes ok: "timers_ok s" and "timer_alive s t"
  shows "insert_timer t s = Inr (timers s = [] \<or> expir s t < expir s (hd (timers s)),
           s\<lparr>timers := set_insert (expir s) t (timers s)\<rparr>)"
    and "timers_ok (s\<lparr>timers := set_insert (expir s) t (timers s)\<rparr>)"
proof -
  show "insert_timer t s = Inr (timers s = [] \<or> expir s t < expir s (hd (timers s)),
           s\<lparr>timers := set_insert (expir s) t (timers s)\<rparr>)"
    using timers_okD(2) [OF ok] assms(2) by (simp add: insert_timer_def)
  have "timer_alive s u" if "u \<in> set (set_insert (expir s) t (timers s))" for u
    using that assms(2) timers_okD(1) [OF ok, of u] set_set_insert [OF timers_okD(3) [OF ok], of t]
    by (auto split: if_splits)
  then show "timers_ok (s\<lparr>timers := set_insert (expir s) t (timers s)\<rparr>)"
    using sorted_set_insert [OF timers_okD(3) [OF ok], of t] timers_okD(4) [OF ok]
    by (simp add: timers_ok_def list_all_iff)
qed

lemma getExpired_eq:
  assumes ok: "timers_ok s"
  shows "fst (getExpired now s) = filter (\<lambda>t. expir s t \<le> now) (timers s)"
    and "timers (snd (getExpired now s)) = filter (\<lambda>t. now < expir s t) (timers s)"
    and "timer_mem (snd (getExpired now s)) = timer_mem s"
    and "timers_ok (snd (getExpired now s))"
proof -
  note [simp] = sorted_prefix_filter [OF timers_okD(3) [OF ok]]
  show e: "fst (getExpired now s) = filter (\<lambda>t. expir s t \<le> now) (timers s)"
    and "timers (snd (getExpired now s)) = filter (\<lambda>t. now < expir s t) (timers s)"
    and "timer_mem (snd (getExpired now s)) = timer_mem s"
    by (simp_all add: getExpired_def)
  show "timers_ok (snd (getExpired now s))"
    using ok unfolding timers_ok_def getExpired_def
    by (auto simp: list_all_iff sorted_wrt_filter less_Suc_eq)
qed

section \<open>Expiry as an interface\<close>

text \<open>
  A queue of items with due times from which a poll at time \<open>now\<close> takes what is due. Client
  lemma: over any sequence of polls at non-decreasing times, an item is taken exactly once if it is
  due by the last poll, in the first batch at or after its due time, and otherwise stays.
\<close>

primrec expire_run :: "(int \<Rightarrow> 's \<Rightarrow> 'a list \<times> 's) \<Rightarrow> int list \<Rightarrow> 's \<Rightarrow> 'a list list \<times> 's" where
  "expire_run expire [] s = ([], s)"
| "expire_run expire (now # nows) s =
     (case expire now s of (batch, s1) \<Rightarrow>
        case expire_run expire nows s1 of (batches, s2) \<Rightarrow> (batch # batches, s2))"

locale expiry_queue =
  fixes ok :: "'s \<Rightarrow> bool"
    and queued :: "'s \<Rightarrow> 'a list"
    and due :: "'s \<Rightarrow> 'a \<Rightarrow> int"
    and expire :: "int \<Rightarrow> 's \<Rightarrow> 'a list \<times> 's"
  assumes expire_due: "ok s \<Longrightarrow> fst (expire now s) = filter (\<lambda>t. due s t \<le> now) (queued s)"
    and expire_rest: "ok s \<Longrightarrow> queued (snd (expire now s)) = filter (\<lambda>t. now < due s t) (queued s)"
    and expire_keeps: "ok s \<Longrightarrow> due (snd (expire now s)) = due s"
    and expire_ok: "ok s \<Longrightarrow> ok (snd (expire now s))"
begin

lemma run_rest:
  "ok s \<Longrightarrow> queued (snd (expire_run expire nows s)) =
     filter (\<lambda>t. \<forall>now \<in> set nows. now < due s t) (queued s)"
proof (induction nows arbitrary: s)
  case Nil
  then show ?case by simp
next
  case (Cons now nows)
  then show ?case
    using Cons.IH [OF expire_ok [OF Cons.prems, of now]] expire_rest [OF Cons.prems, of now]
      expire_keeps [OF Cons.prems, of now]
    by (simp add: case_prod_unfold conj_commute)
qed

lemma run_batch:
  assumes "ok s" and "i < length nows"
  shows "fst (expire_run expire nows s) ! i =
     filter (\<lambda>t. due s t \<le> nows ! i \<and> (\<forall>j < i. nows ! j < due s t)) (queued s)"
  using assms
proof (induction nows arbitrary: s i)
  case Nil
  then show ?case by simp
next
  case (Cons now nows)
  show ?case
  proof (cases i)
    case 0
    then show ?thesis using expire_due [OF Cons.prems(1), of now] by (simp add: case_prod_unfold)
  next
    case (Suc k)
    have "fst (expire_run expire nows (snd (expire now s))) ! k =
        filter (\<lambda>t. now < due s t \<and> due s t \<le> nows ! k \<and> (\<forall>j < k. nows ! j < due s t)) (queued s)"
      using Cons.IH [OF expire_ok [OF Cons.prems(1), of now], of k] Cons.prems Suc
        expire_rest [OF Cons.prems(1), of now] expire_keeps [OF Cons.prems(1), of now]
      by simp
    with Suc show ?thesis
      by (auto simp: case_prod_unfold All_less_Suc2 intro!: filter_cong)
  qed
qed

end

interpretation timer_expiry: expiry_queue timers_ok timers expir getExpired
  by unfold_locales (auto simp: getExpired_eq expir_def fun_eq_iff)

section \<open>Properties\<close>

text \<open>
  C14. Timers fire on time and once: when \<open>handleRead\<close> runs at the times \<open>nows\<close>, the \<open>i\<close>-th
  batch of \<open>getExpired\<close> is, in the order of expirations, exactly the timers that are due at the \<open>i\<close>-th time
  and were due at none of the earlier ones; what is left in the queue is due at none of them.
\<close>

theorem expired_batches:
  assumes "timers_ok s"
  shows "(\<forall>i < length nows. fst (expire_run getExpired nows s) ! i =
      filter (\<lambda>t. expir s t \<le> nows ! i \<and> (\<forall>j < i. nows ! j < expir s t)) (timers s)) \<and>
    timers (snd (expire_run getExpired nows s)) =
      filter (\<lambda>t. \<forall>now \<in> set nows. now < expir s t) (timers s)"
  using timer_expiry.run_batch [OF assms, of _ nows] timer_expiry.run_rest [OF assms, of nows]
  by simp

text \<open>
  C21. Adding a timer in the loop whose expiration no queued timer has: it joins the set, nothing
  else changes place, the invariant stays, and the descriptor is armed for the earliest timer
  afterwards if it was before; the descriptor is set again only when the new timer is the earliest.
\<close>

theorem addTimerInLoop_ok:
  assumes "timers_ok s" and "timer_alive s t" and "expir s t \<notin> expir s ` set (timers s)"
  shows "\<exists>s'. addTimerInLoop now t s = Inr s' \<and> timers_ok s' \<and> set (timers s') = insert t (set (timers s)) \<and>
    (armed_ok s \<longrightarrow> armed_ok s') \<and> timer_mem s' = timer_mem s \<and>
    armed s' = (if \<forall>u \<in> set (timers s). expir s t < expir s u
                then (expir s t, howMuchTimeFromNow now (expir s t)) # armed s else armed s)"
proof -
  let ?s = "s\<lparr>timers := set_insert (expir s) t (timers s)\<rparr>"
  let ?first = "timers s = [] \<or> expir s t < expir s (hd (timers s))"
  have first: "?first \<longleftrightarrow> (\<forall>u \<in> set (timers s). expir s t < expir s u)"
    using timers_okD(3) [OF assms(1)] by (cases "timers s") auto
  have eq: "addTimerInLoop now t s = Inr (if ?first then resetTimerfd now (expir s t) ?s else ?s)"
    using insert_timer_ok(1) [OF assms(1,2)] by (auto simp: addTimerInLoop_def)
  have ok: "timers_ok (if b then resetTimerfd now (expir s t) ?s else ?s)" for b
    using insert_timer_ok(2) [OF assms(1,2)] by (simp add: timers_ok_def resetTimerfd_def list_all_iff)
  have "set (timers ?s) = insert t (set (timers s))"
    using set_set_insert [OF timers_okD(3) [OF assms(1)], of t] assms(3) by simp
  moreover have "armed_ok s \<longrightarrow> armed_ok (if ?first then resetTimerfd now (expir s t) ?s else ?s)"
    by (auto simp: armed_ok_def resetTimerfd_def hd_set_insert)
  ultimately show ?thesis
    using eq ok [of ?first] unfolding first
    by (intro exI [of _ "if \<forall>u \<in> set (timers s). expir s t < expir s u then resetTimerfd now (expir s t) ?s else ?s"])
      (simp add: resetTimerfd_def)
qed

text \<open>
  A timer is lost when its expiration equals that of a queued one: \<open>TimerCmp\<close> calls the two
  equivalent, \<open>std::set::insert\<close> refuses the second, and \<open>insert\<close> ignores the answer. The timer is
  neither queued nor freed, and its callback never runs.
\<close>

theorem equal_expiration_dropped:
  assumes "timers_ok s" and "timer_alive s t" and "u \<in> set (timers s)" and "expir s u = expir s t"
  shows "addTimerInLoop now t s = Inr s"
proof -
  have "set_insert (expir s) t (timers s) = timers s"
    using timers_okD(3) [OF assms(1)] assms(3,4) by (rule set_insert_equal_key)
  moreover have "\<not> (timers s = [] \<or> expir s t < expir s (hd (timers s)))"
    using timers_okD(3) [OF assms(1)] assms(3,4) by (cases "timers s") auto
  ultimately show ?thesis
    using insert_timer_ok(1) [OF assms(1,2)] by (auto simp: addTimerInLoop_def)
qed
section \<open>Handling the timer descriptor\<close>

definition timer_frame :: "'m tloop_scheme \<Rightarrow> 'm tloop_scheme \<Rightarrow> bool" where
  "timer_frame s s' \<longleftrightarrow> timers_ok s' \<and> (\<forall>t. timer_alive s t \<longrightarrow> timer_mem s' t = timer_mem s t) \<and>
     set (timers s) \<subseteq> set (timers s') \<and> (\<forall>t \<in> set (timers s') - set (timers s). \<not> timer_alive s t)"

definition cb_of :: "'m tloop_scheme \<Rightarrow> nat \<Rightarrow> timer_cb option" where
  "cb_of s t = (case timer_mem s t of None \<Rightarrow> None | Some tm \<Rightarrow> callback tm)"

lemma timer_frameD:
  assumes "timer_frame s s'"
  shows "timers_ok s'" and "timer_alive s t \<Longrightarrow> timer_mem s' t = timer_mem s t"
    and "timer_alive s t \<Longrightarrow> timer_alive s' t" and "timer_alive s t \<Longrightarrow> expir s' t = expir s t"
    and "timer_alive s t \<Longrightarrow> cb_of s' t = cb_of s t"
    and "timer_alive s t \<Longrightarrow> t \<in> set (timers s') \<longleftrightarrow> t \<in> set (timers s)"
  using assms by (auto simp: timer_frame_def timer_alive_def expir_def cb_of_def; force)+

lemma timer_frame_refl: "timers_ok s \<Longrightarrow> timer_frame s s"
  by (simp add: timer_frame_def)

lemma timer_frame_trans:
  assumes st: "timer_frame s t" and tu: "timer_frame t u"
  shows "timer_frame s u"
proof -
  have "timer_mem u x = timer_mem s x" if "timer_alive s x" for x
    using timer_frameD(2,3) [OF st that] timer_frameD(2) [OF tu, of x] by simp
  moreover have "\<not> timer_alive s x" if "x \<in> set (timers u)" "x \<notin> set (timers s)" for x
    using that timer_frameD(3,6) [OF st, of x] timer_frameD(6) [OF tu, of x] by blast
  moreover have "set (timers s) \<subseteq> set (timers u)" "timers_ok u"
    using st tu by (auto simp: timer_frame_def)
  ultimately show ?thesis by (simp add: timer_frame_def)
qed

lemma run_expired:
  assumes cbs: "\<And>cb s. timers_ok s \<Longrightarrow> \<exists>s'. exec cb s = Inr s' \<and> timer_frame s s'"
    and "timers_ok s" and "\<And>t. t \<in> set ts \<Longrightarrow> timer_alive s t \<and> cb_of s t \<noteq> None"
  shows "\<exists>s'. rfold (run_timer exec) ts s = Inr s' \<and> timer_frame s s' \<and>
    rfold exec (map (the \<circ> cb_of s) ts) s = Inr s'"
  using assms(2,3)
proof (induction ts arbitrary: s)
  case Nil
  then show ?case by (simp add: timer_frame_refl)
next
  case (Cons t ts)
  obtain tm cb where tm: "timer_mem s t = Some tm" "callback tm = Some cb"
    using Cons.prems(2) [of t] by (auto simp: timer_alive_def cb_of_def)
  obtain s1 where s1: "exec cb s = Inr s1" "timer_frame s s1"
    using cbs [OF Cons.prems(1)] by blast
  have keep: "timer_alive s1 u \<and> cb_of s1 u = cb_of s u \<and> cb_of s u \<noteq> None" if "u \<in> set ts" for u
    using timer_frameD(3,5) [OF s1(2), of u] Cons.prems(2) [of u] that by simp
  obtain s2 where s2: "rfold (run_timer exec) ts s1 = Inr s2" "timer_frame s1 s2"
    "rfold exec (map (the \<circ> cb_of s1) ts) s1 = Inr s2"
    using Cons.IH [OF timer_frameD(1) [OF s1(2)]] keep by (auto simp: comp_def)
  have "map (the \<circ> cb_of s1) ts = map (the \<circ> cb_of s) ts"
    using keep by simp
  with s2(3) have "rfold exec (map (the \<circ> cb_of s) ts) s1 = Inr s2" by simp
  moreover have "run_timer exec t s = Inr s1" "cb_of s t = Some cb"
    using s1 tm by (simp_all add: run_timer_def cb_of_def)
  ultimately show ?case
    using s1(1) s2(1) timer_frame_trans [OF s1(2) s2(2)] by (auto simp: comp_def)
qed

text \<open>
  What \<open>reset\<close> leaves of one expired timer, in terms of the state \<open>s\<close> before: a one-shot timer is freed, a repeating one gets its next expiration, and it is in the
  queue again exactly if this is none of the expirations \<open>E\<close> that are in the queue already.
\<close>

definition reset_done :: "int \<Rightarrow> 'm tloop_scheme \<Rightarrow> 'm tloop_scheme \<Rightarrow> int set \<Rightarrow> nat \<Rightarrow> bool" where
  "reset_done now s s' E t \<longleftrightarrow>
     (case timer_mem s t of
        None \<Rightarrow> False
      | Some tm \<Rightarrow>
          if repeat tm
          then timer_mem s' t = Some (tm\<lparr>expiration := now + interval tm * ns_per_s\<rparr>) \<and>
               (t \<in> set (timers s') \<longleftrightarrow> now + interval tm * ns_per_s \<notin> E)
          else timer_mem s' t = None \<and> t \<notin> set (timers s'))"

text \<open>The next expirations of the repeating ones among some timers.\<close>

definition next_due :: "int \<Rightarrow> 'm tloop_scheme \<Rightarrow> nat list \<Rightarrow> int set" where
  "next_due now s ts = {now + interval tm * ns_per_s | t tm. t \<in> set ts \<and> timer_mem s t = Some tm \<and> repeat tm}"

lemma next_due_Cons: "next_due now s (t # ts) = next_due now s [t] \<union> next_due now s ts"
  by (auto simp: next_due_def)

lemma next_due_cong: "(\<And>t. t \<in> set ts \<Longrightarrow> timer_mem s' t = timer_mem s t) \<Longrightarrow> next_due now s' ts = next_due now s ts"
  by (auto simp: next_due_def) metis+

lemma timers_ok_mem:
  assumes ok: "timers_ok s" and new: "t \<notin> set (timers s)" and alive: "timer_alive s t"
  shows "timers_ok (s\<lparr>timer_mem := (timer_mem s)(t := x)\<rparr>)"
proof -
  let ?s = "s\<lparr>timer_mem := (timer_mem s)(t := x)\<rparr>"
  have same: "expir ?s u = expir s u" "timer_alive ?s u = timer_alive s u" if "u \<noteq> t" for u
    using that by (simp_all add: expir_def timer_alive_def)
  have "expir ?s u = expir s u \<and> timer_alive ?s u" if "u \<in> set (timers s)" for u
    using same [of u] timers_okD(1) [OF ok that] new that by auto
  moreover have "u < s_numCreated s" if "timer_alive ?s u" for u
    using same [of u] timers_okD(4) [OF ok] alive that by (cases "u = t") auto
  ultimately show ?thesis
    using timers_okD(3) [OF ok] unfolding timers_ok_def
    by (auto simp: list_all_iff elim!: sorted_wrt_mono_rel [rotated])
qed

lemma reset_one_ok:
  assumes ok: "timers_ok s" and alive: "timer_alive s t" and new: "t \<notin> set (timers s)"
  obtains s' where "reset_one now t s = Inr s'" and "timers_ok s'" and "reset_done now s s' (expir s ` set (timers s)) t"
    and "\<And>u. u \<noteq> t \<Longrightarrow> timer_mem s' u = timer_mem s u"
    and "set (timers s) \<subseteq> set (timers s')" and "set (timers s') \<subseteq> insert t (set (timers s))"
    and "expir s' ` set (timers s') = expir s ` set (timers s) \<union> next_due now s [t]"
proof -
  obtain tm where tm: "timer_mem s t = Some tm" using alive by (auto simp: timer_alive_def)
  have same: "expir (s\<lparr>timer_mem := (timer_mem s)(t := x)\<rparr>) ` set (timers s) = expir s ` set (timers s)" for x
    using new by (intro image_cong) (auto simp: expir_def)
  show thesis
  proof (cases "repeat tm")
    case False
    let ?s = "s\<lparr>timer_mem := (timer_mem s)(t := None)\<rparr>"
    have "timers_ok ?s" using ok new alive by (rule timers_ok_mem)
    moreover have "next_due now s [t] = {}" using False tm by (simp add: next_due_def)
    ultimately show thesis using False tm new same [of None]
      by (intro that [of ?s]) (auto simp: reset_one_def reset_done_def)
  next
    case True
    let ?e = "now + interval tm * ns_per_s"
    let ?tm = "tm\<lparr>expiration := ?e\<rparr>"
    let ?s = "s\<lparr>timer_mem := (timer_mem s)(t \<mapsto> ?tm)\<rparr>"
    let ?u = "?s\<lparr>timers := set_insert (expir ?s) t (timers ?s)\<rparr>"
    have restart: "Timer_restart now now tm = ?tm"
      using True by (simp add: Timer_restart_def ns_per_s_def ns_per_ms_def)
    have ok': "timers_ok ?s" using ok new alive by (rule timers_ok_mem)
    have alive': "timer_alive ?s t" by (simp add: timer_alive_def)
    have e: "expir ?s t = ?e" by (simp add: expir_def)
    have set: "set (timers ?u) = (if ?e \<in> expir s ` set (timers s) then set (timers s) else insert t (set (timers s)))"
      using set_set_insert [OF timers_okD(3) [OF ok'], of t] same [of "Some ?tm"] by (simp add: e)
    have "reset_one now t s = Inr ?u"
      using insert_timer_ok(1) [OF ok' alive'] tm True restart by (simp add: reset_one_def)
    moreover have "timers_ok ?u" using insert_timer_ok(2) [OF ok' alive'] .
    moreover have "reset_done now s ?u (expir s ` set (timers s)) t" using tm True set new by (simp add: reset_done_def)
    moreover have "expir ?u ` set (timers ?u) = expir s ` set (timers s) \<union> next_due now s [t]"
    proof -
      have "next_due now s [t] = {?e}" using tm True by (simp add: next_due_def)
      moreover have "expir ?u ` set (timers ?u) = (if ?e \<in> expir s ` set (timers s) then expir s ` set (timers s) else insert ?e (expir s ` set (timers s)))"
        unfolding set using same [of "Some ?tm"] e by simp
      ultimately show ?thesis by auto
    qed
    ultimately show thesis using set by (intro that [of ?u]) auto
  qed
qed

lemma reset_fold_ok:
  assumes "timers_ok s" and "distinct ts" and "\<And>t. t \<in> set ts \<Longrightarrow> timer_alive s t \<and> t \<notin> set (timers s)"
  shows "\<exists>s'. rfold (reset_one now) ts s = Inr s' \<and> timers_ok s' \<and>
    (\<forall>xs t ys. ts = xs @ t # ys \<longrightarrow> reset_done now s s' (expir s ` set (timers s) \<union> next_due now s xs) t) \<and>
    (\<forall>u. u \<notin> set ts \<longrightarrow> timer_mem s' u = timer_mem s u) \<and> set (timers s) \<subseteq> set (timers s') \<and>
    set (timers s') \<subseteq> set ts \<union> set (timers s)"
  using assms
proof (induction ts arbitrary: s)
  case Nil
  then show ?case by simp
next
  case (Cons t ts)
  have pre: "timer_alive s t" "t \<notin> set (timers s)" using Cons.prems(3) by auto
  obtain s1 where s1: "reset_one now t s = Inr s1" "timers_ok s1" "reset_done now s s1 (expir s ` set (timers s)) t"
    "\<And>u. u \<noteq> t \<Longrightarrow> timer_mem s1 u = timer_mem s u"
    "set (timers s) \<subseteq> set (timers s1)" "set (timers s1) \<subseteq> insert t (set (timers s))"
    "expir s1 ` set (timers s1) = expir s ` set (timers s) \<union> next_due now s [t]"
    by (rule reset_one_ok [OF Cons.prems(1) pre, of now]) (rule that)
  have "timer_alive s1 u \<and> u \<notin> set (timers s1)" if "u \<in> set ts" "u \<noteq> t" for u
    using Cons.prems(2) Cons.prems(3) [of u] s1(4) [of u] s1(6) that by (auto simp: timer_alive_def)
  then obtain s2 where s2: "rfold (reset_one now) ts s1 = Inr s2" "timers_ok s2"
    "\<And>xs u ys. ts = xs @ u # ys \<Longrightarrow> reset_done now s1 s2 (expir s1 ` set (timers s1) \<union> next_due now s1 xs) u"
    "\<And>u. u \<notin> set ts \<Longrightarrow> timer_mem s2 u = timer_mem s1 u" "set (timers s1) \<subseteq> set (timers s2)"
    "set (timers s2) \<subseteq> set ts \<union> set (timers s1)"
    using Cons.IH [OF s1(2)] Cons.prems(2) by (metis distinct.simps(2))
  have first: "reset_done now s s2 (expir s ` set (timers s)) t"
  proof -
    have "t \<in> set (timers s2) \<longleftrightarrow> t \<in> set (timers s1)" using s2(5,6) Cons.prems(2) by auto
    moreover have "timer_mem s2 t = timer_mem s1 t" using s2(4) Cons.prems(2) by simp
    ultimately show ?thesis using s1(3) by (auto simp: reset_done_def split: option.splits)
  qed
  have "reset_done now s s2 (expir s ` set (timers s) \<union> next_due now s xs) u" if "t # ts = xs @ u # ys" for xs u ys
  proof (cases xs)
    case Nil
    then show ?thesis using that first by (simp add: next_due_def)
  next
    case (Cons x xs')
    then have at: "x = t" "ts = xs' @ u # ys" using that by simp_all
    then have "u \<noteq> t" "t \<notin> set xs'" using Cons.prems(2) by auto
    then have mem: "timer_mem s1 u = timer_mem s u" "next_due now s1 xs' = next_due now s xs'"
      using s1(4) by (simp, intro next_due_cong) (metis s1(4))
    have "expir s1 ` set (timers s1) \<union> next_due now s1 xs' = expir s ` set (timers s) \<union> next_due now s xs"
      unfolding s1(7) mem(2) Cons at(1) next_due_Cons [of now s t xs'] by (simp add: Un_assoc)
    then show ?thesis using s2(3) [OF at(2)] mem(1) by (simp add: reset_done_def)
  qed
  then show ?case
    using s1 s2 by (intro exI [of _ s2]) auto
qed


lemma us_split: "(us div 1000 div 1000) * 1000000000 + (us mod 1000000) * 1000 = us * (1000 :: int)"
proof -
  have "us div 1000 div 1000 = us div 1000000"
    by (simp add: zdiv_zmult2_eq [symmetric])
  then show ?thesis by presburger
qed

lemma sdiv_thousand: "(x :: int) sdiv 1000 = (if 0 \<le> x then x div 1000 else - ((- x) div 1000))"
  by (simp add: signed_divide_int_def sgn_if)

lemma us_bound:
  assumes "us = max ((x :: int) sdiv 1000) 100"
  shows "100 \<le> us" and "us * 1000 \<le> max 100000 x" and "x < us * 1000 + 1000"
  using assms unfolding sdiv_thousand max_def by (auto split: if_splits)

text \<open>
  The delay written to the timer descriptor is a legal \<open>timespec\<close>, at least 100 microseconds
  (so the timer is never disarmed by a zero delay), and otherwise the time to the expiration
  rounded down by less than a microsecond.
\<close>

theorem howMuchTimeFromNow_bounds:
  fixes now due :: int
  defines "ts \<equiv> howMuchTimeFromNow now due"
  defines "ns \<equiv> tv_sec ts * ns_per_s + tv_nsec ts"
  shows "0 \<le> tv_sec ts \<and> 0 \<le> tv_nsec ts \<and> tv_nsec ts < ns_per_s \<and> 100000 \<le> ns \<and>
    ns \<le> max 100000 (due - now) \<and> due - now < ns + 1000"
proof -
  define us where "us = max ((due - now) sdiv 1000) 100"
  have ts: "tv_sec ts = us div 1000 div 1000" "tv_nsec ts = (us mod 1000000) * 1000"
    by (simp_all add: ts_def howMuchTimeFromNow_def us_def Let_def)
  have "ns = us * 1000"
    unfolding ns_def ts ns_per_s_def by (rule us_split)
  then show ?thesis
    using us_bound [OF us_def] ts by (simp add: ns_per_s_def)
qed

lemma addTimer_mem:
  assumes "addTimer now tid cb when ivl s = Inr (tid', s')"
  shows "timer_ptr tid' = s_numCreated s"
    and "timer_mem s' (timer_ptr tid') = Some (Timer_ctor cb when ivl (s_numCreated s))"
  using assms
  by (auto simp: addTimer_def new_timer_def runInLoop_def queueInLoop_def queue_wake_def queue_push_def wakeup_def
      addTimerInLoop_def insert_timer_def resetTimerfd_def Let_def result_simps split: if_splits)

text \<open>
  \<open>runEvery\<close> repeats only for an interval of at least one second: \<open>addTimer\<close> takes the interval
  as \<open>int64_t\<close>, so its fraction is cut off, and a shorter interval makes a one-shot timer. The first
  expiration keeps the milliseconds of the interval.
\<close>

theorem runEvery_truncates:
  assumes "runEvery now now' tid ivl cb s = Inr (tid', s')" and "0 < ivl"
  shows "\<exists>tm. timer_mem s' (timer_ptr tid') = Some tm \<and> expiration tm = now + \<lfloor>ivl * 1000\<rfloor> * ns_per_ms \<and>
    interval tm = \<lfloor>ivl\<rfloor> \<and> (repeat tm \<longleftrightarrow> 1 \<le> ivl)"
  using addTimer_mem(2) [OF assms(1) [unfolded runEvery_def]] assms(2)
  by (simp add: Timer_ctor_def trunc_def zero_less_floor)

section \<open>Witnesses\<close>

definition sample_timers :: tloop where
  "sample_timers = loop.extend sample_loop
     \<lparr>timer_mem = [0 \<mapsto> Timer_ctor (Some (TC_user 1)) 500 0 0, 1 \<mapsto> Timer_ctor (Some (TC_user 2)) 700 3 1,
                   2 \<mapsto> Timer_ctor (Some (TC_user 3)) 900 0 2, 3 \<mapsto> Timer_ctor (Some (TC_user 4)) 700 0 3,
                   4 \<mapsto> Timer_ctor (Some (TC_user 5)) 400 0 4],
      timers = [0, 1, 2], s_numCreated = 5, callingExpiredTimers = False, timerfd = 4, armed = []\<rparr>"

lemma sample_timers_simps [simp]:
  "timers sample_timers = [0, 1, 2]" "s_numCreated sample_timers = 5" "armed sample_timers = []"
  "timer_mem sample_timers = [0 \<mapsto> Timer_ctor (Some (TC_user 1)) 500 0 0, 1 \<mapsto> Timer_ctor (Some (TC_user 2)) 700 3 1,
     2 \<mapsto> Timer_ctor (Some (TC_user 3)) 900 0 2, 3 \<mapsto> Timer_ctor (Some (TC_user 4)) 700 0 3,
     4 \<mapsto> Timer_ctor (Some (TC_user 5)) 400 0 4]"
  "threadId sample_timers = 3"
  by (simp_all add: sample_timers_def loop.defs sample_loop_eq)

lemma sample_timers_ok: "timers_ok sample_timers"
  by (auto simp: timers_ok_def timer_alive_def expir_def Timer_ctor_def split: if_splits)

theorem expired_batches_witness:
  "timers_ok sample_timers \<and> fst (expire_run getExpired [600, 650, 800] sample_timers) = [[0], [], [1]] \<and>
   fst (expire_run getExpired [600, 650, 800] sample_timers) ! 2 = [1]"
  using sample_timers_ok expired_batches [OF sample_timers_ok, of "[600, 650, 800]"]
  by (auto simp: getExpired_def expir_def Timer_ctor_def numeral_2_eq_2 All_less_Suc)

theorem addTimerInLoop_ok_witness:
  "timers_ok sample_timers \<and> timer_alive sample_timers 4 \<and>
   expir sample_timers 4 \<notin> expir sample_timers ` set (timers sample_timers) \<and>
   (\<exists>s'. addTimerInLoop 100 4 sample_timers = Inr s' \<and> set (timers s') = {4, 0, 1, 2} \<and>
      armed s' = [(400, howMuchTimeFromNow 100 400)])"
proof -
  have pre: "timer_alive sample_timers 4" "expir sample_timers 4 \<notin> expir sample_timers ` set (timers sample_timers)"
    by (simp_all add: timer_alive_def expir_def Timer_ctor_def)
  from addTimerInLoop_ok [OF sample_timers_ok pre, of 100] pre sample_timers_ok show ?thesis
    by (auto simp: expir_def Timer_ctor_def)
qed

theorem equal_expiration_dropped_witness:
  "timers_ok sample_timers \<and> timer_alive sample_timers 3 \<and> 1 \<in> set (timers sample_timers) \<and>
   expir sample_timers 1 = expir sample_timers 3 \<and> addTimerInLoop 100 3 sample_timers = Inr sample_timers"
  using sample_timers_ok equal_expiration_dropped [OF sample_timers_ok, of 3 1 100]
  by (simp add: timer_alive_def expir_def Timer_ctor_def)


theorem runEvery_truncates_witness:
  "(0 :: rat) < 1 / 2 \<and> (\<exists>r s' tm. runEvery 1000 1010 3 (1 / 2) (Some (TC_user 9)) sample_timers = Inr (r, s') \<and>
     timer_mem s' (timer_ptr r) = Some tm \<and> \<not> repeat tm)"
proof -
  obtain r s' where r: "runEvery 1000 1010 3 (1 / 2) (Some (TC_user 9)) sample_timers = Inr (r, s')"
    by (simp add: runEvery_def addTimer_def new_timer_def runInLoop_def isInLoopThread_def addTimerInLoop_def
        insert_timer_def timer_alive_def Let_def)
  from runEvery_truncates [OF r] r show ?thesis by auto
qed

end
