(* ===== verification/Siren_Sockets.thy ===== *)
theory Siren_Sockets
  imports Siren_Prelude
begin

text \<open>
  Addresses and socket calls: \<open>include/siren/net/Endian.h\<close>, \<open>src/net/InetAddress.cpp\<close>,
  \<open>src/net/SocketsOps.cpp\<close>, \<open>src/net/Socket.cpp\<close>.

  An \<open>InetAddress\<close> is the union of \<open>sockaddr_in\<close> and \<open>sockaddr_in6\<close>. The record has the fields of
  \<open>sockaddr_in6\<close>; the 32 bits at offset 4 are \<open>sin6_flowinfo\<close> in one view and \<open>sin_addr\<close> in the other, and are
  called \<open>sin_addr\<close> here. The constructors that set the IPv4 view leave the last 12 bytes of the
  object as they were, so they take the previous contents as an argument.

  The host is little endian, so \<open>htobe16\<close> and its relatives reverse bytes. \<open>inet_ntop\<close> and \<open>inet_pton\<close>
  are the C library's: the IPv4 forms are given here (four decimal numbers and dots), the IPv6 forms
  are arguments. \<open>snprintf_at\<close> writes a string at a position of a character array of a given size
  and cuts it so that the terminating zero fits.
\<close>

section \<open>Endian\<close>

definition hostToNetwork16 :: "16 word \<Rightarrow> 16 word" where
  "hostToNetwork16 x = push_bit 8 x OR drop_bit 8 x"

definition hostToNetwork32 :: "32 word \<Rightarrow> 32 word" where
  "hostToNetwork32 x =
     push_bit 16 (ucast (hostToNetwork16 (ucast x))) OR ucast (hostToNetwork16 (ucast (drop_bit 16 x)))"

definition hostToNetwork64 :: "64 word \<Rightarrow> 64 word" where
  "hostToNetwork64 x =
     push_bit 32 (ucast (hostToNetwork32 (ucast x))) OR ucast (hostToNetwork32 (ucast (drop_bit 32 x)))"

definition networkToHost16 :: "16 word \<Rightarrow> 16 word" where
  "networkToHost16 x = push_bit 8 x OR drop_bit 8 x"

definition networkToHost32 :: "32 word \<Rightarrow> 32 word" where
  "networkToHost32 x =
     push_bit 16 (ucast (networkToHost16 (ucast x))) OR ucast (networkToHost16 (ucast (drop_bit 16 x)))"

definition networkToHost64 :: "64 word \<Rightarrow> 64 word" where
  "networkToHost64 x =
     push_bit 32 (ucast (networkToHost32 (ucast x))) OR ucast (networkToHost32 (ucast (drop_bit 32 x)))"

lemma networkToHost16_inverse [simp]: "networkToHost16 (hostToNetwork16 x) = x"
  by (rule bit_word_eqI) (auto simp: networkToHost16_def hostToNetwork16_def bit_simps)

text \<open>A word as its two halves.\<close>

lemma halves32:
  fixes a b :: "16 word" and x :: "32 word"
  shows "(ucast (push_bit 16 (ucast a) OR ucast b :: 32 word) :: 16 word) = b"
    and "(ucast (drop_bit 16 (push_bit 16 (ucast a) OR ucast b :: 32 word)) :: 16 word) = a"
    and "push_bit 16 (ucast (ucast (drop_bit 16 x) :: 16 word)) OR ucast (ucast x :: 16 word) = x"
  by (rule bit_word_eqI; auto simp: bit_simps dest: bit_imp_le_length)+

lemma halves64:
  fixes a b :: "32 word" and x :: "64 word"
  shows "(ucast (push_bit 32 (ucast a) OR ucast b :: 64 word) :: 32 word) = b"
    and "(ucast (drop_bit 32 (push_bit 32 (ucast a) OR ucast b :: 64 word)) :: 32 word) = a"
    and "push_bit 32 (ucast (ucast (drop_bit 32 x) :: 32 word)) OR ucast (ucast x :: 32 word) = x"
  by (rule bit_word_eqI; auto simp: bit_simps dest: bit_imp_le_length)+

lemma networkToHost32_inverse [simp]: "networkToHost32 (hostToNetwork32 x) = x"
  by (simp only: networkToHost32_def hostToNetwork32_def halves32 networkToHost16_inverse)

lemma networkToHost64_inverse [simp]: "networkToHost64 (hostToNetwork64 x) = x"
  by (simp only: networkToHost64_def hostToNetwork64_def halves64 networkToHost32_inverse)

text \<open>The templates, for the integral types: the size of the type selects the function, other sizes are left alone.\<close>

definition hostToNetwork :: "'a::len word \<Rightarrow> 'a word" where
  "hostToNetwork t =
     (if LENGTH('a) = 16 then ucast (hostToNetwork16 (ucast t))
      else if LENGTH('a) = 32 then ucast (hostToNetwork32 (ucast t))
      else if LENGTH('a) = 64 then ucast (hostToNetwork64 (ucast t))
      else t)"

definition NetworkToHost :: "'a::len word \<Rightarrow> 'a word" where
  "NetworkToHost t =
     (if LENGTH('a) = 16 then ucast (networkToHost16 (ucast t))
      else if LENGTH('a) = 32 then ucast (networkToHost32 (ucast t))
      else if LENGTH('a) = 64 then ucast (networkToHost64 (ucast t))
      else t)"

lemma ucast_same_size: "LENGTH('a::len) = LENGTH('b::len) \<Longrightarrow> ucast (ucast (x :: 'a word) :: 'b word) = x"
  by (rule bit_word_eqI) (simp add: bit_simps)

lemma NetworkToHost_inverse: "NetworkToHost (hostToNetwork t) = t" for t :: "'a::len word"
proof -
  have "ucast (networkToHost16 (ucast (ucast (hostToNetwork16 (ucast t)) :: 'a word))) = t" if "LENGTH('a) = 16"
    using that by (simp add: ucast_same_size)
  moreover have "ucast (networkToHost32 (ucast (ucast (hostToNetwork32 (ucast t)) :: 'a word))) = t" if "LENGTH('a) = 32"
    using that by (simp add: ucast_same_size)
  moreover have "ucast (networkToHost64 (ucast (ucast (hostToNetwork64 (ucast t)) :: 'a word))) = t" if "LENGTH('a) = 64"
    using that by (simp add: ucast_same_size)
  ultimately show ?thesis by (simp add: NetworkToHost_def hostToNetwork_def)
qed

section \<open>Addresses\<close>

definition AF_INET :: "16 word" where "AF_INET = 2"
definition AF_INET6 :: "16 word" where "AF_INET6 = 10"
definition INET_ADDRSTRLEN :: nat where "INET_ADDRSTRLEN = 16"
definition INET6_ADDRSTRLEN :: nat where "INET6_ADDRSTRLEN = 46"
definition kInaddrAny :: "32 word" where "kInaddrAny = 0"
definition kInaddrLoopback :: "32 word" where "kInaddrLoopback = 0x7f000001"

definition in6addr_any :: "byte list" where "in6addr_any = replicate 16 0"
definition in6addr_loopback :: "byte list" where "in6addr_loopback = replicate 15 0 @ [1]"

record InetAddress =
  sin_family :: "16 word"
  sin_port :: "16 word"
  sin_addr :: "32 word"
  sin6_addr :: "byte list"
  sin6_scope_id :: "32 word"

definition zero_addr :: InetAddress where
  "zero_addr = \<lparr>sin_family = 0, sin_port = 0, sin_addr = 0, sin6_addr = replicate 16 0, sin6_scope_id = 0\<rparr>"

text \<open>\<open>memset\<close> of the 16 bytes of the IPv4 view.\<close>

definition zero_addr4 :: "InetAddress \<Rightarrow> InetAddress" where
  "zero_addr4 old = old\<lparr>sin_family := 0, sin_port := 0, sin_addr := 0,
     sin6_addr := replicate 8 0 @ drop 8 (sin6_addr old)\<rparr>"

definition InetAddress_ctor :: "InetAddress \<Rightarrow> 16 word \<Rightarrow> bool \<Rightarrow> bool \<Rightarrow> InetAddress" where
  "InetAddress_ctor old portArg loopbackOnly ipv6 =
     (if ipv6
      then zero_addr\<lparr>sin_family := AF_INET6,
             sin6_addr := (if loopbackOnly then in6addr_loopback else in6addr_any),
             sin_port := hostToNetwork16 portArg\<rparr>
      else (zero_addr4 old)\<lparr>sin_family := AF_INET,
             sin_addr := hostToNetwork32 (if loopbackOnly then kInaddrLoopback else kInaddrAny),
             sin_port := hostToNetwork16 portArg\<rparr>)"

definition portNetEndian :: "InetAddress \<Rightarrow> 16 word" where
  "portNetEndian a = sin_port a"

definition InetAddress_port :: "InetAddress \<Rightarrow> 16 word" where
  "InetAddress_port a = networkToHost16 (portNetEndian a)"

definition ipv4NetEndian :: "InetAddress \<Rightarrow> (32 word) result" where
  "ipv4NetEndian a = (if sin_family a = AF_INET then Inr (sin_addr a) else Inl (Assert_failed ''family() == AF_INET''))"

definition setScopeId :: "32 word \<Rightarrow> InetAddress \<Rightarrow> InetAddress" where
  "setScopeId scope_id a = (if sin_family a = AF_INET6 then a\<lparr>sin6_scope_id := scope_id\<rparr> else a)"

text \<open>
  \<open>resolve\<close>: the answer of \<open>gethostbyname_r\<close> is its return value and the entry, if any (address type,
  length, address).
\<close>

definition InetAddress_resolve :: "int \<times> (16 word \<times> nat \<times> 32 word) option \<Rightarrow> InetAddress \<Rightarrow> (bool \<times> InetAddress) result" where
  "InetAddress_resolve answer out =
     (case answer of
        (ret, Some (h_addrtype, h_length, h_addr)) \<Rightarrow>
          if ret = 0
          then (if h_addrtype = AF_INET \<and> h_length = 4 then Inr (True, out\<lparr>sin_addr := h_addr\<rparr>)
                else Inl (Assert_failed ''he->h_addrtype == AF_INET''))
          else Inr (False, out)
      | (ret, None) \<Rightarrow> Inr (False, out))"

section \<open>Text form of addresses\<close>

definition octet :: "32 word \<Rightarrow> nat \<Rightarrow> nat" where
  "octet x i = unat (ucast (drop_bit (8 * i) x) :: byte)"

definition inet_ntop4 :: "32 word \<Rightarrow> string" where
  "inet_ntop4 x = show_nat (octet x 0) @ ''.'' @ show_nat (octet x 1) @ ''.'' @
     show_nat (octet x 2) @ ''.'' @ show_nat (octet x 3)"

fun split_on :: "char \<Rightarrow> string \<Rightarrow> string list" where
  "split_on c [] = [[]]"
| "split_on c (x # xs) =
     (if x = c then [] # split_on c xs
      else case split_on c xs of [] \<Rightarrow> [[x]] | y # ys \<Rightarrow> (x # y) # ys)"

definition is_digit :: "char \<Rightarrow> bool" where
  "is_digit c \<longleftrightarrow> 48 \<le> (of_char c :: nat) \<and> (of_char c :: nat) \<le> 57"

definition parse_octet :: "string \<Rightarrow> nat option" where
  "parse_octet s =
     (if s = [] \<or> 3 < length s \<or> \<not> list_all is_digit s \<or> (1 < length s \<and> hd s = CHR ''0'') then None
      else let v = fold (\<lambda>c n. 10 * n + (of_char c - 48)) s 0 in if v \<le> 255 then Some v else None)"

definition join_octets :: "nat \<Rightarrow> nat \<Rightarrow> nat \<Rightarrow> nat \<Rightarrow> 32 word" where
  "join_octets a b c d = push_bit 24 (of_nat d) OR push_bit 16 (of_nat c) OR push_bit 8 (of_nat b) OR of_nat a"

definition inet_pton4 :: "string \<Rightarrow> (32 word) option" where
  "inet_pton4 s =
     (case map parse_octet (split_on (CHR ''.'') s) of
        [Some a, Some b, Some c, Some d] \<Rightarrow> Some (join_octets a b c d)
      | _ \<Rightarrow> None)"

definition snprintf_at :: "nat \<Rightarrow> string \<Rightarrow> string \<Rightarrow> string" where
  "snprintf_at sz pre str = pre @ take (sz - length pre - 1) str"

definition toIp :: "(byte list \<Rightarrow> string) \<Rightarrow> nat \<Rightarrow> InetAddress \<Rightarrow> string result" where
  "toIp ntop6 sz a =
     (if sin_family a = AF_INET
      then (if INET_ADDRSTRLEN \<le> sz then Inr (inet_ntop4 (sin_addr a))
            else Inl (Assert_failed ''size >= INET_ADDRSTRLEN''))
      else if sin_family a = AF_INET6
      then (if INET6_ADDRSTRLEN \<le> sz then Inr (ntop6 (sin6_addr a))
            else Inl (Assert_failed ''size >= INET6_ADDRSTRLEN''))
      else Inr [])"

definition toIpPort :: "(byte list \<Rightarrow> string) \<Rightarrow> nat \<Rightarrow> InetAddress \<Rightarrow> string result" where
  "toIpPort ntop6 sz a =
     (if sin_family a = AF_INET6
      then rbind (toIp ntop6 (sz - 1) a) (\<lambda>ip.
             let pre = ''['' @ ip in
             if length pre < sz
             then Inr (snprintf_at sz pre ('']:'' @ show_nat (unat (networkToHost16 (sin_port a)))))
             else Inl (Assert_failed ''size > end''))
      else rbind (toIp ntop6 sz a) (\<lambda>ip.
             if length ip < sz
             then Inr (snprintf_at sz ip ('':'' @ show_nat (unat (networkToHost16 (sin_port a)))))
             else Inl (Assert_failed ''size > end'')))"

definition InetAddress_toIp :: "(byte list \<Rightarrow> string) \<Rightarrow> InetAddress \<Rightarrow> string result" where
  "InetAddress_toIp ntop6 a = toIp ntop6 64 a"

definition InetAddress_toIpPort :: "(byte list \<Rightarrow> string) \<Rightarrow> InetAddress \<Rightarrow> string result" where
  "InetAddress_toIpPort ntop6 a = toIpPort ntop6 64 a"

definition fromIpPort4 :: "string \<Rightarrow> 16 word \<Rightarrow> InetAddress \<Rightarrow> InetAddress" where
  "fromIpPort4 ip port a =
     (let b = a\<lparr>sin_family := AF_INET, sin_port := hostToNetwork16 port\<rparr>
      in case inet_pton4 ip of None \<Rightarrow> b | Some x \<Rightarrow> b\<lparr>sin_addr := x\<rparr>)"

definition fromIpPort6 :: "(string \<Rightarrow> byte list option) \<Rightarrow> string \<Rightarrow> 16 word \<Rightarrow> InetAddress \<Rightarrow> InetAddress" where
  "fromIpPort6 pton6 ip port a =
     (let b = a\<lparr>sin_family := AF_INET6, sin_port := hostToNetwork16 port\<rparr>
      in case pton6 ip of None \<Rightarrow> b | Some x \<Rightarrow> b\<lparr>sin6_addr := x\<rparr>)"

definition InetAddress_of_ip :: "(string \<Rightarrow> byte list option) \<Rightarrow> InetAddress \<Rightarrow> string \<Rightarrow> 16 word \<Rightarrow> bool \<Rightarrow> InetAddress" where
  "InetAddress_of_ip pton6 old ip portArg ipv6 =
     (if ipv6 \<or> CHR '':'' \<in> set ip then fromIpPort6 pton6 ip portArg zero_addr
      else fromIpPort4 ip portArg (zero_addr4 old))"

section \<open>Socket calls\<close>

text \<open>
  The calls that change kernel state, recorded oldest first. A \<open>write\<close> has the bytes offered and the
  kernel's answer: how many it took, or the error.
\<close>

datatype sockopt = SO_REUSEADDR | SO_REUSEPORT | SO_KEEPALIVE | TCP_NODELAY

datatype sys_call =
    Sys_socket "16 word"
  | Sys_bind fd InetAddress
  | Sys_listen fd
  | Sys_accept fd "errno + fd"
  | Sys_connect fd InetAddress
  | Sys_write fd "byte list" "errno + nat"
  | Sys_readv fd "errno + byte list"
  | Sys_shutdown fd
  | Sys_close fd
  | Sys_open_null fd
  | Sys_setsockopt fd sockopt int

type_synonym sys_trace = "sys_call list"

definition EPERM :: errno where "EPERM = 1"
definition EINTR :: errno where "EINTR = 4"
definition EBADF :: errno where "EBADF = 9"
definition EAGAIN :: errno where "EAGAIN = 11"
definition ENOMEM :: errno where "ENOMEM = 12"
definition EACCES :: errno where "EACCES = 13"
definition EFAULT :: errno where "EFAULT = 14"
definition EINVAL :: errno where "EINVAL = 22"
definition ENFILE :: errno where "ENFILE = 23"
definition EMFILE :: errno where "EMFILE = 24"
definition EPIPE :: errno where "EPIPE = 32"
definition EPROTO :: errno where "EPROTO = 71"
definition ENOTSOCK :: errno where "ENOTSOCK = 88"
definition EOPNOTSUPP :: errno where "EOPNOTSUPP = 95"
definition EAFNOSUPPORT :: errno where "EAFNOSUPPORT = 97"
definition EADDRINUSE :: errno where "EADDRINUSE = 98"
definition EADDRNOTAVAIL :: errno where "EADDRNOTAVAIL = 99"
definition ENETUNREACH :: errno where "ENETUNREACH = 101"
definition ECONNABORTED :: errno where "ECONNABORTED = 103"
definition ECONNRESET :: errno where "ECONNRESET = 104"
definition ENOBUFS :: errno where "ENOBUFS = 105"
definition EISCONN :: errno where "EISCONN = 106"
definition ECONNREFUSED :: errno where "ECONNREFUSED = 111"
definition EALREADY :: errno where "EALREADY = 114"
definition EINPROGRESS :: errno where "EINPROGRESS = 115"

lemmas errno_defs = EPERM_def EINTR_def EBADF_def EAGAIN_def ENOMEM_def EACCES_def EFAULT_def EINVAL_def
  ENFILE_def EMFILE_def EPIPE_def EPROTO_def ENOTSOCK_def EOPNOTSUPP_def EAFNOSUPPORT_def EADDRINUSE_def
  EADDRNOTAVAIL_def ENETUNREACH_def ECONNABORTED_def ECONNRESET_def ENOBUFS_def EISCONN_def ECONNREFUSED_def
  EALREADY_def EINPROGRESS_def

datatype accept_error = Expected_error | Unexpected_error | Unknown_error

definition accept_classify :: "errno \<Rightarrow> accept_error" where
  "accept_classify e =
     (if e \<in> {EAGAIN, ECONNABORTED, EINTR, EPROTO, EPERM, EMFILE} then Expected_error
      else if e \<in> {EBADF, EFAULT, EINVAL, ENFILE, ENOBUFS, ENOMEM, ENOTSOCK, EOPNOTSUPP} then Unexpected_error
      else Unknown_error)"

text \<open>
  \<open>Socket::accept\<close> on the answer of \<open>accept4\<close>: the descriptor and the peer address, or the error. The result has
  the descriptor or -1, the class of the error that was logged, and the new \<open>*peeraddr\<close>.
\<close>

definition Socket_accept :: "errno + fd \<times> InetAddress \<Rightarrow> InetAddress \<Rightarrow> fd \<times> accept_error option \<times> InetAddress" where
  "Socket_accept answer peeraddr =
     (case answer of
        Inl e \<Rightarrow> (-1, Some (accept_classify e), peeraddr)
      | Inr (connfd, addr) \<Rightarrow> (connfd, None, if 0 \<le> connfd then addr else peeraddr))"

text \<open>
  The functions of \<open>namespace sockets\<close> that wrap one system call. Their error branches only write a log line, also those of
  the functions called \<open>OrDie\<close>; \<open>createNonblockingOrDie\<close> returns what \<open>socket\<close> returned, negative on failure.
\<close>

definition sockets_createNonblockingOrDie :: "fd \<Rightarrow> 16 word \<Rightarrow> sys_trace \<Rightarrow> fd \<times> sys_trace" where
  "sockets_createNonblockingOrDie answer family tr = (answer, tr @ [Sys_socket family])"

definition sockets_bindOrDie :: "fd \<Rightarrow> InetAddress \<Rightarrow> sys_trace \<Rightarrow> sys_trace" where
  "sockets_bindOrDie sockfd a tr = tr @ [Sys_bind sockfd a]"

definition sockets_listenOrDie :: "fd \<Rightarrow> sys_trace \<Rightarrow> sys_trace" where
  "sockets_listenOrDie sockfd tr = tr @ [Sys_listen sockfd]"

definition sockets_connect :: "fd \<Rightarrow> InetAddress \<Rightarrow> sys_trace \<Rightarrow> sys_trace" where
  "sockets_connect sockfd a tr = tr @ [Sys_connect sockfd a]"

definition sockets_close :: "fd \<Rightarrow> sys_trace \<Rightarrow> sys_trace" where
  "sockets_close sockfd tr = tr @ [Sys_close sockfd]"

definition sockets_shutdownWrite :: "fd \<Rightarrow> sys_trace \<Rightarrow> sys_trace" where
  "sockets_shutdownWrite sockfd tr = tr @ [Sys_shutdown sockfd]"

lemmas sockets_defs [simp] = sockets_createNonblockingOrDie_def sockets_bindOrDie_def sockets_listenOrDie_def
  sockets_connect_def sockets_close_def sockets_shutdownWrite_def

definition Socket_bindAddress :: "fd \<Rightarrow> InetAddress \<Rightarrow> sys_trace \<Rightarrow> sys_trace" where
  "Socket_bindAddress sockfd a tr = sockets_bindOrDie sockfd a tr"

definition Socket_listen :: "fd \<Rightarrow> sys_trace \<Rightarrow> sys_trace" where
  "Socket_listen sockfd tr = sockets_listenOrDie sockfd tr"

definition Socket_shutdownWrite :: "fd \<Rightarrow> sys_trace \<Rightarrow> sys_trace" where
  "Socket_shutdownWrite sockfd tr = sockets_shutdownWrite sockfd tr"

definition Socket_dtor :: "fd \<Rightarrow> sys_trace \<Rightarrow> sys_trace" where
  "Socket_dtor sockfd tr = sockets_close sockfd tr"

text \<open>
  \<open>getTcpInfo\<close> clears the structure and lets the kernel fill it in; \<open>answer\<close> is the result of getsockopt(2). The text has the fields that
  \<open>getTcpInfoString\<close> prints, with \<open>%u\<close>; \<open>snprintf\<close> cuts it to the buffer and leaves the buffer alone if the call has failed.
\<close>

record tcp_info =
  tcpi_retransmits :: "8 word"
  tcpi_rto :: "32 word"
  tcpi_ato :: "32 word"
  tcpi_snd_mss :: "32 word"
  tcpi_rcv_mss :: "32 word"
  tcpi_lost :: "32 word"
  tcpi_retrans :: "32 word"
  tcpi_rtt :: "32 word"
  tcpi_rttvar :: "32 word"
  tcpi_snd_ssthresh :: "32 word"
  tcpi_snd_cwnd :: "32 word"
  tcpi_total_retrans :: "32 word"

definition Socket_getTcpInfo :: "errno + tcp_info \<Rightarrow> bool \<times> tcp_info" where
  "Socket_getTcpInfo answer =
     (case answer of
        Inr info \<Rightarrow> (True, info)
      | Inl err \<Rightarrow> (False, \<lparr>tcpi_retransmits = 0, tcpi_rto = 0, tcpi_ato = 0, tcpi_snd_mss = 0, tcpi_rcv_mss = 0, tcpi_lost = 0,
          tcpi_retrans = 0, tcpi_rtt = 0, tcpi_rttvar = 0, tcpi_snd_ssthresh = 0, tcpi_snd_cwnd = 0, tcpi_total_retrans = 0\<rparr>))"

definition tcp_info_text :: "tcp_info \<Rightarrow> string" where
  "tcp_info_text i =
     ''unrecovered='' @ show_nat (unat (tcpi_retransmits i)) @ '' rto='' @ show_nat (unat (tcpi_rto i)) @
     '' ato='' @ show_nat (unat (tcpi_ato i)) @ '' snd_mss='' @ show_nat (unat (tcpi_snd_mss i)) @
     '' rcv_mss='' @ show_nat (unat (tcpi_rcv_mss i)) @ '' lost='' @ show_nat (unat (tcpi_lost i)) @
     '' retrans='' @ show_nat (unat (tcpi_retrans i)) @ '' rtt='' @ show_nat (unat (tcpi_rtt i)) @
     '' rttvar='' @ show_nat (unat (tcpi_rttvar i)) @ '' sshthresh='' @ show_nat (unat (tcpi_snd_ssthresh i)) @
     '' cwnd='' @ show_nat (unat (tcpi_snd_cwnd i)) @ '' total_retrans='' @ show_nat (unat (tcpi_total_retrans i))"

definition Socket_getTcpInfoString :: "errno + tcp_info \<Rightarrow> string \<Rightarrow> nat \<Rightarrow> bool \<times> string" where
  "Socket_getTcpInfoString answer buf len =
     (case Socket_getTcpInfo answer of (ok, info) \<Rightarrow> (ok, if ok then take (len - 1) (tcp_info_text info) else buf))"

definition set_option :: "sockopt \<Rightarrow> fd \<Rightarrow> bool \<Rightarrow> sys_trace \<Rightarrow> sys_trace" where
  "set_option opt sockfd on tr = tr @ [Sys_setsockopt sockfd opt (if on then 1 else 0)]"

definition Socket_setTcpNoDelay :: "fd \<Rightarrow> bool \<Rightarrow> sys_trace \<Rightarrow> sys_trace" where
  "Socket_setTcpNoDelay = set_option TCP_NODELAY"

definition Socket_setReuseAddr :: "fd \<Rightarrow> bool \<Rightarrow> sys_trace \<Rightarrow> sys_trace" where
  "Socket_setReuseAddr = set_option SO_REUSEADDR"

definition Socket_setReusePort :: "fd \<Rightarrow> bool \<Rightarrow> sys_trace \<Rightarrow> sys_trace" where
  "Socket_setReusePort = set_option SO_REUSEPORT"

definition Socket_setKeepAlive :: "fd \<Rightarrow> bool \<Rightarrow> sys_trace \<Rightarrow> sys_trace" where
  "Socket_setKeepAlive = set_option SO_KEEPALIVE"

text \<open>Calls that only ask: the answer of the kernel is the argument.\<close>

definition getSocketError :: "errno + int \<Rightarrow> int" where
  "getSocketError answer = (case answer of Inl e \<Rightarrow> e | Inr optval \<Rightarrow> optval)"

definition getLocalAddr :: "errno + InetAddress \<Rightarrow> InetAddress" where
  "getLocalAddr answer = (case answer of Inl e \<Rightarrow> zero_addr | Inr a \<Rightarrow> a)"

definition getPeerAddr :: "errno + InetAddress \<Rightarrow> InetAddress" where
  "getPeerAddr answer = (case answer of Inl e \<Rightarrow> zero_addr | Inr a \<Rightarrow> a)"

definition isSelfConnect :: "errno + InetAddress \<Rightarrow> errno + InetAddress \<Rightarrow> bool" where
  "isSelfConnect sockname peername =
     (let localaddr = getLocalAddr sockname; peeraddr = getPeerAddr peername in
      if sin_family localaddr = AF_INET
      then sin_port localaddr = sin_port peeraddr \<and> sin_addr localaddr = sin_addr peeraddr
      else if sin_family localaddr = AF_INET6
      then sin_port localaddr = sin_port peeraddr \<and> sin6_addr localaddr = sin6_addr peeraddr
      else False)"

section \<open>Lemmas on text forms\<close>

lemma octet_less: "octet x i < 256"
  unfolding octet_def using unsigned_less [of "ucast (drop_bit (8 * i) x) :: byte"] by simp

lemma of_digit_char [simp]: "d < 10 \<Longrightarrow> (of_char (digit_char d) :: nat) = 48 + d"
  by (simp add: digit_char_def)

lemma show_nat_not_Nil [simp]: "show_nat n \<noteq> []"
  by (subst show_nat.simps) simp

lemma show_nat_digits: "c \<in> set (show_nat n) \<Longrightarrow> is_digit c"
proof (induction n rule: show_nat.induct)
  case (1 n)
  then show ?case
    by (subst (asm) (2) show_nat.simps) (auto simp: is_digit_def split: if_splits)
qed

lemma show_nat_value: "fold (\<lambda>c n. 10 * n + (of_char c - 48)) (show_nat n) 0 = (n :: nat)"
proof (induction n rule: show_nat.induct)
  case (1 n)
  then show ?case by (subst show_nat.simps) simp
qed

lemma show_nat_hd: "0 < n \<Longrightarrow> hd (show_nat n) \<noteq> CHR ''0''"
proof (induction n rule: show_nat.induct)
  case (1 n)
  have "digit_char n \<noteq> CHR ''0''" if "n < 10"
  proof
    assume "digit_char n = CHR ''0''"
    then have "(of_char (digit_char n) :: nat) = of_char (CHR ''0'')" by simp
    with 1 that show False by simp
  qed
  with 1 show ?case by (subst show_nat.simps) auto
qed

lemma show_nat_length: "n < 10 ^ k \<Longrightarrow> 0 < k \<Longrightarrow> length (show_nat n) \<le> k"
proof (induction n arbitrary: k rule: show_nat.induct)
  case (1 n)
  show ?case
  proof (cases "n < 10")
    case True
    then show ?thesis using 1 by (subst show_nat.simps) simp
  next
    case False
    with 1 obtain m where m: "k = Suc m" "0 < m" by (cases k; cases "k - 1") auto
    then have "length (show_nat (n div 10)) \<le> m"
      using 1 False by (intro 1) (auto simp: less_mult_imp_div_less)
    then show ?thesis using False m by (subst show_nat.simps) simp
  qed
qed

text \<open>The 1024 bytes that \<open>TcpConnection::getTcpInfoString\<close> offers are enough: the text is never cut.\<close>

lemma tcp_info_text_length: "length (tcp_info_text i) \<le> 239"
proof -
  have w: "length (show_nat (unat x)) \<le> 10" for x :: "32 word"
    using unsigned_less [of x, where 'a = nat] by (intro show_nat_length) simp_all
  have "length (show_nat (unat (tcpi_retransmits i))) \<le> 3"
    using unsigned_less [of "tcpi_retransmits i", where 'a = nat] by (intro show_nat_length) simp_all
  then show ?thesis unfolding tcp_info_text_def
    using w [of "tcpi_rto i"] w [of "tcpi_ato i"] w [of "tcpi_snd_mss i"] w [of "tcpi_rcv_mss i"] w [of "tcpi_lost i"]
      w [of "tcpi_retrans i"] w [of "tcpi_rtt i"] w [of "tcpi_rttvar i"] w [of "tcpi_snd_ssthresh i"] w [of "tcpi_snd_cwnd i"]
      w [of "tcpi_total_retrans i"]
    by simp
qed

lemma getTcpInfoString_exact: "Socket_getTcpInfoString (Inr i) buf 1024 = (True, tcp_info_text i)"
  using tcp_info_text_length [of i] by (simp add: Socket_getTcpInfoString_def Socket_getTcpInfo_def)

lemma show_nat_octet:
  assumes "n < 256"
  shows "parse_octet (show_nat n) = Some n" and "CHR ''.'' \<notin> set (show_nat n)" and "CHR '':'' \<notin> set (show_nat n)"
    and "length (show_nat n) \<le> 3"
proof -
  show len: "length (show_nat n) \<le> 3" using assms by (intro show_nat_length) simp_all
  have "hd (show_nat n) \<noteq> CHR ''0''" if "1 < length (show_nat n)"
    using that show_nat_hd [of n] by (cases "n = 0") (auto simp: show_nat.simps)
  then show "parse_octet (show_nat n) = Some n"
    using len assms by (auto simp: parse_octet_def show_nat_value list_all_iff show_nat_digits)
  show "CHR ''.'' \<notin> set (show_nat n)" "CHR '':'' \<notin> set (show_nat n)"
    by (auto dest!: show_nat_digits simp: is_digit_def)
qed

lemma split_on_no_sep: "c \<notin> set xs \<Longrightarrow> split_on c xs = [xs]"
  by (induction xs) auto

lemma split_on_append: "c \<notin> set xs \<Longrightarrow> split_on c (xs @ c # ys) = xs # split_on c ys"
  by (induction xs) auto

lemma join_octets_octet: "join_octets (octet x 0) (octet x (Suc 0)) (octet x 2) (octet x 3) = x"
proof -
  have "of_nat (octet x i) = (take_bit 8 (drop_bit (8 * i) x) :: 32 word)" for i
    by (simp add: octet_def unsigned_ucast_eq of_nat_take_bit)
  then have "bit (join_octets (octet x 0) (octet x (Suc 0)) (octet x 2) (octet x 3)) n = bit x n" if "n < 32" for n
    using that by (cases "n < 8"; cases "n < 16"; cases "n < 24") (auto simp: join_octets_def bit_simps)
  then show ?thesis by (intro bit_word_eqI) simp
qed

lemma inet_pton4_ntop4: "inet_pton4 (inet_ntop4 x) = Some x"
  by (simp add: inet_pton4_def inet_ntop4_def split_on_append split_on_no_sep show_nat_octet octet_less
      join_octets_octet)

lemma show_nat_port: "length (show_nat (unat (x :: 16 word))) \<le> 5"
proof -
  have "unat x < 2 ^ LENGTH(16)" by (rule unsigned_less)
  then show ?thesis by (intro show_nat_length) simp_all
qed

lemma inet_ntop4_length: "length (inet_ntop4 x) \<le> 15"
  using show_nat_octet(4) [OF octet_less, of x 0] show_nat_octet(4) [OF octet_less, of x 1]
    show_nat_octet(4) [OF octet_less, of x 2] show_nat_octet(4) [OF octet_less, of x 3]
  by (simp add: inet_ntop4_def)

section \<open>Properties\<close>

text \<open>
  The text form of an address and port, which names servers and connections, is complete: the
  64 bytes of \<open>toIpPort\<close> never cut it, and no assertion fails. (\<open>inet_ntop\<close> writes at most 45
  characters for IPv6.)
\<close>

theorem toIpPort_exact:
  assumes "\<And>b. length (ntop6 b) < INET6_ADDRSTRLEN" and "sin_family a = AF_INET \<or> sin_family a = AF_INET6"
  shows "InetAddress_toIpPort ntop6 a =
    Inr (if sin_family a = AF_INET then inet_ntop4 (sin_addr a) @ '':'' @ show_nat (unat (InetAddress_port a))
         else ''['' @ ntop6 (sin6_addr a) @ '']:'' @ show_nat (unat (InetAddress_port a)))"
  using assms(2) assms(1) [of "sin6_addr a"] show_nat_port [of "networkToHost16 (sin_port a)"]
    inet_ntop4_length [of "sin_addr a"]
  by (auto simp: InetAddress_toIpPort_def toIpPort_def toIp_def snprintf_at_def InetAddress_port_def portNetEndian_def
      AF_INET_def AF_INET6_def INET_ADDRSTRLEN_def INET6_ADDRSTRLEN_def)

text \<open>
  C39. An IPv4 address survives its text form: the address constructed from what \<open>toIp\<close> and \<open>port\<close>
  return has the same family, port and IP address.
\<close>

theorem ipv4_roundtrip:
  assumes "sin_family a = AF_INET"
  shows "\<exists>ip. InetAddress_toIp ntop6 a = Inr ip \<and>
    (let b = InetAddress_of_ip pton6 old ip (InetAddress_port a) False
     in sin_family b = sin_family a \<and> sin_port b = sin_port a \<and> sin_addr b = sin_addr a)"
proof -
  have "CHR '':'' \<notin> set (inet_ntop4 (sin_addr a))"
    by (simp add: inet_ntop4_def show_nat_octet octet_less)
  moreover have "hostToNetwork16 (networkToHost16 x) = x" for x
    using networkToHost16_inverse [of x] by (simp add: networkToHost16_def hostToNetwork16_def)
  ultimately show ?thesis
    using assms by (simp add: InetAddress_toIp_def toIp_def INET_ADDRSTRLEN_def InetAddress_of_ip_def fromIpPort4_def
        inet_pton4_ntop4 Let_def InetAddress_port_def portNetEndian_def)
qed

text \<open>
  \<open>port()\<close> returns the port an address was constructed with, for both families and both constructors.
\<close>

theorem port_roundtrip:
  "InetAddress_port (InetAddress_ctor old p loopbackOnly ipv6) = p \<and>
   InetAddress_port (InetAddress_of_ip pton6 old ip p ipv6) = p"
  by (auto simp: InetAddress_ctor_def InetAddress_of_ip_def fromIpPort4_def fromIpPort6_def InetAddress_port_def
      portNetEndian_def Let_def split: option.splits)

section \<open>Witnesses\<close>

definition sample_addr :: InetAddress where
  "sample_addr = InetAddress_ctor zero_addr 8080 True False"
lemma sample_addr_eq: "sample_addr = zero_addr\<lparr>sin_family := AF_INET, sin_addr := 0x0100007f, sin_port := hostToNetwork16 8080\<rparr>"
  by (simp add: sample_addr_def InetAddress_ctor_def hostToNetwork32_def hostToNetwork16_def zero_addr4_def zero_addr_def kInaddrLoopback_def replicate_add [symmetric])
lemma digit_char_simps [simp]:
  "digit_char 0 = CHR ''0''" "digit_char (Suc 0) = CHR ''1''" "digit_char 2 = CHR ''2''" "digit_char 3 = CHR ''3''"
  "digit_char 4 = CHR ''4''" "digit_char 5 = CHR ''5''" "digit_char 6 = CHR ''6''" "digit_char 7 = CHR ''7''"
  "digit_char 8 = CHR ''8''" "digit_char 9 = CHR ''9''"
  by (simp_all add: digit_char_def char_of_def bit_Suc_0_iff)
lemma sample_addr_text: "inet_ntop4 (sin_addr sample_addr) = ''127.0.0.1''" "show_nat 8080 = ''8080''"
  by (simp_all add: sample_addr_eq inet_ntop4_def octet_def show_nat.simps)

lemma sample_addr_fields: "sin_family sample_addr = AF_INET" "InetAddress_port sample_addr = 8080"
  by (simp_all add: sample_addr_def InetAddress_ctor_def InetAddress_port_def portNetEndian_def)

theorem toIpPort_exact_witness:
  "sin_family sample_addr = AF_INET \<and>
   InetAddress_toIpPort (\<lambda>b. ''::'') sample_addr = Inr ''127.0.0.1:8080''"
  using toIpPort_exact [of "\<lambda>b. ''::''" sample_addr]
  by (simp add: INET6_ADDRSTRLEN_def sample_addr_fields sample_addr_text)

theorem ipv4_roundtrip_witness:
  "sin_family sample_addr = AF_INET \<and> InetAddress_toIp (\<lambda>b. ''::'') sample_addr = Inr ''127.0.0.1'' \<and>
   sin_addr (InetAddress_of_ip (\<lambda>s. None) zero_addr ''127.0.0.1'' 8080 False) = sin_addr sample_addr"
  using ipv4_roundtrip [of sample_addr "\<lambda>b. ''::''" "\<lambda>s. None" zero_addr]
  by (simp add: sample_addr_fields sample_addr_text InetAddress_toIp_def toIp_def INET_ADDRSTRLEN_def Let_def)

end
