(* ===== verification/Siren_TcpConnection.thy ===== *)
theory Siren_TcpConnection
  imports Siren_Buffer Siren_Timer Siren_Sockets
begin

text \<open>
  Connections: \<open>include/siren/net/TcpConnection.h\<close> and \<open>src/net/TcpConnection.cpp\<close>.

  \<open>net\<close> extends the loop by the connections it owns, the trace of socket calls, the memory of the
  callers of \<open>send\<close> (a raw pointer given to \<open>send\<close> is an address there) and the trace of invocations of the
  connection callback (connection, and whether \<open>connected()\<close> held).

  The kernel answers through \<open>os\<close>, which may depend on the trace so far: \<open>os_write\<close> takes the bytes
  offered, \<open>os_readv\<close> the sizes of the buffers. User code is a function \<open>app\<close> from the callback invoked
  and the state to the list of calls of the public interface that it makes (\<open>api_call\<close>: sending, reading from the input buffer, closing, starting and stopping to read,
  \<open>setTcpNoDelay\<close>, the write-complete and high-water-mark callbacks, \<open>queueInLoop\<close>, the timers, \<open>quit\<close>; not among them are replacing the connection and message
  callbacks of a connection, and changing the buffer that \<open>outputBuffer()\<close> returns); they
  are executed in the thread of the loop. Calls from other threads are the operations with another \<open>tid\<close>.
  The library's own closing callback, which the server or the client installs, is the parameter \<open>on_close\<close>.
\<close>

section \<open>Data\<close>

datatype StateE = kDisconnected | kConnecting | kConnected | kDisconnecting

text \<open>The states in the order of a connection's life.\<close>

fun life_rank :: "StateE \<Rightarrow> nat" where
  "life_rank kConnecting = 0"
| "life_rank kConnected = 1"
| "life_rank kDisconnecting = 2"
| "life_rank kDisconnected = 3"

lemma life_rank_inject: "life_rank a = life_rank b \<Longrightarrow> a = b"
  by (cases a; cases b) simp_all

instantiation StateE :: linorder
begin

definition less_eq_StateE :: "StateE \<Rightarrow> StateE \<Rightarrow> bool" where
  "less_eq_StateE a b \<longleftrightarrow> life_rank a \<le> life_rank b"

definition less_StateE :: "StateE \<Rightarrow> StateE \<Rightarrow> bool" where
  "less_StateE a b \<longleftrightarrow> life_rank a < life_rank b"

instance
  by standard (auto simp: less_eq_StateE_def less_StateE_def intro: life_rank_inject)

end

datatype conn_cb = defaultConnectionCallback | User_connection nat
datatype msg_cb = defaultMessageCallback | User_message nat
datatype close_cb = TcpServer_removeConnection nat | TcpClient_removeConnection nat | detail_removeConnection nat

record TcpConnection =
  tc_name :: string
  tc_state :: StateE
  reading :: bool
  tc_socket :: fd
  tc_channel :: chan
  localAddr :: InetAddress
  peerAddr :: InetAddress
  connectionCallback :: "conn_cb option"
  messageCallback :: "msg_cb option"
  writeCompleteCallback :: "nat option"
  highWaterMarkCallback :: "nat option"
  tc_closeCallback :: "close_cb option"
  highWaterMark :: size_t
  inputBuffer :: Buffer
  outputBuffer :: Buffer

record net = tloop +
  conns :: "nat \<rightharpoonup> TcpConnection"
  sys :: sys_trace
  caller_mem :: "nat \<rightharpoonup> byte list"
  conn_log :: "(nat \<times> bool) list"

record os =
  os_write :: "sys_trace \<Rightarrow> fd \<Rightarrow> byte list \<Rightarrow> errno + nat"
  os_readv :: "sys_trace \<Rightarrow> fd \<Rightarrow> size_t list \<Rightarrow> errno + byte list"

datatype app_call =
    App_connection nat nat
  | App_message nat nat int
  | App_writeComplete nat nat
  | App_highWaterMark nat nat size_t

datatype api_call =
    Api_send_ptr nat nat cint
  | Api_send_string nat nat
  | Api_send_input nat nat
  | Api_retrieve nat cint
  | Api_retrieveAllAsString nat nat
  | Api_shutdown nat
  | Api_forceClose nat
  | Api_forceCloseWithDelay nat rat int int
  | Api_startRead nat
  | Api_stopRead nat
  | Api_setTcpNoDelay nat bool
  | Api_queueInLoop nat
  | Api_store nat "byte list option"
  | Api_setWriteCompleteCallback nat "nat option"
  | Api_setHighWaterMarkCallback nat "nat option" size_t
  | Api_runAt int int nat
  | Api_runAfter int int rat nat
  | Api_runEvery int int rat nat
  | Api_quit

definition with_conn :: "nat \<Rightarrow> 'm net_scheme \<Rightarrow> (TcpConnection \<Rightarrow> 'a result) \<Rightarrow> 'a result" where
  "with_conn c s f = (case conns s c of None \<Rightarrow> Inl Bad_pointer | Some tc \<Rightarrow> f tc)"

definition put_conn :: "nat \<Rightarrow> TcpConnection \<Rightarrow> 'm net_scheme \<Rightarrow> 'm net_scheme" where
  "put_conn c tc s = s\<lparr>conns := (conns s)(c \<mapsto> tc)\<rparr>"

definition with_mem :: "nat \<Rightarrow> nat \<Rightarrow> 'm net_scheme \<Rightarrow> (byte list \<Rightarrow> 'a result) \<Rightarrow> 'a result" where
  "with_mem p n s f =
     (case caller_mem s p of
        None \<Rightarrow> Inl Bad_pointer
      | Some bytes \<Rightarrow> if n \<le> length bytes then f (take n bytes) else Inl Out_of_bounds)"

definition setState :: "StateE \<Rightarrow> TcpConnection \<Rightarrow> TcpConnection" where
  "setState st tc = tc\<lparr>tc_state := st\<rparr>"

definition connected :: "TcpConnection \<Rightarrow> bool" where
  "connected tc \<longleftrightarrow> tc_state tc = kConnected"

definition disconnected :: "TcpConnection \<Rightarrow> bool" where
  "disconnected tc \<longleftrightarrow> tc_state tc = kDisconnected"

definition stateToString :: "TcpConnection \<Rightarrow> string" where
  "stateToString tc =
     (case tc_state tc of kDisconnected \<Rightarrow> ''kDisconnected'' | kConnecting \<Rightarrow> ''kConnecting''
      | kConnected \<Rightarrow> ''kConnected'' | kDisconnecting \<Rightarrow> ''kDisconnecting'')"

section \<open>Construction\<close>

text \<open>
  \<open>c\<close> and \<open>d\<close> are the addresses of the new connection and of its channel, \<open>lid\<close> is the loop it is given. The
  two objects are in the state of that loop; the socket option is set by the thread that constructs them.
\<close>

definition TcpConnection_init :: "nat \<Rightarrow> nat \<Rightarrow> chan \<Rightarrow> string \<Rightarrow> fd \<Rightarrow> InetAddress \<Rightarrow> InetAddress \<Rightarrow>
    (TcpConnection \<times> channel) result" where
  "TcpConnection_init lid c d name sockfd la pa =
     rbind (Buffer_ctor kInitialSize) (\<lambda>ib.
     rbind (Buffer_ctor kInitialSize) (\<lambda>ob.
       Inr (\<lparr>tc_name = name, tc_state = kConnecting, reading = True, tc_socket = sockfd, tc_channel = d,
             localAddr = la, peerAddr = pa, connectionCallback = None, messageCallback = None,
             writeCompleteCallback = None, highWaterMarkCallback = None, tc_closeCallback = None,
             highWaterMark = 64 * 1024 * 1024, inputBuffer = ib, outputBuffer = ob\<rparr>,
            setErrorCallback (Some (TcpConnection_handleError c))
             (setCloseCallback (Some (TcpConnection_handleClose c))
             (setWriteCallback (Some (TcpConnection_handleWrite c))
             (setReadCallback (Some (TcpConnection_handleRead c)) (Channel_ctor lid sockfd)))))))"

definition TcpConnection_ctor :: "nat \<Rightarrow> chan \<Rightarrow> string \<Rightarrow> fd \<Rightarrow> InetAddress \<Rightarrow> InetAddress \<Rightarrow>
    'm net_scheme \<Rightarrow> 'm net_scheme result" where
  "TcpConnection_ctor c d name sockfd la pa s =
     rbind (TcpConnection_init (loop_id s) c d name sockfd la pa) (\<lambda>(tc, ch).
       let s1 = put_conn c tc (put_chan d ch s)
       in Inr (s1\<lparr>sys := Socket_setKeepAlive sockfd True (sys s1)\<rparr>))"

text \<open>The destructor has no code of its own; its members \<open>channel_\<close> and then \<open>socket_\<close> are destroyed.\<close>

definition TcpConnection_dtor :: "nat \<Rightarrow> nat \<Rightarrow> 'm net_scheme \<Rightarrow> 'm net_scheme result" where
  "TcpConnection_dtor tid c s =
     with_conn c s (\<lambda>tc. rbind (Channel_dtor tid (tc_channel tc) s) (\<lambda>s1.
       Inr (s1\<lparr>conns := (conns s1)(c := None), sys := Socket_dtor (tc_socket tc) (sys s1)\<rparr>)))"

definition TcpConnection_setConnectionCallback :: "conn_cb option \<Rightarrow> TcpConnection \<Rightarrow> TcpConnection" where
  "TcpConnection_setConnectionCallback cb tc = tc\<lparr>connectionCallback := cb\<rparr>"

definition TcpConnection_setMessageCallback :: "msg_cb option \<Rightarrow> TcpConnection \<Rightarrow> TcpConnection" where
  "TcpConnection_setMessageCallback cb tc = tc\<lparr>messageCallback := cb\<rparr>"

definition TcpConnection_setWriteCompleteCallback :: "nat option \<Rightarrow> TcpConnection \<Rightarrow> TcpConnection" where
  "TcpConnection_setWriteCompleteCallback cb tc = tc\<lparr>writeCompleteCallback := cb\<rparr>"

definition TcpConnection_setHighWaterMarkCallback :: "nat option \<Rightarrow> size_t \<Rightarrow> TcpConnection \<Rightarrow> TcpConnection" where
  "TcpConnection_setHighWaterMarkCallback cb mark tc = tc\<lparr>highWaterMarkCallback := cb, highWaterMark := mark\<rparr>"

definition TcpConnection_setCloseCallback :: "close_cb option \<Rightarrow> TcpConnection \<Rightarrow> TcpConnection" where
  "TcpConnection_setCloseCallback cb tc = tc\<lparr>tc_closeCallback := cb\<rparr>"

definition TcpConnection_isReading :: "TcpConnection \<Rightarrow> bool" where
  "TcpConnection_isReading tc = reading tc"

definition TcpConnection_getTcpInfo :: "errno + tcp_info \<Rightarrow> bool \<times> tcp_info" where
  "TcpConnection_getTcpInfo answer = Socket_getTcpInfo answer"

definition TcpConnection_getTcpInfoString :: "errno + tcp_info \<Rightarrow> string" where
  "TcpConnection_getTcpInfoString answer = snd (Socket_getTcpInfoString answer [] 1024)"

lemmas tc_setter_defs = TcpConnection_setConnectionCallback_def TcpConnection_setMessageCallback_def
  TcpConnection_setWriteCompleteCallback_def TcpConnection_setHighWaterMarkCallback_def TcpConnection_setCloseCallback_def

section \<open>Sending\<close>

definition queue_writeComplete :: "nat \<Rightarrow> TcpConnection \<Rightarrow> 'm net_scheme \<Rightarrow> 'm net_scheme" where
  "queue_writeComplete c tc s =
     (case writeCompleteCallback tc of
        None \<Rightarrow> s
      | Some cb \<Rightarrow> queueInLoop (threadId s) (Some (Fn_writeComplete cb c)) s)"

definition queue_highWaterMark :: "nat \<Rightarrow> TcpConnection \<Rightarrow> size_t \<Rightarrow> 'm net_scheme \<Rightarrow> 'm net_scheme" where
  "queue_highWaterMark c tc len s =
     (case highWaterMarkCallback tc of
        None \<Rightarrow> s
      | Some cb \<Rightarrow> queueInLoop (threadId s) (Some (Fn_highWaterMark cb c len)) s)"

text \<open>
  The direct write of \<open>sendInLoop\<close>: the number of bytes written, whether the error means that the
  connection is dead, and the new state.
\<close>

definition direct_write :: "os \<Rightarrow> nat \<Rightarrow> TcpConnection \<Rightarrow> byte list \<Rightarrow> 'm net_scheme \<Rightarrow> nat \<times> bool \<times> 'm net_scheme" where
  "direct_write os c tc data s =
     (let answer = os_write os (sys s) (tc_socket tc) data;
          s1 = s\<lparr>sys := sys s @ [Sys_write (tc_socket tc) data answer]\<rparr>
      in case answer of
           Inr n \<Rightarrow> (n, False, if n = length data then queue_writeComplete c tc s1 else s1)
         | Inl err \<Rightarrow> (0, err \<noteq> EAGAIN \<and> (err = EPIPE \<or> err = ECONNRESET), s1))"

text \<open>The rest of \<open>sendInLoop\<close>: what was not written goes to the output buffer.\<close>

definition buffer_rest :: "nat \<Rightarrow> TcpConnection \<Rightarrow> channel \<Rightarrow> byte list \<Rightarrow> 'm net_scheme \<Rightarrow> 'm net_scheme result" where
  "buffer_rest c tc ch rest s =
     (let oldLen = readableBytes (outputBuffer tc);
          remaining = of_nat (length rest) :: size_t;
          s1 = (if highWaterMark tc \<le> oldLen + remaining \<and> oldLen < highWaterMark tc
                then queue_highWaterMark c tc (oldLen + remaining) s else s)
      in rbind (append_data rest (outputBuffer tc)) (\<lambda>ob.
           let s2 = put_conn c (tc\<lparr>outputBuffer := ob\<rparr>) s1
           in if isWriting ch then Inr s2 else enableWriting (tc_channel tc) s2))"

definition sendInLoop :: "os \<Rightarrow> nat \<Rightarrow> byte list \<Rightarrow> 'm net_scheme \<Rightarrow> 'm net_scheme result" where
  "sendInLoop os c data s =
     with_conn c s (\<lambda>tc. with_chan (tc_channel tc) s (\<lambda>ch.
       if tc_state tc = kDisconnected then Inr s
       else
         case (if \<not> isWriting ch \<and> readableBytes (outputBuffer tc) = 0
               then direct_write os c tc data s else (0, False, s)) of
           (nwrote, faultError, s1) \<Rightarrow>
             if \<not> faultError \<and> nwrote < length data then buffer_rest c tc ch (drop nwrote data) s1 else Inr s1))"

definition sendInLoop_ptr :: "os \<Rightarrow> nat \<Rightarrow> nat \<Rightarrow> nat \<Rightarrow> 'm net_scheme \<Rightarrow> 'm net_scheme result" where
  "sendInLoop_ptr os c p len s = with_mem p len s (\<lambda>data. sendInLoop os c data s)"

definition send_ptr :: "os \<Rightarrow> nat \<Rightarrow> nat \<Rightarrow> nat \<Rightarrow> cint \<Rightarrow> 'm net_scheme \<Rightarrow> 'm net_scheme result" where
  "send_ptr os tid c p len s =
     (if sint len \<le> 0 then Inr s
      else with_conn c s (\<lambda>tc.
        if tc_state tc = kConnected
        then (if isInLoopThread tid s then sendInLoop_ptr os c p (nat (sint len)) s
              else runInLoop (\<lambda>f. sendInLoop_ptr os c p (nat (sint len))) tid
                     (Some (Fn_sendInLoop_ptr c p (nat (sint len)))) s)
        else Inr s))"

definition send_string :: "os \<Rightarrow> nat \<Rightarrow> nat \<Rightarrow> nat \<Rightarrow> 'm net_scheme \<Rightarrow> 'm net_scheme result" where
  "send_string os tid c p s =
     (case caller_mem s p of
        None \<Rightarrow> Inl Bad_pointer
      | Some message \<Rightarrow> send_ptr os tid c p (of_nat (length message)) s)"

text \<open>\<open>send(Buffer*)\<close>, with the buffer and its new value passed along.\<close>

definition send_buffer :: "os \<Rightarrow> nat \<Rightarrow> nat \<Rightarrow> Buffer \<Rightarrow> 'm net_scheme \<Rightarrow> (Buffer \<times> 'm net_scheme) result" where
  "send_buffer os tid c buf s =
     with_conn c s (\<lambda>tc.
       if tc_state tc = kConnected \<and> 0 < readableBytes buf
       then (if isInLoopThread tid s
             then rbind (peek_bytes (unat (readableBytes buf)) buf) (\<lambda>data.
                  rbind (sendInLoop os c data s) (\<lambda>s1. Inr (retrieveAll buf, s1)))
             else rbind (retrieveAllAsString buf) (\<lambda>(data, buf').
                  rbind (runInLoop (\<lambda>f. sendInLoop os c data) tid (Some (Fn_sendInLoop c data)) s) (\<lambda>s1.
                    Inr (buf', s1))))
       else Inr (buf, s))"

section \<open>Closing and reading\<close>

definition shutdownInLoop :: "nat \<Rightarrow> 'm net_scheme \<Rightarrow> 'm net_scheme result" where
  "shutdownInLoop c s =
     with_conn c s (\<lambda>tc. with_chan (tc_channel tc) s (\<lambda>ch.
       Inr (if isWriting ch then s else s\<lparr>sys := Socket_shutdownWrite (tc_socket tc) (sys s)\<rparr>)))"

definition shutdown :: "nat \<Rightarrow> nat \<Rightarrow> 'm net_scheme \<Rightarrow> 'm net_scheme result" where
  "shutdown tid c s =
     with_conn c s (\<lambda>tc.
       if tc_state tc = kConnected
       then runInLoop (\<lambda>f. shutdownInLoop c) tid (Some (Fn_shutdownInLoop c))
              (put_conn c (setState kDisconnecting tc) s)
       else Inr s)"

definition forceClose :: "nat \<Rightarrow> nat \<Rightarrow> 'm net_scheme \<Rightarrow> 'm net_scheme result" where
  "forceClose tid c s =
     with_conn c s (\<lambda>tc.
       if tc_state tc = kConnected \<or> tc_state tc = kDisconnecting
       then Inr (queueInLoop tid (Some (Fn_forceCloseInLoop c)) (put_conn c (setState kDisconnecting tc) s))
       else Inr s)"

definition forceCloseWithDelay :: "int \<Rightarrow> int \<Rightarrow> nat \<Rightarrow> nat \<Rightarrow> rat \<Rightarrow> 'm net_scheme \<Rightarrow> 'm net_scheme result" where
  "forceCloseWithDelay now now' tid c seconds s =
     with_conn c s (\<lambda>tc.
       if tc_state tc = kConnected \<or> tc_state tc = kDisconnecting
       then rbind (runAfter now now' tid seconds (Some (TC_forceClose c))
                    (put_conn c (setState kDisconnecting tc) s)) (\<lambda>(timerId, s1). Inr s1)
       else Inr s)"

definition TcpConnection_setTcpNoDelay :: "nat \<Rightarrow> bool \<Rightarrow> 'm net_scheme \<Rightarrow> 'm net_scheme result" where
  "TcpConnection_setTcpNoDelay c on s =
     with_conn c s (\<lambda>tc. Inr (s\<lparr>sys := Socket_setTcpNoDelay (tc_socket tc) on (sys s)\<rparr>))"

definition startReadInLoop :: "nat \<Rightarrow> 'm net_scheme \<Rightarrow> 'm net_scheme result" where
  "startReadInLoop c s =
     with_conn c s (\<lambda>tc. with_chan (tc_channel tc) s (\<lambda>ch.
       if \<not> reading tc \<or> \<not> isReading ch
       then rbind (enableReading (tc_channel tc) s) (\<lambda>s1. Inr (put_conn c (tc\<lparr>reading := True\<rparr>) s1))
       else Inr s))"

definition stopReadInLoop :: "nat \<Rightarrow> 'm net_scheme \<Rightarrow> 'm net_scheme result" where
  "stopReadInLoop c s =
     with_conn c s (\<lambda>tc. with_chan (tc_channel tc) s (\<lambda>ch.
       if reading tc \<or> isReading ch
       then rbind (disableReading (tc_channel tc) s) (\<lambda>s1. Inr (put_conn c (tc\<lparr>reading := True\<rparr>) s1))
       else Inr s))"

definition startRead :: "nat \<Rightarrow> nat \<Rightarrow> 'm net_scheme \<Rightarrow> 'm net_scheme result" where
  "startRead tid c s = runInLoop (\<lambda>f. startReadInLoop c) tid (Some (Fn_startReadInLoop c)) s"

definition stopRead :: "nat \<Rightarrow> nat \<Rightarrow> 'm net_scheme \<Rightarrow> 'm net_scheme result" where
  "stopRead tid c s = runInLoop (\<lambda>f. stopReadInLoop c) tid (Some (Fn_stopReadInLoop c)) s"

section \<open>User code\<close>

fun exec_api :: "os \<Rightarrow> nat \<Rightarrow> api_call \<Rightarrow> 'm net_scheme \<Rightarrow> 'm net_scheme result" where
  "exec_api os tid (Api_send_ptr c p len) s = send_ptr os tid c p len s"
| "exec_api os tid (Api_send_string c p) s = send_string os tid c p s"
| "exec_api os tid (Api_send_input c d) s =
     with_conn d s (\<lambda>tc. rbind (send_buffer os tid c (inputBuffer tc) s) (\<lambda>(buf, s1).
       with_conn d s1 (\<lambda>tc1. Inr (put_conn d (tc1\<lparr>inputBuffer := buf\<rparr>) s1))))"
| "exec_api os tid (Api_retrieve c len) s =
     with_conn c s (\<lambda>tc. Inr (put_conn c (tc\<lparr>inputBuffer := retrieve len (inputBuffer tc)\<rparr>) s))"
| "exec_api os tid (Api_retrieveAllAsString c p) s =
     with_conn c s (\<lambda>tc. rbind (retrieveAllAsString (inputBuffer tc)) (\<lambda>(msg, buf).
       Inr (put_conn c (tc\<lparr>inputBuffer := buf\<rparr>) (s\<lparr>caller_mem := (caller_mem s)(p \<mapsto> msg)\<rparr>))))"
| "exec_api os tid (Api_shutdown c) s = shutdown tid c s"
| "exec_api os tid (Api_forceClose c) s = forceClose tid c s"
| "exec_api os tid (Api_forceCloseWithDelay c seconds now now') s = forceCloseWithDelay now now' tid c seconds s"
| "exec_api os tid (Api_startRead c) s = startRead tid c s"
| "exec_api os tid (Api_stopRead c) s = stopRead tid c s"
| "exec_api os tid (Api_setTcpNoDelay c on) s = TcpConnection_setTcpNoDelay c on s"
| "exec_api os tid (Api_queueInLoop k) s = Inr (queueInLoop tid (Some (Fn_user k)) s)"
| "exec_api os tid (Api_store p data) s = Inr (s\<lparr>caller_mem := (caller_mem s)(p := data)\<rparr>)"
| "exec_api os tid (Api_setWriteCompleteCallback c cb) s =
     with_conn c s (\<lambda>tc. Inr (put_conn c (TcpConnection_setWriteCompleteCallback cb tc) s))"
| "exec_api os tid (Api_setHighWaterMarkCallback c cb mark) s =
     with_conn c s (\<lambda>tc. Inr (put_conn c (TcpConnection_setHighWaterMarkCallback cb mark tc) s))"
| "exec_api os tid (Api_runAt now time k) s = map_sum id snd (runAt now tid time (Some (TC_user k)) s)"
| "exec_api os tid (Api_runAfter now now' delay k) s = map_sum id snd (runAfter now now' tid delay (Some (TC_user k)) s)"
| "exec_api os tid (Api_runEvery now now' ivl k) s = map_sum id snd (runEvery now now' tid ivl (Some (TC_user k)) s)"
| "exec_api os tid Api_quit s = Inr (EventLoop_quit tid s)"

definition run_app :: "os \<Rightarrow> (app_call \<Rightarrow> 'm net_scheme \<Rightarrow> api_call list) \<Rightarrow> app_call \<Rightarrow>
    'm net_scheme \<Rightarrow> 'm net_scheme result" where
  "run_app os app call s = rfold (exec_api os (threadId s)) (app call s) s"

definition call_connectionCallback :: "os \<Rightarrow> (app_call \<Rightarrow> 'm net_scheme \<Rightarrow> api_call list) \<Rightarrow> nat \<Rightarrow>
    'm net_scheme \<Rightarrow> 'm net_scheme result" where
  "call_connectionCallback os app c s =
     with_conn c s (\<lambda>tc.
       let s1 = s\<lparr>conn_log := conn_log s @ [(c, connected tc)]\<rparr>
       in case connectionCallback tc of
            None \<Rightarrow> Inl Bad_function_call
          | Some defaultConnectionCallback \<Rightarrow> Inr s1
          | Some (User_connection k) \<Rightarrow> run_app os app (App_connection k c) s1)"

definition call_messageCallback :: "os \<Rightarrow> (app_call \<Rightarrow> 'm net_scheme \<Rightarrow> api_call list) \<Rightarrow> nat \<Rightarrow> int \<Rightarrow>
    'm net_scheme \<Rightarrow> 'm net_scheme result" where
  "call_messageCallback os app c now s =
     with_conn c s (\<lambda>tc.
       case messageCallback tc of
         None \<Rightarrow> Inl Bad_function_call
       | Some defaultMessageCallback \<Rightarrow> Inr (put_conn c (tc\<lparr>inputBuffer := retrieveAll (inputBuffer tc)\<rparr>) s)
       | Some (User_message k) \<Rightarrow> run_app os app (App_message k c now) s)"

section \<open>Handlers\<close>

definition connectEstablished :: "os \<Rightarrow> (app_call \<Rightarrow> 'm net_scheme \<Rightarrow> api_call list) \<Rightarrow> nat \<Rightarrow>
    'm net_scheme \<Rightarrow> 'm net_scheme result" where
  "connectEstablished os app c s =
     with_conn c s (\<lambda>tc.
       if tc_state tc \<noteq> kConnecting then Inl (Assert_failed ''state_ == kConnecting'')
       else
         rbind (upd_chan (tc_channel tc) (Channel_tie c) (put_conn c (setState kConnected tc) s)) (\<lambda>s1.
         rbind (enableReading (tc_channel tc) s1) (\<lambda>s2.
         call_connectionCallback os app c s2)))"

definition connectDestroyed :: "os \<Rightarrow> (app_call \<Rightarrow> 'm net_scheme \<Rightarrow> api_call list) \<Rightarrow> nat \<Rightarrow>
    'm net_scheme \<Rightarrow> 'm net_scheme result" where
  "connectDestroyed os app c s =
     with_conn c s (\<lambda>tc.
       rbind (if tc_state tc = kConnected
              then rbind (disableAll (tc_channel tc) (put_conn c (setState kDisconnected tc) s)) (\<lambda>s1.
                   call_connectionCallback os app c s1)
              else Inr s) (\<lambda>s2.
       Channel_remove (tc_channel tc) s2))"

definition handleClose :: "os \<Rightarrow> (app_call \<Rightarrow> 'm net_scheme \<Rightarrow> api_call list) \<Rightarrow>
    (close_cb \<Rightarrow> nat \<Rightarrow> 'm net_scheme \<Rightarrow> 'm net_scheme result) \<Rightarrow> nat \<Rightarrow> 'm net_scheme \<Rightarrow> 'm net_scheme result" where
  "handleClose os app on_close c s =
     with_conn c s (\<lambda>tc.
       if \<not> (tc_state tc = kDisconnecting \<or> tc_state tc = kConnected)
       then Inl (Assert_failed ''state_ == kDisconnecting || state_ == kConnected'')
       else
         rbind (disableAll (tc_channel tc) (put_conn c (setState kDisconnected tc) s)) (\<lambda>s1.
         rbind (call_connectionCallback os app c s1) (\<lambda>s2.
         with_conn c s2 (\<lambda>tc2.
           case tc_closeCallback tc2 of None \<Rightarrow> Inl Bad_function_call | Some cb \<Rightarrow> on_close cb c s2))))"

definition handleRead :: "os \<Rightarrow> (app_call \<Rightarrow> 'm net_scheme \<Rightarrow> api_call list) \<Rightarrow>
    (close_cb \<Rightarrow> nat \<Rightarrow> 'm net_scheme \<Rightarrow> 'm net_scheme result) \<Rightarrow> nat \<Rightarrow> 'm net_scheme \<Rightarrow> 'm net_scheme result" where
  "handleRead os app on_close c s =
     with_conn c s (\<lambda>tc.
       let answer = os_readv os (sys s) (tc_socket tc) (readFd_iov (inputBuffer tc)) in
       rbind (readFd (os_readv os (sys s)) (tc_socket tc) (inputBuffer tc)) (\<lambda>(n, buf).
         let s1 = put_conn c (tc\<lparr>inputBuffer := buf\<rparr>) (s\<lparr>sys := sys s @ [Sys_readv (tc_socket tc) answer]\<rparr>)
         in if 0 < n then call_messageCallback os app c (pollReturnTime s) s1
            else if n = 0 then handleClose os app on_close c s1
            else Inr s1))"

definition handleWrite :: "os \<Rightarrow> nat \<Rightarrow> 'm net_scheme \<Rightarrow> 'm net_scheme result" where
  "handleWrite os c s =
     with_conn c s (\<lambda>tc. with_chan (tc_channel tc) s (\<lambda>ch.
       if \<not> isWriting ch then Inr s
       else
         rbind (peek_bytes (unat (readableBytes (outputBuffer tc))) (outputBuffer tc)) (\<lambda>data.
           let answer = os_write os (sys s) (tc_socket tc) data;
               s1 = s\<lparr>sys := sys s @ [Sys_write (tc_socket tc) data answer]\<rparr>
           in case answer of
                Inl err \<Rightarrow> Inr s1
              | Inr n \<Rightarrow>
                  if n = 0 then Inr s1
                  else
                    let ob = retrieve (of_nat n) (outputBuffer tc);
                        s2 = put_conn c (tc\<lparr>outputBuffer := ob\<rparr>) s1
                    in if readableBytes ob = 0
                       then rbind (disableWriting (tc_channel tc) s2) (\<lambda>s3.
                              let s4 = queue_writeComplete c tc s3
                              in if tc_state tc = kDisconnecting then shutdownInLoop c s4 else Inr s4)
                       else Inr s2)))"

definition handleError :: "nat \<Rightarrow> 'm net_scheme \<Rightarrow> 'm net_scheme" where
  "handleError c s = s"

definition forceCloseInLoop :: "os \<Rightarrow> (app_call \<Rightarrow> 'm net_scheme \<Rightarrow> api_call list) \<Rightarrow>
    (close_cb \<Rightarrow> nat \<Rightarrow> 'm net_scheme \<Rightarrow> 'm net_scheme result) \<Rightarrow> nat \<Rightarrow> 'm net_scheme \<Rightarrow> 'm net_scheme result" where
  "forceCloseInLoop os app on_close c s =
     with_conn c s (\<lambda>tc.
       if tc_state tc = kConnected \<or> tc_state tc = kDisconnecting then handleClose os app on_close c s else Inr s)"

section \<open>What the loop executes for connections\<close>

text \<open>
  The callbacks that a connection installs in its channel, the functors it queues, and calls of
  the public interface, from the loop's thread or another one.
\<close>

fun conn_callback :: "os \<Rightarrow> (app_call \<Rightarrow> 'm net_scheme \<Rightarrow> api_call list) \<Rightarrow>
    (close_cb \<Rightarrow> nat \<Rightarrow> 'm net_scheme \<Rightarrow> 'm net_scheme result) \<Rightarrow> chan_callback \<Rightarrow> 'm net_scheme \<Rightarrow> 'm net_scheme result" where
  "conn_callback os app on_close (TcpConnection_handleRead c) s = handleRead os app on_close c s"
| "conn_callback os app on_close (TcpConnection_handleWrite c) s = handleWrite os c s"
| "conn_callback os app on_close (TcpConnection_handleClose c) s = handleClose os app on_close c s"
| "conn_callback os app on_close (TcpConnection_handleError c) s = Inr (handleError c s)"
| "conn_callback os app on_close EventLoop_handleRead s = Inr (EventLoop_handleRead_op s)"
| "conn_callback os app on_close _ s = Inr s"

fun conn_functor :: "os \<Rightarrow> (app_call \<Rightarrow> 'm net_scheme \<Rightarrow> api_call list) \<Rightarrow>
    (close_cb \<Rightarrow> nat \<Rightarrow> 'm net_scheme \<Rightarrow> 'm net_scheme result) \<Rightarrow> closure \<Rightarrow> 'm net_scheme \<Rightarrow> 'm net_scheme result" where
  "conn_functor os app on_close (Fn_sendInLoop_ptr c p n) s = sendInLoop_ptr os c p n s"
| "conn_functor os app on_close (Fn_sendInLoop c data) s = sendInLoop os c data s"
| "conn_functor os app on_close (Fn_shutdownInLoop c) s = shutdownInLoop c s"
| "conn_functor os app on_close (Fn_forceCloseInLoop c) s = forceCloseInLoop os app on_close c s"
| "conn_functor os app on_close (Fn_startReadInLoop c) s = startReadInLoop c s"
| "conn_functor os app on_close (Fn_stopReadInLoop c) s = stopReadInLoop c s"
| "conn_functor os app on_close (Fn_writeComplete cb c) s = run_app os app (App_writeComplete cb c) s"
| "conn_functor os app on_close (Fn_highWaterMark cb c n) s = run_app os app (App_highWaterMark cb c n) s"
| "conn_functor os app on_close (Fn_connectEstablished c) s = connectEstablished os app c s"
| "conn_functor os app on_close (Fn_connectDestroyed c) s = connectDestroyed os app c s"
| "conn_functor os app on_close _ s = Inr s"

fun conn_timer :: "timer_cb \<Rightarrow> 'm net_scheme \<Rightarrow> 'm net_scheme result" where
  "conn_timer (TC_forceClose c) s = (if conns s c = None then Inr s else forceClose (threadId s) c s)"
| "conn_timer _ s = Inr s"

datatype net_event =
    Ev_callback chan_callback
  | Ev_functor closure
  | Ev_timer timer_cb
  | Ev_api nat api_call

fun conn_event :: "os \<Rightarrow> (app_call \<Rightarrow> 'm net_scheme \<Rightarrow> api_call list) \<Rightarrow>
    (close_cb \<Rightarrow> nat \<Rightarrow> 'm net_scheme \<Rightarrow> 'm net_scheme result) \<Rightarrow> net_event \<Rightarrow> 'm net_scheme \<Rightarrow> 'm net_scheme result" where
  "conn_event os app on_close (Ev_callback cb) s = conn_callback os app on_close cb s"
| "conn_event os app on_close (Ev_functor f) s = conn_functor os app on_close f s"
| "conn_event os app on_close (Ev_timer cb) s = conn_timer cb s"
| "conn_event os app on_close (Ev_api tid call) s = exec_api os tid call s"

section \<open>Documented behaviour of the kernel\<close>

text \<open>
  write(2) takes at most as many bytes as it is offered, and at most \<open>0x7ffff000\<close>; readv(2) delivers at
  most what the buffers hold.
\<close>

definition os_documented :: "os \<Rightarrow> bool" where
  "os_documented os \<longleftrightarrow>
     (\<forall>tr fd data n. os_write os tr fd data = Inr n \<longrightarrow> n \<le> length data \<and> n \<le> 0x7ffff000) \<and>
     (\<forall>tr. readv_documented (os_readv os tr))"

section \<open>Invariant and abstraction\<close>

text \<open>
  \<open>write_inv\<close>: while the connection is not closed, its channel waits for writability exactly as
  long as there are bytes in the output buffer.
\<close>

definition write_inv :: "TcpConnection \<Rightarrow> channel \<Rightarrow> bool" where
  "write_inv tc ch \<longleftrightarrow>
     (if tc_state tc = kDisconnected then \<not> isWriting ch else isWriting ch = (contents (outputBuffer tc) \<noteq> []))"

definition conn_wf :: "'m net_scheme \<Rightarrow> TcpConnection \<Rightarrow> bool" where
  "conn_wf s tc \<longleftrightarrow>
     (\<exists>ch. chans s (tc_channel tc) = Some ch \<and> ch_fd ch = tc_socket tc \<and> fd_free s ch \<and> write_inv tc ch) \<and>
     buf_wf (inputBuffer tc) \<and> buf_wf (outputBuffer tc)"

definition net_wf :: "'m net_scheme \<Rightarrow> bool" where
  "net_wf s \<longleftrightarrow> loop_wf s \<and> (\<forall>c tc. conns s c = Some tc \<longrightarrow> conn_wf s tc) \<and>
     (\<forall>c tc d td. conns s c = Some tc \<longrightarrow> conns s d = Some td \<longrightarrow> c \<noteq> d \<longrightarrow>
        tc_channel tc \<noteq> tc_channel td \<and> tc_socket tc \<noteq> tc_socket td)"

definition written :: "fd \<Rightarrow> sys_trace \<Rightarrow> byte list" where
  "written fd tr = concat (map (\<lambda>x. case x of
       Sys_write f data (Inr n) \<Rightarrow> if f = fd then take n data else [] | _ \<Rightarrow> []) tr)"

definition received :: "fd \<Rightarrow> sys_trace \<Rightarrow> byte list" where
  "received fd tr = concat (map (\<lambda>x. case x of
       Sys_readv f (Inr got) \<Rightarrow> if f = fd then got else [] | _ \<Rightarrow> []) tr)"

definition outgoing :: "'m net_scheme \<Rightarrow> nat \<Rightarrow> byte list" where
  "outgoing s c = (case conns s c of
     None \<Rightarrow> [] | Some tc \<Rightarrow> written (tc_socket tc) (sys s) @ contents (outputBuffer tc))"

text \<open>
  What no operation of a connection changes: the thread and identity of the loop, the functors in its queue that only the owners
  of connections and of acceptors put there, and the state of the components built on it.
\<close>

fun owner_call :: "closure \<Rightarrow> bool" where
  "owner_call (Fn_connectDestroyed c) = True"
| "owner_call (Fn_removeConnectionInLoop v c) = True"
| "owner_call (Fn_Acceptor_listen k) = True"
| "owner_call _ = False"

definition owner_calls :: "'m loop_scheme \<Rightarrow> closure option list" where
  "owner_calls s = filter (\<lambda>f. \<exists>g. f = Some g \<and> owner_call g) (pendingFunctors s)"

definition home :: "'m net_scheme \<Rightarrow> nat \<times> nat \<times> closure option list \<times> 'm" where
  "home s = (threadId s, loop_id s, owner_calls s, net.more s)"

section \<open>Lemmas on the invariant\<close>

lemma with_conn_simps [simp]:
  "conns s c = Some tc \<Longrightarrow> with_conn c s f = f tc"
  "conns s c = None \<Longrightarrow> with_conn c s f = Inl Bad_pointer"
  by (simp_all add: with_conn_def)

lemma with_conn_eq_Inr [result_simps]:
  "with_conn c s f = Inr y \<longleftrightarrow> (\<exists>tc. conns s c = Some tc \<and> f tc = Inr y)"
  by (auto simp: with_conn_def split: option.splits)

lemma written_append [simp]: "written fd (a @ b) = written fd a @ written fd b"
  by (simp add: written_def)

lemma received_append [simp]: "received fd (a @ b) = received fd a @ received fd b"
  by (simp add: received_def)

lemma written_simps [simp]:
  "written fd [] = []"
  "written fd [Sys_write f data (Inr n)] = (if f = fd then take n data else [])"
  "written fd [Sys_write f data (Inl e)] = []"
  "written fd [Sys_shutdown f] = []" "written fd [Sys_readv f a] = []" "written fd [Sys_setsockopt f opt v] = []"
  by (simp_all add: written_def)

lemma received_simps [simp]:
  "received fd [] = []"
  "received fd [Sys_readv f (Inr got)] = (if f = fd then got else [])"
  "received fd [Sys_readv f (Inl e)] = []"
  "received fd [Sys_shutdown f] = []" "received fd [Sys_write f data a] = []" "received fd [Sys_setsockopt f opt v] = []"
  by (simp_all add: received_def)

lemma isWriting_bit: "isWriting ch \<longleftrightarrow> bit (events ch) 2"
  using and_exp_eq_0_iff_not_bit [of "events ch" 2]
  by (simp add: isWriting_def has_flag_def kWriteEvent_def POLLOUT_def)

lemma bit_kReadEvent: "bit kReadEvent 2 = False" "bit kWriteEvent 2 = True"
  by (simp_all add: kReadEvent_def kWriteEvent_def poll_flag_defs bit_simps) 

lemma write_interest_bit [simp]:
  "bit (ev OR kReadEvent) 2 = bit ev 2" "bit (ev AND NOT kReadEvent) 2 = bit ev 2"
  "bit (ev OR kWriteEvent) 2" "\<not> bit (ev AND NOT kWriteEvent) 2" "\<not> bit kNoneEvent 2"
  for ev :: cint
  by (simp_all add: bit_simps bit_kReadEvent kNoneEvent_def)

lemma net_wf_cong:
  assumes "chans t = chans s" "channels t = channels s" "epoll_log t = epoll_log s" "loop_id t = loop_id s"
    "conns t = conns s"
  shows "net_wf t = net_wf s"
proof -
  have "loop_wf t = loop_wf s"
    using assms poller_wf_cong [of t s] by (simp add: loop_wf_def)
  moreover have "conn_wf t tc = conn_wf s tc" for tc
    using assms by (simp add: conn_wf_def fd_free_def)
  ultimately show ?thesis using assms by (simp add: net_wf_def)
qed

lemma net_wf_upd [simp]:
  "net_wf (s\<lparr>sys := tr\<rparr>) = net_wf s"
  "net_wf (s\<lparr>conn_log := cl\<rparr>) = net_wf s"
  "net_wf (s\<lparr>caller_mem := m\<rparr>) = net_wf s"
  "net_wf (queueInLoop tid cb s) = net_wf s"
  "net_wf (EventLoop_quit tid s) = net_wf s"
  "net_wf (EventLoop_handleRead_op s) = net_wf s"
  by (rule net_wf_cong; simp add: queueInLoop_def queue_wake_def queue_push_def wakeup_def EventLoop_quit_def
      EventLoop_handleRead_op_def Let_def)+

lemma queueInLoop_fields [simp]:
  "conns (queueInLoop tid cb s) = conns s" "sys (queueInLoop tid cb s) = sys s" "chans (queueInLoop tid cb s) = chans s"
  "threadId (queueInLoop tid cb s) = threadId s" "conn_log (queueInLoop tid cb s) = conn_log s"
  "caller_mem (queueInLoop tid cb s) = caller_mem s"
  by (simp_all add: queueInLoop_def queue_wake_def queue_push_def wakeup_def)

lemma after_update_fields [simp]:
  "conns (after_update d ch ev s) = conns s" "sys (after_update d ch ev s) = sys s"
  "threadId (after_update d ch ev s) = threadId s" "conn_log (after_update d ch ev s) = conn_log s"
  "pendingFunctors (after_update d ch ev s) = pendingFunctors s" "caller_mem (after_update d ch ev s) = caller_mem s"
  "chans (after_update d ch ev s) d = Some (ch\<lparr>events := ev, addedToLoop := True, index := next_index ch ev\<rparr>)"
  by (simp_all add: after_update_def)

lemma home_simps [simp]:
  "home (s\<lparr>sys := tr\<rparr>) = home s" "home (s\<lparr>conn_log := cl\<rparr>) = home s" "home (s\<lparr>caller_mem := m\<rparr>) = home s"
  "\<not> owner_call f \<Longrightarrow> home (queueInLoop tid (Some f) s) = home s" "home (queueInLoop tid None s) = home s"
  "home (after_update d ch ev s) = home s" "home (put_conn c tc s) = home s"
  "home (put_chan d ch s) = home s" "home (EventLoop_quit tid s) = home s" "home (EventLoop_handleRead_op s) = home s"
  by (simp_all add: home_def owner_calls_def queueInLoop_def queue_wake_def queue_push_def wakeup_def after_update_def put_conn_def
      put_chan_def EventLoop_quit_def EventLoop_handleRead_op_def Let_def)

lemma wake_put_fields [simp]:
  "conns (EventLoop_handleRead_op s) = conns s" "conn_log (EventLoop_handleRead_op s) = conn_log s"
  "conns (put_chan d ch s) = conns s" "conn_log (put_chan d ch s) = conn_log s" "sys (put_chan d ch s) = sys s"
  by (simp_all add: EventLoop_handleRead_op_def put_chan_def)

lemma homeD:
  assumes "home t = home s"
  shows "threadId t = threadId s" and "loop_id t = loop_id s" and "net.more t = net.more s" and "owner_calls t = owner_calls s"
  using assms by (simp_all add: home_def)

text \<open>\<open>connectDestroyed\<close> waits in the queue of the loop.\<close>

definition waiting :: "'m loop_scheme \<Rightarrow> nat \<Rightarrow> bool" where
  "waiting s c \<longleftrightarrow> Some (Fn_connectDestroyed c) \<in> set (pendingFunctors s)"

lemma waiting_owner: "waiting s c \<longleftrightarrow> Some (Fn_connectDestroyed c) \<in> set (owner_calls s)"
  by (simp add: waiting_def owner_calls_def)

lemma waiting_home: "home t = home s \<Longrightarrow> waiting t = waiting s"
proof
  fix c assume "home t = home s"
  then have "owner_calls t = owner_calls s" by (rule homeD)
  then show "waiting t c = waiting s c" by (simp only: waiting_owner)
qed

lemma waiting_queued: "pendingFunctors t = pendingFunctors s \<Longrightarrow> waiting t = waiting s"
  by (simp add: waiting_def fun_eq_iff)

lemma waiting_queue [simp]: "waiting (queueInLoop tid (Some f) s) c \<longleftrightarrow> waiting s c \<or> f = Fn_connectDestroyed c"
  by (auto simp: waiting_def)

lemma put_conn_fields [simp]:
  "conns (put_conn c tc s) = (conns s)(c \<mapsto> tc)" "sys (put_conn c tc s) = sys s" "chans (put_conn c tc s) = chans s"
  "threadId (put_conn c tc s) = threadId s" "conn_log (put_conn c tc s) = conn_log s"
  "pendingFunctors (put_conn c tc s) = pendingFunctors s" "loop_id (put_conn c tc s) = loop_id s"
  "caller_mem (put_conn c tc s) = caller_mem s"
  by (simp_all add: put_conn_def)

lemma net_wfD:
  assumes "net_wf s" and "conns s c = Some tc"
  obtains ch where "chans s (tc_channel tc) = Some ch" "ch_fd ch = tc_socket tc" "fd_free s ch" "write_inv tc ch"
    "buf_wf (inputBuffer tc)" "buf_wf (outputBuffer tc)" "loop_wf s"
  using assms unfolding net_wf_def conn_wf_def by blast

lemma loop_wf_put_conn [simp]: "loop_wf (put_conn c tc s) = loop_wf s"
  using poller_wf_cong [of "put_conn c tc s" s] by (simp add: loop_wf_def put_conn_def)

text \<open>Changing a connection without touching its channel.\<close>

lemma put_conn_wf:
  assumes wf: "net_wf s" and tc: "conns s c = Some tc"
    and same: "tc_channel tc' = tc_channel tc" "tc_socket tc' = tc_socket tc"
    and buf: "buf_wf (inputBuffer tc')" "buf_wf (outputBuffer tc')"
    and wi: "\<And>ch. write_inv tc ch \<Longrightarrow> chans s (tc_channel tc) = Some ch \<Longrightarrow> write_inv tc' ch"
  shows "net_wf (put_conn c tc' s)"
proof -
  have "conn_wf (put_conn c tc' s) td \<longleftrightarrow> conn_wf s td" for td
    by (simp add: conn_wf_def fd_free_def put_conn_def)
  moreover have "conn_wf s tc'"
    using wf tc same buf wi unfolding net_wf_def conn_wf_def by fastforce
  ultimately show ?thesis
    using wf tc same unfolding net_wf_def by (auto split: if_splits)
qed

text \<open>Changing a connection and the interest of its channel.\<close>

lemma conn_interest:
  assumes wf: "net_wf s" and tc: "conns s c = Some tc" and ch: "chans s (tc_channel tc) = Some ch"
    and same: "tc_channel tc' = tc_channel tc" "tc_socket tc' = tc_socket tc"
    and buf: "buf_wf (inputBuffer tc')" "buf_wf (outputBuffer tc')"
    and wi: "write_inv tc' (ch\<lparr>events := interest op (events ch)\<rparr>)"
  defines "t \<equiv> after_update (tc_channel tc) ch (interest op (events ch)) (put_conn c tc' s)"
  shows "channel_op op (tc_channel tc) (put_conn c tc' s) = Inr t" and "net_wf t"
proof -
  from wf tc obtain x where "chans s (tc_channel tc) = Some x" "ch_fd x = tc_socket tc" "fd_free s x" "loop_wf s"
    by (rule net_wfD)
  with ch have fd: "ch_fd ch = tc_socket tc" and lwf: "loop_wf (put_conn c tc' s)" and "fd_free s ch"
    by simp_all
  then have free: "fd_free (put_conn c tc' s) ch" by (simp add: fd_free_def put_conn_def)
  have ch': "chans (put_conn c tc' s) (tc_channel tc) = Some ch" using ch by simp
  show "channel_op op (tc_channel tc) (put_conn c tc' s) = Inr t"
    unfolding t_def by (rule channel_op_eq [OF lwf ch' free])
  have lt: "loop_wf t" unfolding t_def by (rule after_update_loop_wf [OF lwf ch' free])
  have other: "conn_wf t td" if d: "conns s d = Some td" "d \<noteq> c" for d td
  proof -
    have ne: "tc_channel td \<noteq> tc_channel tc" "tc_socket td \<noteq> tc_socket tc"
      using wf tc d unfolding net_wf_def by metis+
    from wf d(1) obtain x where "chans s (tc_channel td) = Some x" "ch_fd x = tc_socket td" "fd_free s x"
      "write_inv td x" "buf_wf (inputBuffer td)" "buf_wf (outputBuffer td)"
      by (rule net_wfD)
    with ne fd show ?thesis
      by (simp add: conn_wf_def t_def after_update_def put_conn_def fd_free_def)
  qed
  have "write_inv tc' (ch\<lparr>events := interest op (events ch), addedToLoop := True, index := i\<rparr>)" for i
    using wi by (auto simp: write_inv_def isWriting_bit split: if_splits)
  then have "conn_wf t tc'"
    using same buf fd
    by (simp add: conn_wf_def t_def after_update_def fd_free_def next_index_def)
  then show "net_wf t"
    using wf tc same lt other unfolding net_wf_def by (auto simp: t_def split: if_splits)
qed

section \<open>Sending\<close>

lemma queue_callbacks_simps [simp]:
  "net_wf (queue_writeComplete c tc s) = net_wf s" "net_wf (queue_highWaterMark c tc n s) = net_wf s"
  "conns (queue_writeComplete c tc s) = conns s" "conns (queue_highWaterMark c tc n s) = conns s"
  "sys (queue_writeComplete c tc s) = sys s" "sys (queue_highWaterMark c tc n s) = sys s"
  "chans (queue_writeComplete c tc s) = chans s" "chans (queue_highWaterMark c tc n s) = chans s"
  "threadId (queue_writeComplete c tc s) = threadId s" "threadId (queue_highWaterMark c tc n s) = threadId s"
  "conn_log (queue_writeComplete c tc s) = conn_log s" "conn_log (queue_highWaterMark c tc n s) = conn_log s"
  "home (queue_writeComplete c tc s) = home s" "home (queue_highWaterMark c tc n s) = home s"
  "caller_mem (queue_writeComplete c tc s) = caller_mem s" "caller_mem (queue_highWaterMark c tc n s) = caller_mem s"
  by (simp_all add: queue_writeComplete_def queue_highWaterMark_def split: option.splits)

text \<open>What \<open>buffer_rest\<close> does: the bytes join the output buffer and the channel waits for writability.\<close>

lemma buffer_rest_ok:
  assumes wf: "net_wf s" and tc: "conns s c = Some tc" and ch: "chans s (tc_channel tc) = Some ch"
    and opn: "tc_state tc \<noteq> kDisconnected" and rest: "rest \<noteq> []" "length rest < 2 ^ 63"
  obtains (fault) "buffer_rest c tc ch rest s = Inl Length_error"
      "2 ^ 63 \<le> unat (writerIndex (outputBuffer tc)) + length rest"
  | (ok) t ob where "buffer_rest c tc ch rest s = Inr t" "net_wf t" "contents ob = contents (outputBuffer tc) @ rest"
      "conns t = (conns s)(c \<mapsto> tc\<lparr>outputBuffer := ob\<rparr>)" "sys t = sys s" "conn_log t = conn_log s"
      "home t = home s" "caller_mem t = caller_mem s"
      "pendingFunctors t = pendingFunctors s @
         (case highWaterMarkCallback tc of None \<Rightarrow> []
          | Some cb \<Rightarrow> if highWaterMark tc \<le> readableBytes (outputBuffer tc) + of_nat (length rest) \<and>
                readableBytes (outputBuffer tc) < highWaterMark tc
              then [Some (Fn_highWaterMark cb c (readableBytes (outputBuffer tc) + of_nat (length rest)))] else [])"
proof -
  let ?oldLen = "readableBytes (outputBuffer tc)"
  let ?n = "?oldLen + of_nat (length rest)"
  define s1 where "s1 = (if highWaterMark tc \<le> ?n \<and> ?oldLen < highWaterMark tc
    then queue_highWaterMark c tc ?n s else s)"
  have queued: "pendingFunctors s1 = pendingFunctors s @ (case highWaterMarkCallback tc of None \<Rightarrow> []
      | Some cb \<Rightarrow> if highWaterMark tc \<le> ?n \<and> ?oldLen < highWaterMark tc then [Some (Fn_highWaterMark cb c ?n)] else [])"
    by (simp add: s1_def queue_highWaterMark_def split: option.splits)
  have s1: "net_wf s1" "conns s1 = conns s" "sys s1 = sys s" "chans s1 = chans s" "conn_log s1 = conn_log s"
    "home s1 = home s" "caller_mem s1 = caller_mem s"
    using wf by (simp_all add: s1_def)
  from wf tc obtain x where "chans s (tc_channel tc) = Some x" "write_inv tc x"
    and bw: "buf_wf (outputBuffer tc)" "buf_wf (inputBuffer tc)"
    by (rule net_wfD)
  with ch have wi: "write_inv tc ch" by simp
  from bw(1) rest(2) show thesis
  proof (cases rule: append_cases)
    case fault
    then show thesis by (intro that(1)) (simp_all add: buffer_rest_def Let_def)
  next
    case (ok ob)
    let ?tc = "tc\<lparr>outputBuffer := ob\<rparr>"
    have ne: "contents ob \<noteq> []" using ok(3) rest(1) by simp
    show thesis
    proof (cases "isWriting ch")
      case True
      have "net_wf (put_conn c ?tc s1)"
        using s1 tc ch bw ok True ne opn by (intro put_conn_wf [of s1 c tc]) (auto simp: write_inv_def)
      moreover have "buffer_rest c tc ch rest s = Inr (put_conn c ?tc s1)"
        using ok True by (simp add: buffer_rest_def Let_def s1_def)
      ultimately show thesis using ok s1 queued by (intro that(2) [of "put_conn c ?tc s1" ob]) simp_all
    next
      case False
      let ?t = "after_update (tc_channel tc) ch (interest EnableWriting (events ch)) (put_conn c ?tc s1)"
      have "channel_op EnableWriting (tc_channel tc) (put_conn c ?tc s1) = Inr ?t" "net_wf ?t"
        using s1 tc ch bw ok ne opn
        by (intro conn_interest [of s1 c tc ch ?tc EnableWriting]; simp add: write_inv_def isWriting_bit)+
      moreover have "buffer_rest c tc ch rest s = enableWriting (tc_channel tc) (put_conn c ?tc s1)"
        using ok False by (simp add: buffer_rest_def Let_def s1_def)
      ultimately show thesis using ok s1 queued by (intro that(2) [of ?t ob]) simp_all
    qed
  qed
qed

text \<open>
  The outcomes of \<open>sendInLoop\<close> on an open connection: the output buffer cannot grow any more; the
  kernel reported a dead connection; or the bytes are written or buffered, in order.
\<close>

lemma sendInLoop_cases:
  assumes wf: "net_wf s" and os: "os_documented os" and tc: "conns s c = Some tc"
    and opn: "tc_state tc \<noteq> kDisconnected" and len: "length data < 2 ^ 63"
  obtains (fault) "sendInLoop os c data s = Inl Length_error"
      "2 ^ 63 \<le> unat (writerIndex (outputBuffer tc)) + length data"
  | (dead) t err where "sendInLoop os c data s = Inr t" "net_wf t" "conns t = conns s" "err = EPIPE \<or> err = ECONNRESET"
      "sys t = sys s @ [Sys_write (tc_socket tc) data (Inl err)]" "conn_log t = conn_log s" "home t = home s"
      "caller_mem t = caller_mem s" "os_write os (sys s) (tc_socket tc) data = Inl err"
  | (ok) t tc' new where "sendInLoop os c data s = Inr t" "net_wf t" "conns t = (conns s)(c \<mapsto> tc')"
      "tc' = tc\<lparr>outputBuffer := outputBuffer tc'\<rparr>" "sys t = sys s @ new"
      "written (tc_socket tc) new @ contents (outputBuffer tc') = contents (outputBuffer tc) @ data"
      "\<And>x. x \<in> set new \<Longrightarrow> \<exists>a. x = Sys_write (tc_socket tc) data a \<and> a \<noteq> Inl EPIPE \<and> a \<noteq> Inl ECONNRESET"
      "conn_log t = conn_log s" "home t = home s" "caller_mem t = caller_mem s"
proof -
  note concl = that
  from wf tc obtain ch where ch: "chans s (tc_channel tc) = Some ch" and bw: "buf_wf (outputBuffer tc)"
    and wi: "write_inv tc ch"
    by (rule net_wfD)
  let ?direct = "\<not> isWriting ch \<and> readableBytes (outputBuffer tc) = 0"
  have direct: "?direct \<longleftrightarrow> contents (outputBuffer tc) = []"
    using wi opn contents_empty_iff [OF bw] by (auto simp: write_inv_def)
  have tc_eq: "tc = tc\<lparr>outputBuffer := outputBuffer tc\<rparr>" by simp
  have buffered: thesis
    if s1: "net_wf s1" "conns s1 = conns s" "chans s1 = chans s" "conn_log s1 = conn_log s" "home s1 = home s"
        "caller_mem s1 = caller_mem s"
      and new: "sys s1 = sys s @ new"
        "\<And>x. x \<in> set new \<Longrightarrow> \<exists>a. x = Sys_write (tc_socket tc) data a \<and> a \<noteq> Inl EPIPE \<and> a \<noteq> Inl ECONNRESET"
      and n: "n < length data" "written (tc_socket tc) new = take n data" "n = 0 \<or> contents (outputBuffer tc) = []"
      and send: "sendInLoop os c data s = buffer_rest c tc ch (drop n data) s1" for s1 new n
  proof -
    have tc1: "conns s1 c = Some tc" and ch1: "chans s1 (tc_channel tc) = Some ch"
      and ne: "drop n data \<noteq> []" "length (drop n data) < 2 ^ 63"
      using s1 tc ch n len by simp_all
    from s1(1) tc1 ch1 opn ne show thesis
    proof (cases rule: buffer_rest_ok)
      case fault
      then show thesis using send by (intro concl(1)) simp_all
    next
      case (ok t ob)
      then show thesis using send s1 new n
        by (intro concl(3) [of t "tc\<lparr>outputBuffer := ob\<rparr>" new]) auto
    qed
  qed
  show thesis
  proof (cases ?direct)
    case False
    show thesis
    proof (cases "data = []")
      case True
      then show thesis using False tc ch opn wf
        by (intro concl(3) [of s tc "[]"]) (auto simp: sendInLoop_def)
    next
      case nonempty: False
      show thesis by (rule buffered [of s "[]" 0]) (use False nonempty tc ch opn wf in \<open>auto simp: sendInLoop_def\<close>)
    qed
  next
    case True
    let ?a = "os_write os (sys s) (tc_socket tc) data"
    let ?s1 = "s\<lparr>sys := sys s @ [Sys_write (tc_socket tc) data ?a]\<rparr>"
    show thesis
    proof (cases ?a)
      case (Inl err)
      show thesis
      proof (cases "err = EPIPE \<or> err = ECONNRESET")
        case fault: True
        then have "err \<noteq> EAGAIN" by (auto simp: errno_defs)
        with fault Inl True tc ch opn have "sendInLoop os c data s = Inr ?s1"
          by (auto simp: sendInLoop_def direct_write_def Let_def)
        then show thesis using Inl wf fault by (intro concl(2) [of ?s1 err]) simp_all
      next
        case alive: False
        show thesis
        proof (cases "data = []")
          case empty: True
          show thesis using Inl True alive tc ch opn wf direct empty
            by (intro concl(3) [of ?s1 tc "[Sys_write (tc_socket tc) data ?a]"]) (auto simp: sendInLoop_def direct_write_def)
        next
          case nonempty: False
          show thesis by (rule buffered [of ?s1 "[Sys_write (tc_socket tc) data ?a]" 0])
              (use Inl True alive nonempty tc ch opn wf in \<open>auto simp: sendInLoop_def direct_write_def\<close>)
        qed
      qed
    next
      case (Inr n)
      then have n: "n \<le> length data" using os by (auto simp: os_documented_def)
      show thesis
      proof (cases "n = length data")
        case all: True
        show thesis using Inr True all tc ch opn wf direct
          by (intro concl(3) [of "queue_writeComplete c tc ?s1" tc "[Sys_write (tc_socket tc) data ?a]"])
            (auto simp: sendInLoop_def direct_write_def Let_def)
      next
        case some: False
        show thesis by (rule buffered [of ?s1 "[Sys_write (tc_socket tc) data ?a]" n])
            (use Inr True some n tc ch opn wf direct in \<open>auto simp: sendInLoop_def direct_write_def Let_def\<close>)
      qed
    qed
  qed
qed

section \<open>Handlers keep the invariant\<close>

lemma handleWrite_cases:
  assumes wf: "net_wf s" and os: "os_documented os" and tc: "conns s c = Some tc"
  obtains t tc' new where "handleWrite os c s = Inr t" "net_wf t" "conns t = (conns s)(c \<mapsto> tc')"
    "tc' = tc\<lparr>outputBuffer := outputBuffer tc'\<rparr>" "sys t = sys s @ new"
    "written (tc_socket tc) new @ contents (outputBuffer tc') = contents (outputBuffer tc)"
    "Sys_shutdown (tc_socket tc) \<in> set new \<longleftrightarrow>
       tc_state tc = kDisconnecting \<and> contents (outputBuffer tc) \<noteq> [] \<and> contents (outputBuffer tc') = []"
    "conn_log t = conn_log s" "home t = home s"
proof -
  from wf tc obtain ch where ch: "chans s (tc_channel tc) = Some ch" and bw: "buf_wf (outputBuffer tc)"
    "buf_wf (inputBuffer tc)" and wi: "write_inv tc ch"
    by (rule net_wfD)
  let ?data = "contents (outputBuffer tc)"
  let ?a = "os_write os (sys s) (tc_socket tc) ?data"
  let ?s1 = "s\<lparr>sys := sys s @ [Sys_write (tc_socket tc) ?data ?a]\<rparr>"
  have peek: "peek_bytes (unat (readableBytes (outputBuffer tc))) (outputBuffer tc) = Inr ?data"
    using peek_bytes_contents [OF bw(1), of "length ?data"] length_contents [OF bw(1)] by simp
  show thesis
  proof (cases "isWriting ch")
    case False
    then have "\<not> (tc_state tc = kDisconnecting \<and> contents (outputBuffer tc) \<noteq> [])"
      using wi by (auto simp: write_inv_def)
    then show thesis using False tc ch wf by (intro that [of s tc "[]"]) (auto simp: handleWrite_def)
  next
    case writing: True
    show thesis
    proof (cases ?a)
      case (Inl err)
      then show thesis using writing tc ch wf peek
        by (intro that [of ?s1 tc "[Sys_write (tc_socket tc) ?data ?a]"]) (auto simp: handleWrite_def)
    next
      case (Inr n)
      then have "n \<le> length ?data \<and> n \<le> 0x7ffff000" using os unfolding os_documented_def by blast
      then have n: "n \<le> length ?data" "n < 2 ^ 31" by simp_all
      let ?ob = "retrieve (of_nat n) (outputBuffer tc)"
      let ?tc = "tc\<lparr>outputBuffer := ?ob\<rparr>"
      have ob: "contents ?ob = drop n ?data" "buf_wf ?ob"
        using bw(1) n(2) by (simp_all add: retrieve_of_nat)
      have st: "tc_state tc \<noteq> kDisconnected" using wi writing by (auto simp: write_inv_def)
      consider "n = 0" | "n \<noteq> 0" "n < length ?data" | "n \<noteq> 0" "n = length ?data" using n(1) by linarith
      then show thesis
      proof cases
        case 1
        then show thesis using Inr writing tc ch wf peek
          by (intro that [of ?s1 tc "[Sys_write (tc_socket tc) ?data ?a]"]) (auto simp: handleWrite_def)
      next
        case 2
        then have "contents ?ob \<noteq> []" using ob by simp
        then have "readableBytes ?ob \<noteq> 0" using contents_empty_iff [OF ob(2)] by simp
        then have "handleWrite os c s = Inr (put_conn c ?tc ?s1)"
          using Inr 2 writing tc ch peek by (simp add: handleWrite_def Let_def)
        moreover have "net_wf (put_conn c ?tc ?s1)"
          using wf tc ch bw ob \<open>contents ?ob \<noteq> []\<close> writing st
          by (intro put_conn_wf [of ?s1 c tc]) (auto simp: write_inv_def)
        ultimately show thesis using Inr ob \<open>contents ?ob \<noteq> []\<close>
          by (intro that [of "put_conn c ?tc ?s1" ?tc "[Sys_write (tc_socket tc) ?data ?a]"]) auto
      next
        case 3
        then have empty: "contents ?ob = []" using ob by simp
        then have r0: "readableBytes ?ob = 0" using contents_empty_iff [OF ob(2)] by simp
        let ?ev = "interest DisableWriting (events ch)"
        let ?s3 = "after_update (tc_channel tc) ch ?ev (put_conn c ?tc ?s1)"
        let ?s4 = "queue_writeComplete c tc ?s3"
        have di: "channel_op DisableWriting (tc_channel tc) (put_conn c ?tc ?s1) = Inr ?s3" "net_wf ?s3"
          using wf tc ch bw ob empty
          by (intro conn_interest [of ?s1 c tc ch ?tc DisableWriting]; simp add: write_inv_def isWriting_bit)+
        have "\<not> isWriting (ch\<lparr>events := ?ev, addedToLoop := True, index := next_index ch ?ev\<rparr>)"
          by (simp add: isWriting_bit)
        then have sd: "shutdownInLoop c ?s4 = Inr (?s4\<lparr>sys := sys ?s4 @ [Sys_shutdown (tc_socket tc)]\<rparr>)"
          by (simp add: shutdownInLoop_def Socket_shutdownWrite_def)
        have hw: "handleWrite os c s = (if tc_state tc = kDisconnecting then shutdownInLoop c ?s4 else Inr ?s4)"
          using Inr 3 writing tc ch peek r0 di by (simp add: handleWrite_def Let_def)
        show thesis
        proof (cases "tc_state tc = kDisconnecting")
          case True
          then show thesis using hw sd di(2) Inr 3 empty
            by (intro that [of "?s4\<lparr>sys := sys ?s4 @ [Sys_shutdown (tc_socket tc)]\<rparr>" ?tc
                  "[Sys_write (tc_socket tc) ?data ?a, Sys_shutdown (tc_socket tc)]"]) (auto simp: written_def)
        next
          case False
          then show thesis using hw di(2) Inr 3 empty
            by (intro that [of ?s4 ?tc "[Sys_write (tc_socket tc) ?data ?a]"]) auto
        qed
      qed
    qed
  qed
qed

end
