(* ===== verification/Siren_Connection.thy ===== *)
theory Siren_Connection
  imports Siren_TcpConnection
begin

text \<open>
  Properties of connections: what user code can do to them, that every handler keeps the invariant
  of \<open>Siren_TcpConnection\<close>, the integrity of the byte streams in both directions, and the life cycle.
\<close>


section \<open>Calls of the public interface\<close>

text \<open>
  What user code can change of the connections: buffers, reading, and the state from connected to
  disconnecting. The identity of the channel, the socket and the callbacks stay.
\<close>

definition conn_frame :: "TcpConnection \<Rightarrow> TcpConnection \<Rightarrow> bool" where
  "conn_frame tc tc' \<longleftrightarrow> tc_name tc' = tc_name tc \<and> tc_channel tc' = tc_channel tc \<and> tc_socket tc' = tc_socket tc \<and>
     connectionCallback tc' = connectionCallback tc \<and> messageCallback tc' = messageCallback tc \<and>
     tc_closeCallback tc' = tc_closeCallback tc \<and>
     (tc_state tc' = tc_state tc \<or> tc_state tc = kConnected \<and> tc_state tc' = kDisconnecting)"

definition api_frame :: "'m net_scheme \<Rightarrow> 'm net_scheme \<Rightarrow> bool" where
  "api_frame s t \<longleftrightarrow> net_wf t \<and> (\<forall>c. rel_option conn_frame (conns s c) (conns t c)) \<and>
     conn_log t = conn_log s \<and> home t = home s"

lemma conn_frame_refl [simp]: "conn_frame tc tc"
  by (simp add: conn_frame_def)

lemma conn_frame_trans: "conn_frame a b \<Longrightarrow> conn_frame b c \<Longrightarrow> conn_frame a c"
  by (auto simp: conn_frame_def)

lemma api_frame_refl: "net_wf s \<Longrightarrow> api_frame s s"
  by (simp add: api_frame_def option.rel_refl)

lemma api_frame_trans:
  assumes "api_frame s t" and "api_frame t u"
  shows "api_frame s u"
proof -
  have "rel_option conn_frame (conns s c) (conns u c)" for c
    using assms unfolding api_frame_def
    by (cases "conns s c"; cases "conns t c"; cases "conns u c") (metis option.rel_sel option.sel option.distinct(1) conn_frame_trans)+
  then show ?thesis using assms by (simp add: api_frame_def)
qed

lemma api_frame_same:
  "net_wf t \<Longrightarrow> conns t = conns s \<Longrightarrow> conn_log t = conn_log s \<Longrightarrow> home t = home s \<Longrightarrow> api_frame s t"
  by (simp add: api_frame_def option.rel_refl)

lemma api_frame_upd:
  "net_wf t \<Longrightarrow> conns t = (conns s)(c \<mapsto> tc') \<Longrightarrow> conns s c = Some tc \<Longrightarrow> conn_frame tc tc' \<Longrightarrow>
   conn_log t = conn_log s \<Longrightarrow> home t = home s \<Longrightarrow> api_frame s t"
  by (simp add: api_frame_def option.rel_refl)

lemma api_frameD:
  assumes "api_frame s t"
  shows "net_wf t" and "conn_log t = conn_log s" and "home t = home s"
    and "conns s c = Some tc \<Longrightarrow> \<exists>tc'. conns t c = Some tc' \<and> conn_frame tc tc'"
  using assms unfolding api_frame_def by (auto elim!: allE [of _ c] simp: option_rel_Some1)

lemma rfold_api_frame:
  assumes "\<And>x s t. net_wf s \<Longrightarrow> f x s = Inr t \<Longrightarrow> api_frame s t" and "net_wf s" and "rfold f xs s = Inr t"
  shows "api_frame s t"
  using assms(2,3)
proof (induction xs arbitrary: s)
  case Nil
  then show ?case by (simp add: api_frame_refl)
next
  case (Cons x xs)
  then obtain u where u: "f x s = Inr u" "rfold f xs u = Inr t" by (auto simp: rbind_eq_Inr)
  with assms(1) Cons.prems have "api_frame s u" by blast
  with Cons.IH [of u] u show ?case by (blast intro: api_frame_trans dest: api_frameD(1))
qed

lemma sendInLoop_frame:
  assumes wf: "net_wf s" and os: "os_documented os" and len: "length data < 2 ^ 63"
    and run: "sendInLoop os c data s = Inr t"
  shows "api_frame s t"
proof -
  obtain tc where tc: "conns s c = Some tc" using run by (auto simp: sendInLoop_def result_simps)
  show ?thesis
  proof (cases "tc_state tc = kDisconnected")
    case True
    with run tc wf show ?thesis by (auto simp: sendInLoop_def result_simps api_frame_refl)
  next
    case False
    from wf os tc False len show ?thesis
    proof (cases rule: sendInLoop_cases)
      case fault
      then show ?thesis using run by simp
    next
      case (dead t' err)
      then show ?thesis using run by (auto intro: api_frame_same)
    next
      case (ok t' tc' new)
      have "conn_frame tc tc'" by (subst ok(4)) (simp add: conn_frame_def)
      with ok tc run show ?thesis by (auto intro: api_frame_upd)
    qed
  qed
qed

lemma sendInLoop_ptr_frame:
  assumes "net_wf s" and "os_documented os" and "n < 2 ^ 63" and "sendInLoop_ptr os c p n s = Inr t"
  shows "api_frame s t"
proof -
  obtain x where "n \<le> length x" "sendInLoop os c (take n x) s = Inr t"
    using assms(4) by (auto simp: sendInLoop_ptr_def with_mem_def split: option.splits if_splits)
  then show ?thesis using assms(1-3) by (intro sendInLoop_frame [of s os "take n x" c]) simp_all
qed

lemma runInLoop_frame:
  assumes "net_wf s" and "runInLoop g tid (Some f) s = Inr t" and "\<And>t. g f s = Inr t \<Longrightarrow> api_frame s t"
    and "\<not> owner_call f"
  shows "api_frame s t"
  using assms by (auto simp: runInLoop_def intro!: api_frame_same split: if_splits)

lemma nat_sint_bound: "nat (sint (len :: cint)) < 2 ^ 63"
  using sint_lt [of len] by simp

lemma send_ptr_frame:
  assumes "net_wf s" and "os_documented os" and "send_ptr os tid c p len s = Inr t"
  shows "api_frame s t"
proof -
  have send: "api_frame s u" if "sendInLoop_ptr os c p (nat (sint len)) s = Inr u" for u
    using assms(1,2) nat_sint_bound that by (rule sendInLoop_ptr_frame)
  have "api_frame s t" if "runInLoop (\<lambda>f. sendInLoop_ptr os c p (nat (sint len))) tid
      (Some (Fn_sendInLoop_ptr c p (nat (sint len)))) s = Inr t"
    using assms(1) that by (rule runInLoop_frame) (use send in simp_all)
  with send show ?thesis
    using assms(1,3) by (auto simp: send_ptr_def result_simps api_frame_refl split: if_splits)
qed

lemma send_buffer_frame:
  assumes wf: "net_wf s" and os: "os_documented os" and bw: "buf_wf buf" and run: "send_buffer os tid c buf s = Inr (buf', t)"
  shows "api_frame s t" and "buf_wf buf'"
proof -
  have peek: "peek_bytes (unat (readableBytes buf)) buf = Inr (contents buf)"
    using peek_bytes_contents [OF bw, of "length (contents buf)"] length_contents [OF bw] by simp
  have all: "data = contents buf \<and> buf_wf b" if "retrieveAllAsString buf = Inr (data, b)" for data b
    using that peek bw by (auto simp: retrieveAllAsString_def retrieveAsString_def result_simps split: if_splits)
  have send: "api_frame s u" if "sendInLoop os c (contents buf) s = Inr u" for u
    using wf os contents_bound [OF bw] that by (rule sendInLoop_frame)
  have "api_frame s u" if "runInLoop (\<lambda>f. sendInLoop os c (contents buf)) tid
      (Some (Fn_sendInLoop c (contents buf))) s = Inr u" for u
    using wf that by (rule runInLoop_frame) (use send in simp_all)
  with send show "api_frame s t" "buf_wf buf'"
    using run peek wf bw by (auto simp: send_buffer_def result_simps api_frame_refl split: if_splits dest!: all)
qed

lemma shutdownInLoop_cases:
  assumes wf: "net_wf s" and run: "shutdownInLoop c s = Inr t"
  obtains tc where "conns s c = Some tc" "net_wf t" "conns t = conns s" "conn_log t = conn_log s" "home t = home s"
    "sys t = sys s @ (if tc_state tc = kDisconnected \<or> contents (outputBuffer tc) = []
       then [Sys_shutdown (tc_socket tc)] else [])"
proof -
  obtain tc where tc: "conns s c = Some tc" using run by (auto simp: shutdownInLoop_def result_simps)
  from wf tc obtain ch where "chans s (tc_channel tc) = Some ch" "write_inv tc ch" by (rule net_wfD)
  with run tc wf show thesis
    by (intro that [of tc]) (auto simp: shutdownInLoop_def Socket_shutdownWrite_def write_inv_def split: if_splits)
qed

lemma setState_wf:
  assumes "net_wf s" and "conns s c = Some tc" and "tc_state tc \<noteq> kDisconnected" and "st \<noteq> kDisconnected"
  shows "net_wf (put_conn c (setState st tc) s)"
proof -
  from assms(1,2) have "buf_wf (inputBuffer tc)" "buf_wf (outputBuffer tc)" by (auto simp: net_wf_def conn_wf_def)
  then show ?thesis
    using assms by (intro put_conn_wf [OF assms(1,2)]) (simp_all add: setState_def write_inv_def)
qed

lemma disconnecting_frame:
  assumes "net_wf s" and "conns s c = Some tc" and "tc_state tc = kConnected \<or> tc_state tc = kDisconnecting"
  shows "api_frame s (put_conn c (setState kDisconnecting tc) s)"
proof (rule api_frame_upd [of _ s c "setState kDisconnecting tc" tc])
  show "net_wf (put_conn c (setState kDisconnecting tc) s)"
    using assms by (intro setState_wf) auto
  show "conn_frame tc (setState kDisconnecting tc)"
    using assms(3) by (auto simp: setState_def conn_frame_def)
qed (use assms(2) in simp_all)

lemma shutdown_frame:
  assumes wf: "net_wf s" and run: "shutdown tid c s = Inr t"
  shows "api_frame s t"
proof -
  obtain tc where tc: "conns s c = Some tc" using run by (auto simp: shutdown_def result_simps)
  show ?thesis
  proof (cases "tc_state tc = kConnected")
    case True
    let ?s = "put_conn c (setState kDisconnecting tc) s"
    have fr: "api_frame s ?s" using wf tc True by (intro disconnecting_frame) auto
    have sd: "api_frame ?s u" if "shutdownInLoop c ?s = Inr u" for u
      using api_frameD(1) [OF fr] that by (rule shutdownInLoop_cases) (rule api_frame_same)
    have "runInLoop (\<lambda>f. shutdownInLoop c) tid (Some (Fn_shutdownInLoop c)) ?s = Inr t"
      using run tc True by (simp add: shutdown_def)
    with api_frameD(1) [OF fr] have "api_frame ?s t" by (rule runInLoop_frame) (use sd in simp_all)
    with fr show ?thesis by (rule api_frame_trans)
  qed (use run tc wf in \<open>auto simp: shutdown_def api_frame_refl\<close>)
qed

lemma forceClose_frame:
  assumes wf: "net_wf s" and run: "forceClose tid c s = Inr t"
  shows "api_frame s t"
proof -
  obtain tc where tc: "conns s c = Some tc" using run by (auto simp: forceClose_def result_simps)
  show ?thesis
  proof (cases "tc_state tc = kConnected \<or> tc_state tc = kDisconnecting")
    case True
    from disconnecting_frame [OF wf tc True] run tc True show ?thesis
      by (auto simp: forceClose_def api_frame_def)
  qed (use run tc wf in \<open>auto simp: forceClose_def api_frame_refl\<close>)
qed

lemma put_conn_same [simp]: "conns s c = Some tc \<Longrightarrow> put_conn c tc s = s"
  by (simp add: put_conn_def fun_upd_idem)

lemma addTimer_same:
  assumes "addTimer now tid cb due ivl s = Inr (timerId, t)"
  shows "chans t = chans s" "channels t = channels s" "epoll_log t = epoll_log s" "loop_id t = loop_id s"
    "conns t = conns s" "conn_log t = conn_log s" "home t = home s"
  using assms
  by (auto simp: addTimer_def new_timer_def runInLoop_def queueInLoop_def queue_wake_def queue_push_def wakeup_def
        addTimerInLoop_def insert_timer_def resetTimerfd_def home_def owner_calls_def Let_def result_simps split: if_splits)

lemma addTimer_frame:
  assumes "net_wf s" and "addTimer now tid cb due ivl s = Inr (timerId, t)"
  shows "api_frame s t"
proof -
  note eq = addTimer_same [OF assms(2)]
  with assms(1) show ?thesis by (intro api_frame_same) (simp_all add: net_wf_cong [OF eq(1-5)])
qed

lemma forceCloseWithDelay_frame:
  assumes wf: "net_wf s" and run: "forceCloseWithDelay now now' tid c seconds s = Inr t"
  shows "api_frame s t"
proof -
  obtain tc where tc: "conns s c = Some tc" using run by (auto simp: forceCloseWithDelay_def result_simps)
  show ?thesis
  proof (cases "tc_state tc = kConnected \<or> tc_state tc = kDisconnecting")
    case True
    note fr = disconnecting_frame [OF wf tc True]
    obtain timerId where "runAfter now now' tid seconds (Some (TC_forceClose c))
        (put_conn c (setState kDisconnecting tc) s) = Inr (timerId, t)"
      using run tc True by (auto simp: forceCloseWithDelay_def result_simps)
    with api_frameD(1) [OF fr] have "api_frame (put_conn c (setState kDisconnecting tc) s) t"
      unfolding runAfter_def runAt_def by (rule addTimer_frame)
    with fr show ?thesis by (rule api_frame_trans)
  qed (use run tc wf in \<open>auto simp: forceCloseWithDelay_def api_frame_refl\<close>)
qed

text \<open>Turning reading on or off, then setting \<open>reading_\<close>.\<close>

lemma reading_frame:
  assumes wf: "net_wf s" and tc: "conns s c = Some tc" and op: "op = EnableReading \<or> op = DisableReading"
  obtains u where "channel_op op (tc_channel tc) s = Inr u" "api_frame s (put_conn c (tc\<lparr>reading := r\<rparr>) u)"
proof -
  from wf tc obtain ch where ch: "chans s (tc_channel tc) = Some ch" and wi: "write_inv tc ch"
    and bw: "buf_wf (inputBuffer tc)" "buf_wf (outputBuffer tc)"
    by (rule net_wfD)
  let ?u = "after_update (tc_channel tc) ch (interest op (events ch)) s"
  have wi': "write_inv tc (ch\<lparr>events := interest op (events ch)\<rparr>)"
    using op wi by (auto simp: write_inv_def isWriting_bit)
  have u: "channel_op op (tc_channel tc) s = Inr ?u" "net_wf ?u"
    using conn_interest [OF wf tc ch refl refl bw wi'] tc by simp_all
  have tc': "conns ?u c = Some tc" using tc by simp
  have "net_wf (put_conn c (tc\<lparr>reading := r\<rparr>) ?u)"
    using bw by (intro put_conn_wf [OF u(2) tc']) (simp_all add: write_inv_def)
  then have "api_frame s (put_conn c (tc\<lparr>reading := r\<rparr>) ?u)"
    using tc by (intro api_frame_upd [of _ s c "tc\<lparr>reading := r\<rparr>" tc]) (simp_all add: conn_frame_def)
  with u(1) show thesis by (rule that)
qed

lemma startReadInLoop_frame:
  assumes wf: "net_wf s" and run: "startReadInLoop c s = Inr t"
  shows "api_frame s t"
proof -
  obtain tc where tc: "conns s c = Some tc" using run by (auto simp: startReadInLoop_def result_simps)
  obtain u where u: "channel_op EnableReading (tc_channel tc) s = Inr u"
    "api_frame s (put_conn c (tc\<lparr>reading := True\<rparr>) u)"
    using wf tc by (rule reading_frame [of s c tc EnableReading]) simp_all
  then show ?thesis
    using run tc wf by (auto simp: startReadInLoop_def result_simps api_frame_refl split: if_splits)
qed

lemma stopReadInLoop_frame:
  assumes wf: "net_wf s" and run: "stopReadInLoop c s = Inr t"
  shows "api_frame s t"
proof -
  obtain tc where tc: "conns s c = Some tc" using run by (auto simp: stopReadInLoop_def result_simps)
  obtain u where u: "channel_op DisableReading (tc_channel tc) s = Inr u"
    "api_frame s (put_conn c (tc\<lparr>reading := True\<rparr>) u)"
    using wf tc by (rule reading_frame [of s c tc DisableReading]) simp_all
  then show ?thesis
    using run tc wf by (auto simp: stopReadInLoop_def result_simps api_frame_refl split: if_splits)
qed

lemma input_frame:
  assumes "net_wf s" and "conns s c = Some tc" and "buf_wf buf"
  shows "api_frame s (put_conn c (tc\<lparr>inputBuffer := buf\<rparr>) s)"
proof (rule api_frame_upd [of _ s c "tc\<lparr>inputBuffer := buf\<rparr>" tc])
  have "buf_wf (outputBuffer tc)" using assms(1,2) by (auto simp: net_wf_def conn_wf_def)
  then show "net_wf (put_conn c (tc\<lparr>inputBuffer := buf\<rparr>) s)"
    using assms by (intro put_conn_wf [OF assms(1,2)]) (simp_all add: write_inv_def)
qed (use assms(2) in \<open>simp_all add: conn_frame_def\<close>)

lemma retrieveAllAsString_wf:
  assumes "buf_wf b" and "retrieveAllAsString b = Inr (data, b')"
  shows "buf_wf b'"
  using assms by (auto simp: retrieveAllAsString_def retrieveAsString_def result_simps split: if_splits)

lemma setter_frame:
  assumes wf: "net_wf s" and tc: "conns s c = Some tc"
    and same: "tc_name tc' = tc_name tc" "tc_channel tc' = tc_channel tc" "tc_socket tc' = tc_socket tc" "tc_state tc' = tc_state tc"
      "connectionCallback tc' = connectionCallback tc" "messageCallback tc' = messageCallback tc" "tc_closeCallback tc' = tc_closeCallback tc"
      "inputBuffer tc' = inputBuffer tc" "outputBuffer tc' = outputBuffer tc"
  shows "api_frame s (put_conn c tc' s)"
proof -
  obtain ch where "chans s (tc_channel tc) = Some ch" "write_inv tc ch" "buf_wf (inputBuffer tc)" "buf_wf (outputBuffer tc)"
    using wf tc by (rule net_wfD)
  then have "net_wf (put_conn c tc' s)" using wf tc same by (intro put_conn_wf [of s c tc]) (simp_all add: write_inv_def)
  moreover have "conn_frame tc tc'" using same by (simp add: conn_frame_def)
  ultimately show ?thesis using tc by (intro api_frame_upd) simp_all
qed

lemma map_sum_Inr: "map_sum id snd x = Inr t \<longleftrightarrow> (\<exists>r. x = Inr (r, t))"
  by (cases x) auto

lemma exec_api_frame:
  assumes wf: "net_wf s" and os: "os_documented os" and run: "exec_api os tid call s = Inr t"
  shows "api_frame s t"
proof (cases call)
  case (Api_send_input c d)
  with run obtain td buf u tu where td: "conns s d = Some td" "send_buffer os tid c (inputBuffer td) s = Inr (buf, u)"
    "conns u d = Some tu" "t = put_conn d (tu\<lparr>inputBuffer := buf\<rparr>) u"
    by (auto simp: result_simps)
  have bw: "buf_wf (inputBuffer td)" using wf td(1) by (auto simp: net_wf_def conn_wf_def)
  note su = send_buffer_frame [OF wf os bw td(2)]
  have "api_frame u t" unfolding td(4) using api_frameD(1) [OF su(1)] td(3) su(2) by (rule input_frame)
  with su(1) show ?thesis by (rule api_frame_trans)
next
  case (Api_retrieve c len)
  with run obtain tc where "conns s c = Some tc" "t = put_conn c (tc\<lparr>inputBuffer := retrieve len (inputBuffer tc)\<rparr>) s"
    by (auto simp: result_simps)
  then show ?thesis using wf input_frame [OF wf] by (auto simp: net_wf_def conn_wf_def)
next
  case (Api_retrieveAllAsString c p)
  with run obtain tc msg buf where tc: "conns s c = Some tc" "retrieveAllAsString (inputBuffer tc) = Inr (msg, buf)"
    "t = put_conn c (tc\<lparr>inputBuffer := buf\<rparr>) (s\<lparr>caller_mem := (caller_mem s)(p \<mapsto> msg)\<rparr>)"
    by (auto simp: result_simps)
  let ?s = "s\<lparr>caller_mem := (caller_mem s)(p \<mapsto> msg)\<rparr>"
  have "buf_wf buf" using wf tc by (auto simp: net_wf_def conn_wf_def intro: retrieveAllAsString_wf)
  then have "api_frame ?s t" unfolding tc(3) using wf tc by (intro input_frame) simp_all
  moreover have "api_frame s ?s" using wf by (intro api_frame_same) simp_all
  ultimately show ?thesis by (intro api_frame_trans [of s ?s t])
next
  case (Api_send_string c p)
  with run show ?thesis using wf os send_ptr_frame by (auto simp: send_string_def split: option.splits)
next
  case (Api_startRead c)
  then have "runInLoop (\<lambda>f. startReadInLoop c) tid (Some (Fn_startReadInLoop c)) s = Inr t"
    using run by (simp add: startRead_def)
  with wf show ?thesis by (rule runInLoop_frame) (use startReadInLoop_frame [OF wf] in simp_all)
next
  case (Api_stopRead c)
  then have "runInLoop (\<lambda>f. stopReadInLoop c) tid (Some (Fn_stopReadInLoop c)) s = Inr t"
    using run by (simp add: stopRead_def)
  with wf show ?thesis by (rule runInLoop_frame) (use stopReadInLoop_frame [OF wf] in simp_all)
next
  case (Api_setTcpNoDelay c on)
  then show ?thesis using run wf
    by (auto simp: TcpConnection_setTcpNoDelay_def result_simps intro!: api_frame_same)
next
  case (Api_setWriteCompleteCallback c cb)
  with run obtain tc where tc: "conns s c = Some tc" "t = put_conn c (TcpConnection_setWriteCompleteCallback cb tc) s"
    by (auto simp: result_simps)
  show ?thesis unfolding tc(2) using wf tc(1) by (rule setter_frame) (simp_all add: tc_setter_defs)
next
  case (Api_setHighWaterMarkCallback c cb mark)
  with run obtain tc where tc: "conns s c = Some tc" "t = put_conn c (TcpConnection_setHighWaterMarkCallback cb mark tc) s"
    by (auto simp: result_simps)
  show ?thesis unfolding tc(2) using wf tc(1) by (rule setter_frame) (simp_all add: tc_setter_defs)
next
  case (Api_runAt now time k)
  then show ?thesis using run wf addTimer_frame by (auto simp: runAt_def map_sum_Inr)
next
  case (Api_runAfter now now' delay k)
  then show ?thesis using run wf addTimer_frame by (auto simp: runAfter_def runAt_def map_sum_Inr)
next
  case (Api_runEvery now now' ivl k)
  then show ?thesis using run wf addTimer_frame by (auto simp: runEvery_def map_sum_Inr)
next
  case Api_quit
  then show ?thesis using run wf
    by (auto intro!: api_frame_same) (simp_all add: EventLoop_quit_def Let_def wakeup_def)
next
  case (Api_queueInLoop k)
  then show ?thesis using run wf by (auto intro!: api_frame_same)
next
  case (Api_store p data)
  then show ?thesis using run wf by (auto intro!: api_frame_same)
qed (use run send_ptr_frame [OF wf os] shutdown_frame [OF wf] forceClose_frame [OF wf] forceCloseWithDelay_frame [OF wf]
  in auto)

lemma run_app_frame:
  assumes wf: "net_wf s" and os: "os_documented os" and run: "run_app os app call s = Inr t"
  shows "api_frame s t"
  using exec_api_frame wf run [unfolded run_app_def]
  by (rule rfold_api_frame) (use os in simp_all)

section \<open>Handlers\<close>

text \<open>
  Invoking the connection callback: one more entry in the trace of callbacks, and then what user
  code does.
\<close>

lemma call_connectionCallback_frame:
  assumes wf: "net_wf s" and os: "os_documented os" and run: "call_connectionCallback os app c s = Inr t"
  obtains tc where "conns s c = Some tc" "api_frame (s\<lparr>conn_log := conn_log s @ [(c, connected tc)]\<rparr>) t"
proof -
  obtain tc where tc: "conns s c = Some tc" using run by (auto simp: call_connectionCallback_def result_simps)
  let ?s = "s\<lparr>conn_log := conn_log s @ [(c, connected tc)]\<rparr>"
  have wf': "net_wf ?s" using wf by simp
  have "api_frame ?s t"
  proof (cases "connectionCallback tc")
    case None
    with run tc show ?thesis by (simp add: call_connectionCallback_def)
  next
    case (Some m)
    then show ?thesis
    proof (cases m)
      case defaultConnectionCallback
      with Some run tc api_frame_refl [OF wf'] show ?thesis by (simp add: call_connectionCallback_def Let_def)
    next
      case (User_connection k)
      with Some run tc have "run_app os app (App_connection k c) ?s = Inr t"
        by (simp add: call_connectionCallback_def Let_def)
      with wf' os show ?thesis by (rule run_app_frame)
    qed
  qed
  with tc show thesis by (rule that)
qed

lemma call_messageCallback_frame:
  assumes wf: "net_wf s" and os: "os_documented os" and run: "call_messageCallback os app c now s = Inr t"
  shows "api_frame s t"
proof -
  obtain tc where tc: "conns s c = Some tc" using run by (auto simp: call_messageCallback_def result_simps)
  have "buf_wf (inputBuffer tc)" using wf tc by (auto simp: net_wf_def conn_wf_def)
  then have all: "api_frame s (put_conn c (tc\<lparr>inputBuffer := retrieveAll (inputBuffer tc)\<rparr>) s)"
    by (intro input_frame [OF wf tc]) simp
  show ?thesis
  proof (cases "messageCallback tc")
    case None
    with run tc show ?thesis by (simp add: call_messageCallback_def)
  next
    case (Some m)
    then show ?thesis
    proof (cases m)
      case defaultMessageCallback
      with Some run tc all show ?thesis by (simp add: call_messageCallback_def)
    next
      case (User_message k)
      with Some run tc have "run_app os app (App_message k c now) s = Inr t" by (simp add: call_messageCallback_def)
      with wf os show ?thesis by (rule run_app_frame)
    qed
  qed
qed

text \<open>Closing: the state, the interest, the callback of the user, in this order.\<close>

lemma close_frame:
  assumes wf: "net_wf s" and tc: "conns s c = Some tc"
  obtains u where "disableAll (tc_channel tc) (put_conn c (setState kDisconnected tc) s) = Inr u" "net_wf u"
    "conns u = (conns s)(c \<mapsto> setState kDisconnected tc)" "conn_log u = conn_log s" "home u = home s" "sys u = sys s"
proof -
  from wf tc obtain ch where ch: "chans s (tc_channel tc) = Some ch"
    and bw: "buf_wf (inputBuffer tc)" "buf_wf (outputBuffer tc)"
    by (rule net_wfD)
  let ?tc = "setState kDisconnected tc"
  let ?u = "after_update (tc_channel tc) ch (interest DisableAll (events ch)) (put_conn c ?tc s)"
  have "channel_op DisableAll (tc_channel tc) (put_conn c ?tc s) = Inr ?u" "net_wf ?u"
    using bw by (intro conn_interest [OF wf tc ch]; simp add: setState_def write_inv_def isWriting_bit)+
  then show thesis by (intro that [of ?u]) simp_all
qed

lemma handleClose_cases:
  assumes wf: "net_wf s" and os: "os_documented os" and run: "handleClose os app on_close c s = Inr t"
  obtains tc u v cb tv where "conns s c = Some tc" "tc_state tc = kConnected \<or> tc_state tc = kDisconnecting"
    "net_wf u" "conns u = (conns s)(c \<mapsto> setState kDisconnected tc)" "conn_log u = conn_log s @ [(c, False)]"
    "home u = home s" "api_frame u v" "conns v c = Some tv" "tc_closeCallback tv = Some cb" "on_close cb c v = Inr t"
proof -
  obtain tc where tc: "conns s c = Some tc" using run by (auto simp: handleClose_def result_simps)
  from wf tc obtain u where u: "disableAll (tc_channel tc) (put_conn c (setState kDisconnected tc) s) = Inr u" "net_wf u"
    "conns u = (conns s)(c \<mapsto> setState kDisconnected tc)" "conn_log u = conn_log s" "home u = home s"
    by (rule close_frame)
  let ?u = "u\<lparr>conn_log := conn_log u @ [(c, False)]\<rparr>"
  from run tc u obtain v where v: "call_connectionCallback os app c u = Inr v"
    and st: "tc_state tc = kConnected \<or> tc_state tc = kDisconnecting"
    by (auto simp: handleClose_def result_simps split: if_splits)
  from u(2) os v have fr: "api_frame ?u v"
    by (rule call_connectionCallback_frame) (use u(3) in \<open>auto simp: connected_def setState_def\<close>)
  obtain tv cb where "conns v c = Some tv" "tc_closeCallback tv = Some cb" "on_close cb c v = Inr t"
    using run tc u v st by (auto simp: handleClose_def result_simps split: option.splits)
  moreover have "net_wf ?u" "conns ?u = (conns s)(c \<mapsto> setState kDisconnected tc)"
    "conn_log ?u = conn_log s @ [(c, False)]" "home ?u = home s"
    using u by simp_all
  ultimately show thesis using that tc st fr by blast
qed

lemma readFd_input:
  assumes wf: "net_wf s" and os: "os_documented os" and tc: "conns s c = Some tc"
    and run: "readFd (os_readv os (sys s)) (tc_socket tc) (inputBuffer tc) = Inr (n, buf)"
  shows "buf_wf buf" and "contents buf = contents (inputBuffer tc) @
      (case os_readv os (sys s) (tc_socket tc) (readFd_iov (inputBuffer tc)) of Inl e \<Rightarrow> [] | Inr got \<Rightarrow> got)"
    and "n = (case os_readv os (sys s) (tc_socket tc) (readFd_iov (inputBuffer tc)) of Inl e \<Rightarrow> - 1 | Inr got \<Rightarrow> int (length got))"
proof -
  have bw: "buf_wf (inputBuffer tc)" using wf tc by (auto simp: net_wf_def conn_wf_def)
  have rd: "readv_documented (os_readv os (sys s))" using os by (simp add: os_documented_def)
  show "buf_wf buf" "contents buf = contents (inputBuffer tc) @
      (case os_readv os (sys s) (tc_socket tc) (readFd_iov (inputBuffer tc)) of Inl e \<Rightarrow> [] | Inr got \<Rightarrow> got)"
    "n = (case os_readv os (sys s) (tc_socket tc) (readFd_iov (inputBuffer tc)) of Inl e \<Rightarrow> - 1 | Inr got \<Rightarrow> int (length got))"
    using run bw by (cases rule: readFd_cases [OF bw rd, of "tc_socket tc"]; auto)+
qed

lemma put_chan_net_wf:
  assumes wf: "net_wf s" and ch: "chans s d = Some ch" and same: "same_registration ch ch'" "ownerLoop ch' = ownerLoop ch"
  shows "net_wf (put_chan d ch' s)"
proof -
  have "loop_wf (put_chan d ch' s)"
    using wf ch same put_chan_wf [of s d ch ch'] by (auto simp: net_wf_def loop_wf_def put_chan_def split: if_splits)
  moreover have "conn_wf (put_chan d ch' s) tc" if "conn_wf s tc" for tc
    using that ch same
    by (cases "tc_channel tc = d")
      (auto simp: conn_wf_def fd_free_def same_registration_def write_inv_def isWriting_def put_chan_def)
  moreover have "conns (put_chan d ch' s) = conns s" by (simp add: put_chan_def)
  ultimately show ?thesis using wf unfolding net_wf_def by metis
qed

lemma Channel_remove_frame:
  assumes wf: "net_wf s" and tc: "conns s c = Some tc" and run: "Channel_remove (tc_channel tc) s = Inr t"
  shows "net_wf t" and "conns t = conns s" and "conn_log t = conn_log s" and "home t = home s"
proof -
  let ?d = "tc_channel tc"
  from wf tc obtain ch where ch: "chans s ?d = Some ch" and fd: "ch_fd ch = tc_socket tc" and wi: "write_inv tc ch"
    and bw: "buf_wf (inputBuffer tc)" "buf_wf (outputBuffer tc)" and lwf: "loop_wf s"
    by (rule net_wfD)
  let ?ch = "ch\<lparr>addedToLoop := False\<rparr>"
  have pre: "isNoneEvent ch" "index ch \<noteq> kNew"
    "eventHandling s \<longrightarrow> currentActiveChannel s = Some ?d \<or> ?d \<notin> set (activeChannels s)"
    using run ch
    by (auto simp: Channel_remove_def EventLoop_removeChannel_def EPollPoller_removeChannel_def upd_chan_def put_chan_def
        Let_def result_simps split: if_splits)
  have t: "t = after_remove ?d ?ch s"
    using Channel_remove_eq [OF lwf ch pre(2,1,3)] run by simp
  show "conns t = conns s" "conn_log t = conn_log s" "home t = home s" by (simp_all add: t after_remove_def home_def owner_calls_def)
  have pwf: "poller_wf (put_chan ?d ?ch s)"
    using lwf ch by (intro put_chan_wf [of s ?d ch]) (simp_all add: loop_wf_def same_registration_def)
  have "poller_wf (after_remove ?d ?ch (put_chan ?d ?ch s))"
    using pre by (intro after_remove_wf [OF pwf]) (simp_all add: isNoneEvent_def)
  moreover have "after_remove ?d ?ch (put_chan ?d ?ch s) = t"
    by (simp add: t after_remove_def put_chan_def)
  ultimately have lt: "loop_wf t" using lwf ch by (auto simp: loop_wf_def t after_remove_def split: if_splits)
  have other: "conn_wf t td" if d: "conns s e = Some td" "e \<noteq> c" for e td
  proof -
    have ne: "tc_channel td \<noteq> ?d" "tc_socket td \<noteq> tc_socket tc"
      using wf tc d unfolding net_wf_def by metis+
    from wf d(1) obtain x where "chans s (tc_channel td) = Some x" "ch_fd x = tc_socket td" "fd_free s x"
      "write_inv td x" "buf_wf (inputBuffer td)" "buf_wf (outputBuffer td)"
      by (rule net_wfD)
    with ne fd show ?thesis by (simp add: conn_wf_def t after_remove_def fd_free_def)
  qed
  have "write_inv tc (?ch\<lparr>index := kNew\<rparr>)" using wi by (auto simp: write_inv_def isWriting_bit split: if_splits)
  then have "conn_wf t tc" using bw fd by (simp add: conn_wf_def t after_remove_def fd_free_def)
  with other lt wf tc \<open>conns t = conns s\<close> show "net_wf t" unfolding net_wf_def by (metis option.inject)
qed

section \<open>The life cycle\<close>

text \<open>The values of \<open>connected()\<close> that the connection callback of \<open>c\<close> has seen.\<close>

definition callbacks :: "'m net_scheme \<Rightarrow> nat \<Rightarrow> bool list" where
  "callbacks s c = map snd (filter (\<lambda>e. fst e = c) (conn_log s))"

definition seen :: "StateE \<Rightarrow> bool list" where
  "seen st = (case st of kConnecting \<Rightarrow> [] | kConnected \<Rightarrow> [True] | kDisconnecting \<Rightarrow> [True] | kDisconnected \<Rightarrow> [True, False])"

definition net_life :: "'m net_scheme \<Rightarrow> bool" where
  "net_life s \<longleftrightarrow> net_wf s \<and> (\<forall>c tc. conns s c = Some tc \<longrightarrow> callbacks s c = seen (tc_state tc))"

lemma callbacks_log [simp]:
  "callbacks (s\<lparr>conn_log := conn_log s @ [(c, b)]\<rparr>) d = callbacks s d @ (if d = c then [b] else [])"
  by (simp add: callbacks_def)

lemma conn_frame_seen: "conn_frame tc tc' \<Longrightarrow> seen (tc_state tc') = seen (tc_state tc)"
  by (auto simp: conn_frame_def seen_def)

lemma frame_life:
  assumes "net_life s" and "api_frame s t"
  shows "net_life t"
proof -
  have "callbacks t c = seen (tc_state tc')" if "conns t c = Some tc'" for c tc'
  proof -
    have "rel_option conn_frame (conns s c) (Some tc')"
      using assms(2) that unfolding api_frame_def by metis
    then obtain tc where "conns s c = Some tc" "conn_frame tc tc'" by (auto simp: option_rel_Some2)
    then show ?thesis
      using assms conn_frame_seen [of tc tc'] by (simp add: net_life_def callbacks_def api_frame_def)
  qed
  then show ?thesis using assms(2) by (simp add: net_life_def api_frame_def)
qed

lemma net_lifeD:
  assumes "net_life s"
  shows "net_wf s" and "conns s c = Some tc \<Longrightarrow> callbacks s c = seen (tc_state tc)"
  using assms by (auto simp: net_life_def)

text \<open>A connection changes its state and its callback is told.\<close>

lemma transition_life:
  assumes life: "net_life s" and tc: "conns s c = Some tc" and wf: "net_wf u"
    and u: "conns u = (conns s)(c \<mapsto> setState st tc)" "conn_log u = conn_log s @ [(c, st = kConnected)]"
    and st: "seen st = seen (tc_state tc) @ [st = kConnected]"
  shows "net_life u"
proof -
  have cb: "callbacks u d = callbacks s d @ (if d = c then [st = kConnected] else [])" for d
    using u(2) by (simp add: callbacks_def)
  show ?thesis unfolding net_life_def
  proof (intro conjI allI impI wf)
    fix d td assume "conns u d = Some td"
    then show "callbacks u d = seen (tc_state td)"
      using u(1) cb [of d] st net_lifeD(2) [OF life, of d] tc by (auto simp: setState_def split: if_splits)
  qed
qed

text \<open>The state changes reported to the user, and then what user code does.\<close>

lemma connectEstablished_eq:
  assumes wf: "net_wf s" and tc: "conns s c = Some tc" and st: "tc_state tc = kConnecting"
  obtains u where "connectEstablished os app c s = call_connectionCallback os app c u" "net_wf u"
    "conns u = (conns s)(c \<mapsto> setState kConnected tc)" "conn_log u = conn_log s" "home u = home s"
    "pendingFunctors u = pendingFunctors s" "eventHandling u = eventHandling s" "\<forall>e. e \<noteq> tc_channel tc \<longrightarrow> chans u e = chans s e"
proof -
  from wf tc obtain ch where ch: "chans s (tc_channel tc) = Some ch" and wi: "write_inv tc ch"
    and bw: "buf_wf (inputBuffer tc)" "buf_wf (outputBuffer tc)"
    by (rule net_wfD)
  let ?tc = "setState kConnected tc"
  let ?s1 = "put_chan (tc_channel tc) (Channel_tie c ch) (put_conn c ?tc s)"
  have wf1: "net_wf (put_conn c ?tc s)" using wf tc st by (intro setState_wf) simp_all
  have wf2: "net_wf ?s1"
    using ch by (intro put_chan_net_wf [OF wf1, of _ ch]) (simp_all add: Channel_tie_def same_registration_def)
  have tc1: "conns ?s1 c = Some ?tc" by (simp add: put_chan_def)
  have tc_same: "tc_channel ?tc = tc_channel tc" "tc_socket ?tc = tc_socket tc" by (simp_all add: setState_def)
  have ch1: "chans ?s1 (tc_channel ?tc) = Some (Channel_tie c ch)" using tc_same by simp
  let ?u = "after_update (tc_channel ?tc) (Channel_tie c ch) (interest EnableReading (events (Channel_tie c ch))) ?s1"
  have wi': "write_inv ?tc ((Channel_tie c ch)\<lparr>events := interest EnableReading (events (Channel_tie c ch))\<rparr>)"
    using wi st by (simp add: write_inv_def setState_def isWriting_bit Channel_tie_def)
  have bw': "buf_wf (inputBuffer ?tc)" "buf_wf (outputBuffer ?tc)" using bw by (simp_all add: setState_def)
  have u: "channel_op EnableReading (tc_channel ?tc) ?s1 = Inr ?u" "net_wf ?u"
    using conn_interest [OF wf2 tc1 ch1 refl refl bw' wi'] tc1 by simp_all
  have "connectEstablished os app c s = call_connectionCallback os app c ?u"
    using tc st ch u(1) tc_same by (simp add: connectEstablished_def upd_chan_def)
  moreover have "pendingFunctors ?u = pendingFunctors s" "eventHandling ?u = eventHandling s" "\<forall>e. e \<noteq> tc_channel tc \<longrightarrow> chans ?u e = chans s e"
    by (simp_all add: after_update_def put_chan_def put_conn_def setState_def)
  ultimately show thesis using u(2) by (intro that [of ?u]) simp_all
qed

lemma connectEstablished_cases:
  assumes wf: "net_wf s" and os: "os_documented os" and run: "connectEstablished os app c s = Inr t"
  obtains tc u where "conns s c = Some tc" "tc_state tc = kConnecting" "net_wf u"
    "conns u = (conns s)(c \<mapsto> setState kConnected tc)" "conn_log u = conn_log s @ [(c, True)]" "home u = home s" "api_frame u t"
proof -
  obtain tc where tc: "conns s c = Some tc" and st: "tc_state tc = kConnecting"
    using run by (auto simp: connectEstablished_def result_simps split: if_splits)
  from wf tc st obtain u where u: "connectEstablished os app c s = call_connectionCallback os app c u" "net_wf u"
    "conns u = (conns s)(c \<mapsto> setState kConnected tc)" "conn_log u = conn_log s" "home u = home s"
    by (rule connectEstablished_eq [where os = os and app = app])
  let ?v = "u\<lparr>conn_log := conn_log u @ [(c, True)]\<rparr>"
  have "call_connectionCallback os app c u = Inr t" using run u(1) by simp
  with u(2) os have "api_frame ?v t"
    by (rule call_connectionCallback_frame) (use u(3) in \<open>simp add: connected_def setState_def\<close>)
  with u show thesis by (intro that [OF tc st, of ?v]) simp_all
qed

lemma Channel_remove_api_frame:
  "net_wf s \<Longrightarrow> conns s c = Some tc \<Longrightarrow> Channel_remove (tc_channel tc) s = Inr t \<Longrightarrow> api_frame s t"
  using Channel_remove_frame by (intro api_frame_same) blast+

lemma connectDestroyed_cases:
  assumes wf: "net_wf s" and os: "os_documented os" and run: "connectDestroyed os app c s = Inr t"
  obtains "api_frame s t"
  | tc u where "conns s c = Some tc" "tc_state tc = kConnected" "net_wf u"
    "conns u = (conns s)(c \<mapsto> setState kDisconnected tc)" "conn_log u = conn_log s @ [(c, False)]" "home u = home s" "api_frame u t"
proof -
  obtain tc where tc: "conns s c = Some tc" using run by (auto simp: connectDestroyed_def result_simps)
  show thesis
  proof (cases "tc_state tc = kConnected")
    case False
    then show thesis using run tc Channel_remove_api_frame [OF wf tc] that(1) by (simp add: connectDestroyed_def)
  next
    case True
    from wf tc obtain u where u: "disableAll (tc_channel tc) (put_conn c (setState kDisconnected tc) s) = Inr u" "net_wf u"
      "conns u = (conns s)(c \<mapsto> setState kDisconnected tc)" "conn_log u = conn_log s" "home u = home s"
      by (rule close_frame)
    let ?u = "u\<lparr>conn_log := conn_log u @ [(c, False)]\<rparr>"
    from run tc u(1) True obtain v where v: "call_connectionCallback os app c u = Inr v" "Channel_remove (tc_channel tc) v = Inr t"
      by (auto simp: connectDestroyed_def result_simps)
    from u(2) os v(1) have fr: "api_frame ?u v"
      by (rule call_connectionCallback_frame) (use u(3) in \<open>auto simp: connected_def setState_def\<close>)
    then obtain tv where tv: "conns v c = Some tv" "conn_frame (setState kDisconnected tc) tv"
      using api_frameD(4) [OF fr, of c "setState kDisconnected tc"] u(3) by auto
    then have "tc_channel tv = tc_channel tc" by (simp add: conn_frame_def setState_def)
    with v(2) have "api_frame v t" using api_frameD(1) [OF fr] tv(1) by (intro Channel_remove_api_frame [of v c tv]) simp_all
    with fr have "api_frame ?u t" by (rule api_frame_trans)
    with True tc u show thesis by (intro that(2) [of tc ?u]) simp_all
  qed
qed

lemma handleWrite_frame:
  assumes wf: "net_wf s" and os: "os_documented os" and run: "handleWrite os c s = Inr t"
  shows "api_frame s t"
proof -
  obtain tc where tc: "conns s c = Some tc" using run by (auto simp: handleWrite_def result_simps)
  from wf os tc show ?thesis
  proof (rule handleWrite_cases)
    fix t' tc' new
    assume h: "handleWrite os c s = Inr t'" "net_wf t'" "conns t' = (conns s)(c \<mapsto> tc')"
      "tc' = tc\<lparr>outputBuffer := outputBuffer tc'\<rparr>" "conn_log t' = conn_log s" "home t' = home s"
    have "conn_frame tc tc'" by (subst h(4)) (simp add: conn_frame_def)
    then show ?thesis using h run tc by (intro api_frame_upd [of t s c tc' tc]) simp_all
  qed
qed

lemma shutdownInLoop_frame: "net_wf s \<Longrightarrow> shutdownInLoop c s = Inr t \<Longrightarrow> api_frame s t"
  by (erule (1) shutdownInLoop_cases) (rule api_frame_same)

definition keeps_life :: "(close_cb \<Rightarrow> nat \<Rightarrow> 'm net_scheme \<Rightarrow> 'm net_scheme result) \<Rightarrow> bool" where
  "keeps_life on_close \<longleftrightarrow> (\<forall>cb c s t. net_life s \<longrightarrow> on_close cb c s = Inr t \<longrightarrow> net_life t)"

text \<open>The data bound to a queued \<open>sendInLoop\<close> has the size of an object in memory.\<close>

fun functor_ok :: "closure \<Rightarrow> bool" where
  "functor_ok (Fn_sendInLoop c data) = (length data < 2 ^ 63)"
| "functor_ok (Fn_sendInLoop_ptr c p n) = (n < 2 ^ 63)"
| "functor_ok _ = True"

fun event_ok :: "net_event \<Rightarrow> bool" where
  "event_ok (Ev_functor f) = functor_ok f"
| "event_ok _ = True"

subsection \<open>Invariants of connections as an interface\<close>

text \<open>
  What an invariant of a system with connections has to provide so that every event of a connection keeps it.
  \<open>inv X\<close> is the invariant while the connections of \<open>X\<close> are closed but their owner has not yet been told. It survives what
  user code may do (\<open>api_frame\<close>) and the two changes of state that are reported to the user, and the
  closing callback re-establishes it. \<open>may s c\<close> says when \<open>connectDestroyed\<close> may be run, \<open>may_up c\<close> whether \<open>connectEstablished\<close> may.
\<close>

locale conn_invariant =
  fixes inv :: "nat set \<Rightarrow> 'm net_scheme \<Rightarrow> bool"
    and on_close :: "close_cb \<Rightarrow> nat \<Rightarrow> 'm net_scheme \<Rightarrow> 'm net_scheme result"
    and may :: "'m net_scheme \<Rightarrow> nat \<Rightarrow> bool"
    and may_up :: "nat \<Rightarrow> bool"
  assumes inv_wf: "inv X s \<Longrightarrow> net_wf s"
    and inv_frame: "inv X s \<Longrightarrow> api_frame s t \<Longrightarrow> inv X t"
    and inv_up: "inv {} s \<Longrightarrow> may_up c \<Longrightarrow> conns s c = Some tc \<Longrightarrow> tc_state tc = kConnecting \<Longrightarrow> net_wf u \<Longrightarrow>
      conns u = (conns s)(c \<mapsto> setState kConnected tc) \<Longrightarrow> conn_log u = conn_log s @ [(c, True)] \<Longrightarrow>
      home u = home s \<Longrightarrow> inv {} u"
    and inv_down: "inv {} s \<Longrightarrow> conns s c = Some tc \<Longrightarrow> tc_state tc = kConnected \<or> tc_state tc = kDisconnecting \<Longrightarrow>
      net_wf u \<Longrightarrow> conns u = (conns s)(c \<mapsto> setState kDisconnected tc) \<Longrightarrow> conn_log u = conn_log s @ [(c, False)] \<Longrightarrow>
      home u = home s \<Longrightarrow> inv {c} u"
    and inv_close: "inv {c} s \<Longrightarrow> conns s c = Some tc \<Longrightarrow> tc_state tc = kDisconnected \<Longrightarrow>
      tc_closeCallback tc = Some cb \<Longrightarrow> on_close cb c s = Inr t \<Longrightarrow> inv {} t"
    and inv_destroy: "inv {c} s \<Longrightarrow> conns s c = Some tc \<Longrightarrow> may s c \<Longrightarrow> inv {} s"
    and may_frame: "may s c \<Longrightarrow> conns s c = Some tc \<Longrightarrow> conns u c = Some (setState kDisconnected tc) \<Longrightarrow> home u = home s \<Longrightarrow> may u c"
begin

lemma handleClose_inv:
  assumes s: "inv {} s" and os: "os_documented os" and run: "handleClose os app on_close c s = Inr t"
  shows "inv {} t"
  using inv_wf [OF s] os run
proof (rule handleClose_cases)
  fix tc u v cb tv
  assume h: "conns s c = Some tc" "tc_state tc = kConnected \<or> tc_state tc = kDisconnecting" "net_wf u"
    "conns u = (conns s)(c \<mapsto> setState kDisconnected tc)" "conn_log u = conn_log s @ [(c, False)]" "home u = home s"
    "api_frame u v" "conns v c = Some tv" "tc_closeCallback tv = Some cb" "on_close cb c v = Inr t"
  have v: "inv {c} v" using inv_down [OF s h(1-6)] h(7) by (rule inv_frame)
  obtain tv' where "conns v c = Some tv'" "conn_frame (setState kDisconnected tc) tv'"
    using api_frameD(4) [OF h(7), of c "setState kDisconnected tc"] h(4) by auto
  then have "tc_state tv = kDisconnected" using h(8) by (auto simp: conn_frame_def setState_def)
  with v h(8) show "inv {} t" using h(9,10) by (rule inv_close)
qed

lemma handleRead_inv:
  assumes s: "inv {} s" and os: "os_documented os" and run: "handleRead os app on_close c s = Inr t"
  shows "inv {} t"
proof -
  obtain tc n buf where tc: "conns s c = Some tc"
    and rd: "readFd (os_readv os (sys s)) (tc_socket tc) (inputBuffer tc) = Inr (n, buf)"
    using run by (auto simp: handleRead_def result_simps Let_def)
  let ?a = "os_readv os (sys s) (tc_socket tc) (readFd_iov (inputBuffer tc))"
  let ?s = "s\<lparr>sys := sys s @ [Sys_readv (tc_socket tc) ?a]\<rparr>"
  let ?u = "put_conn c (tc\<lparr>inputBuffer := buf\<rparr>) ?s"
  have "api_frame s ?s" using inv_wf [OF s] by (intro api_frame_same) simp_all
  moreover have "api_frame ?s ?u"
    using inv_wf [OF s] tc readFd_input(1) [OF inv_wf [OF s] os tc rd] by (intro input_frame) simp_all
  ultimately have u: "inv {} ?u" by (intro inv_frame [OF s] api_frame_trans [of s ?s ?u])
  have t: "(if 0 < n then call_messageCallback os app c (pollReturnTime s) ?u
      else if n = 0 then handleClose os app on_close c ?u else Inr ?u) = Inr t"
    using run tc rd by (simp add: handleRead_def Let_def)
  consider "0 < n" | "n = 0" | "n < 0" by linarith
  then show ?thesis
  proof cases
    case 1
    with t have "api_frame ?u t" using call_messageCallback_frame [OF inv_wf [OF u] os] by simp
    with u show ?thesis by (rule inv_frame)
  next
    case 2
    with t have "handleClose os app on_close c ?u = Inr t" by simp
    with u os show ?thesis by (rule handleClose_inv)
  next
    case 3
    with t u show ?thesis by simp
  qed
qed

lemma forceCloseInLoop_inv:
  assumes "inv {} s" and "os_documented os" and "forceCloseInLoop os app on_close c s = Inr t"
  shows "inv {} t"
proof -
  from assms(3) obtain tc where "conns s c = Some tc" by (auto simp: forceCloseInLoop_def result_simps)
  then show ?thesis
    using assms handleClose_inv [OF assms(1,2)] by (auto simp: forceCloseInLoop_def split: if_splits)
qed

lemma connectEstablished_inv:
  assumes s: "inv {} s" and os: "os_documented os" and up: "may_up c" and run: "connectEstablished os app c s = Inr t"
  shows "inv {} t"
  using inv_wf [OF s] os run
proof (rule connectEstablished_cases)
  fix tc u
  assume h: "conns s c = Some tc" "tc_state tc = kConnecting" "net_wf u" "conns u = (conns s)(c \<mapsto> setState kConnected tc)"
    "conn_log u = conn_log s @ [(c, True)]" "home u = home s" "api_frame u t"
  show "inv {} t" using inv_up [OF s up h(1-6)] h(7) by (rule inv_frame)
qed

lemma connectDestroyed_inv:
  assumes s: "inv {} s" and os: "os_documented os" and may: "may s c" and run: "connectDestroyed os app c s = Inr t"
  shows "inv {} t"
  using inv_wf [OF s] os run
proof (rule connectDestroyed_cases)
  assume "api_frame s t"
  with s show "inv {} t" by (rule inv_frame)
next
  fix tc u
  assume h: "conns s c = Some tc" "tc_state tc = kConnected" "net_wf u" "conns u = (conns s)(c \<mapsto> setState kDisconnected tc)"
    "conn_log u = conn_log s @ [(c, False)]" "home u = home s" "api_frame u t"
  have "inv {c} u" using s h(1) disjI1 [OF h(2)] h(3-6) by (rule inv_down)
  then have "inv {} u" using h(4,6) may_frame [OF may h(1), of u] by (intro inv_destroy [of c u]) simp_all
  then show "inv {} t" using h(7) by (rule inv_frame)
qed

lemma conn_callback_inv:
  assumes "inv {} s" and "os_documented os" and "conn_callback os app on_close cb s = Inr t"
  shows "inv {} t"
proof -
  have same: "inv {} (EventLoop_handleRead_op s)"
    using inv_wf [OF assms(1)] by (intro inv_frame [OF assms(1)] api_frame_same) simp_all
  show ?thesis
    using assms same inv_frame [OF assms(1) handleWrite_frame [OF inv_wf [OF assms(1)] assms(2)]]
      handleRead_inv [OF assms(1,2)] handleClose_inv [OF assms(1,2)]
    by (cases cb) (auto simp: handleError_def)
qed

lemma conn_functor_inv:
  assumes s: "inv {} s" and os: "os_documented os" and f: "functor_ok f" and may: "\<And>c. f = Fn_connectDestroyed c \<Longrightarrow> may s c"
    and up: "\<And>c. f = Fn_connectEstablished c \<Longrightarrow> may_up c"
    and run: "conn_functor os app on_close f s = Inr t"
  shows "inv {} t"
proof -
  note wf = inv_wf [OF s]
  show ?thesis
    using run f may up inv_frame [OF s] sendInLoop_frame [OF wf os] sendInLoop_ptr_frame [OF wf os] shutdownInLoop_frame [OF wf]
      startReadInLoop_frame [OF wf] stopReadInLoop_frame [OF wf] run_app_frame [OF wf os]
      forceCloseInLoop_inv [OF s os] connectEstablished_inv [OF s os] connectDestroyed_inv [OF s os] s
    by (cases f) simp_all
qed

lemma conn_event_inv:
  assumes s: "inv {} s" and os: "os_documented os" and ev: "event_ok ev"
    and may: "\<And>c. ev = Ev_functor (Fn_connectDestroyed c) \<Longrightarrow> may s c"
    and up: "\<And>c. ev = Ev_functor (Fn_connectEstablished c) \<Longrightarrow> may_up c"
    and run: "conn_event os app on_close ev s = Inr t"
  shows "inv {} t"
proof (cases ev)
  case (Ev_callback cb)
  with assms show ?thesis by (auto intro: conn_callback_inv)
next
  case (Ev_functor f)
  then show ?thesis using run ev may up by (intro conn_functor_inv [OF s os, of f]) simp_all
next
  case (Ev_timer cb)
  with run s forceClose_frame [OF inv_wf [OF s]] inv_frame [OF s] show ?thesis
    by (cases cb) (auto split: if_splits)
next
  case (Ev_api tid call)
  with run exec_api_frame [OF inv_wf [OF s] os] inv_frame [OF s] show ?thesis by simp
qed

end

subsection \<open>The life cycle is such an invariant\<close>

lemma life_invariant:
  assumes "keeps_life on_close"
  shows "conn_invariant (\<lambda>X. net_life) on_close (\<lambda>s c. True) (\<lambda>c. True)"
proof
  show "net_life u" if "net_life s" "conns s c = Some tc" "tc_state tc = kConnecting" "net_wf u"
    "conns u = (conns s)(c \<mapsto> setState kConnected tc)" "conn_log u = conn_log s @ [(c, True)]" for s u :: "'a net_scheme" and c tc
    using that by (intro transition_life [OF that(1,2,4,5)]) (simp_all add: seen_def)
  show "net_life u" if "net_life s" "conns s c = Some tc" "tc_state tc = kConnected \<or> tc_state tc = kDisconnecting" "net_wf u"
    "conns u = (conns s)(c \<mapsto> setState kDisconnected tc)" "conn_log u = conn_log s @ [(c, False)]" for s u :: "'a net_scheme" and c tc
    using that by (intro transition_life [OF that(1,2,4,5)]) (auto simp: seen_def)
qed (use assms in \<open>auto simp: keeps_life_def intro: net_lifeD(1) frame_life\<close>)

lemma events_life:
  assumes "net_life s" and "os_documented os" and "keeps_life on_close" and "list_all event_ok evs"
    and "rfold (conn_event os app on_close) evs s = Inr t"
  shows "net_life t"
proof (rule rfold_invariant [where I = net_life, OF _ assms(1,5)])
  show "net_life v" if "ev \<in> set evs" "net_life u" "conn_event os app on_close ev u = Inr v" for ev u v
    using that assms(4)
    by (intro conn_invariant.conn_event_inv [OF life_invariant [OF assms(3)] that(2) assms(2) _ _ _ that(3)])
      (simp_all add: list_all_iff)
qed

subsection \<open>So is progress from a given state\<close>

text \<open>Every connection of \<open>s0\<close> is still there, is the same connection, and its life has not gone back.\<close>

definition later :: "'m net_scheme \<Rightarrow> 'm net_scheme \<Rightarrow> bool" where
  "later s0 s \<longleftrightarrow> net_wf s \<and> (\<forall>c tc. conns s0 c = Some tc \<longrightarrow>
     (\<exists>tc'. conns s c = Some tc' \<and> tc_state tc \<le> tc_state tc' \<and> tc_name tc' = tc_name tc \<and> tc_socket tc' = tc_socket tc))"

definition keeps_conns :: "(close_cb \<Rightarrow> nat \<Rightarrow> 'm net_scheme \<Rightarrow> 'm net_scheme result) \<Rightarrow> bool" where
  "keeps_conns on_close \<longleftrightarrow> (\<forall>cb c s t. net_wf s \<longrightarrow> on_close cb c s = Inr t \<longrightarrow> net_wf t \<and> conns t = conns s)"

lemma later_wf: "later s0 s \<Longrightarrow> net_wf s"
  by (simp add: later_def)

lemma later_refl: "net_wf s \<Longrightarrow> later s s"
  by (simp add: later_def)

lemma later_frame:
  assumes "later s0 s" and "api_frame s t"
  shows "later s0 t"
  unfolding later_def
proof (intro conjI allI impI)
  show "net_wf t" using assms(2) by (rule api_frameD)
  fix c tc0
  assume "conns s0 c = Some tc0"
  then obtain tc where tc: "conns s c = Some tc" "tc_state tc0 \<le> tc_state tc" "tc_name tc = tc_name tc0" "tc_socket tc = tc_socket tc0"
    using assms(1) by (auto simp: later_def)
  moreover obtain tc' where "conns t c = Some tc'" "conn_frame tc tc'" using api_frameD(4) [OF assms(2) tc(1)] by blast
  moreover from this(2) have "tc_state tc \<le> tc_state tc'" by (auto simp: conn_frame_def less_eq_StateE_def)
  ultimately show "\<exists>tc'. conns t c = Some tc' \<and> tc_state tc0 \<le> tc_state tc' \<and> tc_name tc' = tc_name tc0 \<and> tc_socket tc' = tc_socket tc0"
    by (auto simp: conn_frame_def)
qed

lemma later_transition:
  assumes "later s0 s" and "net_wf u" and "conns s c = Some tc" and "conns u = (conns s)(c \<mapsto> setState st tc)" and "tc_state tc \<le> st"
  shows "later s0 u"
  using assms by (fastforce simp: later_def setState_def)

lemma later_invariant:
  assumes "keeps_conns on_close"
  shows "conn_invariant (\<lambda>X. later s0) on_close (\<lambda>s c. True) (\<lambda>c. True)"
proof
  show "later s0 u" if "later s0 s" "conns s c = Some tc" "tc_state tc = kConnecting" "net_wf u"
    "conns u = (conns s)(c \<mapsto> setState kConnected tc)" for s u :: "'a net_scheme" and c tc
    using that by (intro later_transition [OF that(1,4,2,5)]) (simp add: less_eq_StateE_def)
  show "later s0 u" if "later s0 s" "conns s c = Some tc" "tc_state tc = kConnected \<or> tc_state tc = kDisconnecting" "net_wf u"
    "conns u = (conns s)(c \<mapsto> setState kDisconnected tc)" for s u :: "'a net_scheme" and c tc
    using that by (intro later_transition [OF that(1,4,2,5)]) (auto simp: less_eq_StateE_def)
  show "later s0 t" if "later s0 s" "on_close cb c s = Inr t" for s t :: "'a net_scheme" and cb c
    using that assms by (auto simp: keeps_conns_def later_def)
qed (auto intro: later_wf later_frame)

lemma events_later:
  assumes "net_wf s" and "os_documented os" and "keeps_conns on_close" and "list_all event_ok evs"
    and "rfold (conn_event os app on_close) evs s = Inr t"
  shows "later s t"
proof (rule rfold_invariant [where I = "later s", OF _ later_refl [OF assms(1)] assms(5)])
  show "later s v" if "ev \<in> set evs" "later s u" "conn_event os app on_close ev u = Inr v" for ev u v
    using that assms(4)
    by (intro conn_invariant.conn_event_inv [OF later_invariant [OF assms(3)] that(2) assms(2) _ _ _ that(3)])
      (simp_all add: list_all_iff)
qed

section \<open>Properties of the life cycle\<close>

text \<open>
  C3. Whatever user code does in its callbacks, and however reads, writes, hang-ups, functors, timers
  and calls from other threads interleave: every connection tells its callback exactly once that it
  is up, and at most once, afterwards, that it is down, in step with its state; and the registration of its channel and
  its buffers stay well-formed. (The closing callback of the server or client keeps the same.)
\<close>

theorem connection_life_cycle:
  assumes "net_life s" and "os_documented os" and "keeps_life on_close" and "list_all event_ok evs"
    and "rfold (conn_event os app on_close) evs s = Inr t" and "conns t c = Some tc"
  shows "net_wf t \<and> callbacks t c =
    (case tc_state tc of kConnecting \<Rightarrow> [] | kConnected \<Rightarrow> [True] | kDisconnecting \<Rightarrow> [True] | kDisconnected \<Rightarrow> [True, False])"
proof -
  have "net_life t" using assms(1-5) by (rule events_life)
  with assms(6) show ?thesis by (simp add: net_life_def seen_def)
qed

text \<open>
  C11. In the same runs, a connection that is not closed waits for its socket to become writable
  exactly as long as it has bytes to send: pending output is never forgotten, and an empty buffer
  never keeps the loop busy.
\<close>

theorem writing_iff_pending:
  assumes "net_life s" and "os_documented os" and "keeps_life on_close" and "list_all event_ok evs"
    and "rfold (conn_event os app on_close) evs s = Inr t" and "conns t c = Some tc" and "tc_state tc \<noteq> kDisconnected"
  shows "\<exists>ch. chans t (tc_channel tc) = Some ch \<and> ch_fd ch = tc_socket tc \<and>
    (isWriting ch \<longleftrightarrow> contents (outputBuffer tc) \<noteq> [])"
proof -
  have "net_life t" using assms(1-5) by (rule events_life)
  from net_lifeD(1) [OF this] assms(6) obtain ch where
    "chans t (tc_channel tc) = Some ch" "ch_fd ch = tc_socket tc" "write_inv tc ch"
    by (rule net_wfD)
  with assms(7) show ?thesis by (auto simp: write_inv_def)
qed

text \<open>
  C4. The life of a connection goes forward only: connecting, connected, disconnecting, disconnected. Over any sequence of
  events, whatever user code does, a connection stays the same object with the same name and socket, and its state never goes back; once
  disconnected it stays so.
\<close>

theorem connection_state_monotone:
  assumes "net_wf s" and "os_documented os" and "keeps_conns on_close" and "list_all event_ok evs"
    and "rfold (conn_event os app on_close) evs s = Inr t" and "conns s c = Some tc"
  shows "\<exists>tc'. conns t c = Some tc' \<and> tc_name tc' = tc_name tc \<and> tc_socket tc' = tc_socket tc \<and> tc_state tc \<le> tc_state tc' \<and>
    (tc_state tc = kDisconnected \<longrightarrow> tc_state tc' = kDisconnected)"
proof -
  have last: "st \<le> kDisconnected" for st by (cases st) (simp_all add: less_eq_StateE_def)
  obtain tc' where "conns t c = Some tc'" "tc_state tc \<le> tc_state tc'" "tc_name tc' = tc_name tc" "tc_socket tc' = tc_socket tc"
    using events_later [OF assms(1-5)] assms(6) by (auto simp: later_def)
  moreover have "tc_state tc' = kDisconnected" if "tc_state tc = kDisconnected"
    using that calculation(2) last [of "tc_state tc'"] by simp
  ultimately show ?thesis by blast
qed

section \<open>Properties of sending\<close>

datatype out_op = Out_send "byte list" | Out_writable

fun out_step :: "os \<Rightarrow> nat \<Rightarrow> out_op \<Rightarrow> 'm net_scheme \<Rightarrow> 'm net_scheme result" where
  "out_step os c (Out_send data) s = sendInLoop os c data s"
| "out_step os c Out_writable s = handleWrite os c s"

fun out_data :: "out_op \<Rightarrow> byte list" where
  "out_data (Out_send data) = data"
| "out_data Out_writable = []"

text \<open>
  A send from \<open>s\<close> to \<open>t\<close> was answered by \<open>EPIPE\<close> or \<open>ECONNRESET\<close>: \<open>sendInLoop\<close> then drops its bytes. \<open>sent_alive\<close> are the bytes of those of a sequence of
  sends that were not.
\<close>

definition dead_write :: "fd \<Rightarrow> byte list \<Rightarrow> 'm net_scheme \<Rightarrow> 'm net_scheme \<Rightarrow> bool" where
  "dead_write fd data s t \<longleftrightarrow> sys t = sys s @ [Sys_write fd data (Inl EPIPE)] \<or> sys t = sys s @ [Sys_write fd data (Inl ECONNRESET)]"

fun sent_alive :: "os \<Rightarrow> nat \<Rightarrow> fd \<Rightarrow> out_op list \<Rightarrow> 'm net_scheme \<Rightarrow> byte list" where
  "sent_alive os c fd [] s = []"
| "sent_alive os c fd (op # ops) s =
     (case out_step os c op s of
        Inl _ \<Rightarrow> []
      | Inr t \<Rightarrow> (if dead_write fd (out_data op) s t then [] else out_data op) @ sent_alive os c fd ops t)"

definition reports_dead :: "fd \<Rightarrow> sys_call \<Rightarrow> bool" where
  "reports_dead fd x \<longleftrightarrow> (\<exists>data err. x = Sys_write fd data (Inl err) \<and> (err = EPIPE \<or> err = ECONNRESET))"

lemma sendInLoop_outgoing:
  assumes wf: "net_wf s" and os: "os_documented os" and tc: "conns s c = Some tc"
    and st: "tc_state tc \<noteq> kDisconnected" and len: "length data < 2 ^ 63" and run: "sendInLoop os c data s = Inr t"
  shows "net_wf t" and "outgoing t c = outgoing s c @ (if dead_write (tc_socket tc) data s t then [] else data)"
    and "caller_mem t = caller_mem s" and "\<exists>new. sys t = sys s @ new"
    and "\<exists>tc'. conns t c = Some tc' \<and> tc_state tc' = tc_state tc \<and> tc_socket tc' = tc_socket tc \<and> inputBuffer tc' = inputBuffer tc"
proof -
  from wf os tc st len
  have "net_wf t \<and> outgoing t c = outgoing s c @ (if dead_write (tc_socket tc) data s t then [] else data) \<and>
    caller_mem t = caller_mem s \<and> (\<exists>new. sys t = sys s @ new) \<and>
    (\<exists>tc'. conns t c = Some tc' \<and> tc_state tc' = tc_state tc \<and> tc_socket tc' = tc_socket tc \<and> inputBuffer tc' = inputBuffer tc)"
  proof (cases rule: sendInLoop_cases)
    case fault
    then show ?thesis using run by simp
  next
    case (dead t' err)
    have "t' = t" using dead(1) run by simp
    then have "dead_write (tc_socket tc) data s t" using dead(4,5) by (auto simp: dead_write_def)
    moreover have "outgoing t c = outgoing s c" using dead(3,5) tc \<open>t' = t\<close> by (simp add: outgoing_def)
    ultimately show ?thesis using dead tc \<open>t' = t\<close> by simp
  next
    case (ok t' tc' new)
    have "tc_state tc' = tc_state tc" "inputBuffer tc' = inputBuffer tc" "tc_socket tc' = tc_socket tc"
      by (subst ok(4); simp)+
    moreover have "\<not> dead_write (tc_socket tc) data s t" using ok(1,5,7) run by (fastforce simp: dead_write_def)
    ultimately show ?thesis using ok tc run by (auto simp: outgoing_def)
  qed
  then show "net_wf t" "outgoing t c = outgoing s c @ (if dead_write (tc_socket tc) data s t then [] else data)"
    "caller_mem t = caller_mem s" "\<exists>new. sys t = sys s @ new"
    "\<exists>tc'. conns t c = Some tc' \<and> tc_state tc' = tc_state tc \<and> tc_socket tc' = tc_socket tc \<and> inputBuffer tc' = inputBuffer tc"
    by blast+
qed

lemma out_step_outgoing:
  assumes "net_wf s" and "os_documented os" and "conns s c = Some tc" and "tc_state tc \<noteq> kDisconnected"
    and "length (out_data op) < 2 ^ 63" and "out_step os c op s = Inr u"
  shows "net_wf u" and "outgoing u c = outgoing s c @ (if dead_write (tc_socket tc) (out_data op) s u then [] else out_data op)"
    and "\<exists>new. sys u = sys s @ new" and "\<exists>tc'. conns u c = Some tc' \<and> tc_state tc' = tc_state tc \<and> tc_socket tc' = tc_socket tc"
proof -
  have "net_wf u \<and> outgoing u c = outgoing s c @ (if dead_write (tc_socket tc) (out_data op) s u then [] else out_data op) \<and>
    (\<exists>new. sys u = sys s @ new) \<and> (\<exists>tc'. conns u c = Some tc' \<and> tc_state tc' = tc_state tc \<and> tc_socket tc' = tc_socket tc)"
  proof (cases op)
    case (Out_send data)
    with assms(5,6) have "length data < 2 ^ 63" "sendInLoop os c data s = Inr u" by simp_all
    note so = sendInLoop_outgoing [OF assms(1-4) this]
    from so(5) have "\<exists>tc'. conns u c = Some tc' \<and> tc_state tc' = tc_state tc \<and> tc_socket tc' = tc_socket tc" by blast
    then show ?thesis using so(1,2,4) Out_send by simp
  next
    case Out_writable
    from assms(1-3) show ?thesis
    proof (rule handleWrite_cases)
      fix t' tc' new
      assume h: "handleWrite os c s = Inr t'" "net_wf t'" "conns t' = (conns s)(c \<mapsto> tc')"
        "tc' = tc\<lparr>outputBuffer := outputBuffer tc'\<rparr>" "sys t' = sys s @ new"
        "written (tc_socket tc) new @ contents (outputBuffer tc') = contents (outputBuffer tc)"
      have "tc_state tc' = tc_state tc" "tc_socket tc' = tc_socket tc" by (subst h(4); simp)+
      with h Out_writable assms(3,6) show ?thesis by (auto simp: outgoing_def)
    qed
  qed
  then show "net_wf u" "outgoing u c = outgoing s c @ (if dead_write (tc_socket tc) (out_data op) s u then [] else out_data op)"
    "\<exists>new. sys u = sys s @ new" "\<exists>tc'. conns u c = Some tc' \<and> tc_state tc' = tc_state tc \<and> tc_socket tc' = tc_socket tc"
    by blast+
qed

text \<open>
  C5. The output stream of an open connection: over any sequence of sends and of write events, with
  whatever partial writes and errors of the kernel, what the kernel has taken followed by
  what is in the output buffer is what was sent, in order, each byte once, except for the data of the sends whose own \<open>write\<close> the kernel answered by
  \<open>EPIPE\<close> or \<open>ECONNRESET\<close>, which is dropped as a whole. When the kernel never answers so, everything that was sent is there.
\<close>

theorem output_stream:
  assumes "net_wf s" and "os_documented os" and "conns s c = Some tc" and "tc_state tc \<noteq> kDisconnected"
    and "list_all (\<lambda>op. length (out_data op) < 2 ^ 63) ops" and "rfold (out_step os c) ops s = Inr t"
  shows "net_wf t \<and> outgoing t c = outgoing s c @ sent_alive os c (tc_socket tc) ops s \<and>
    (\<exists>new. sys t = sys s @ new \<and>
       ((\<forall>x \<in> set new. \<not> reports_dead (tc_socket tc) x) \<longrightarrow> outgoing t c = outgoing s c @ concat (map out_data ops)))"
  using assms(1,3-6)
proof (induction ops arbitrary: s tc)
  case Nil
  then show ?case by simp
next
  case (Cons op ops)
  obtain u where u: "out_step os c op s = Inr u" "rfold (out_step os c) ops u = Inr t"
    using Cons.prems(5) by (auto simp: rbind_eq_Inr)
  have len: "length (out_data op) < 2 ^ 63" using Cons.prems(4) by simp
  note st = out_step_outgoing [OF Cons.prems(1) assms(2) Cons.prems(2,3) len u(1)]
  obtain tc' new where tc': "conns u c = Some tc'" "tc_state tc' = tc_state tc" "tc_socket tc' = tc_socket tc" and new: "sys u = sys s @ new"
    using st(3,4) by blast
  have opened: "tc_state tc' \<noteq> kDisconnected" using tc'(2) Cons.prems(3) by simp
  have all: "list_all (\<lambda>op. length (out_data op) < 2 ^ 63) ops" using Cons.prems(4) by simp
  obtain new' where IH: "net_wf t" "outgoing t c = outgoing u c @ sent_alive os c (tc_socket tc) ops u" "sys t = sys u @ new'"
    "\<forall>x \<in> set new'. \<not> reports_dead (tc_socket tc) x \<Longrightarrow> outgoing t c = outgoing u c @ concat (map out_data ops)"
    using Cons.IH [OF st(1) tc'(1) opened all u(2)] tc'(3) by auto
  have "\<not> dead_write (tc_socket tc) (out_data op) s u" if "\<forall>x \<in> set new. \<not> reports_dead (tc_socket tc) x"
    using that new by (auto simp: dead_write_def reports_dead_def)
  then show ?case using IH st(2) u(1) new by (intro conjI exI [of _ "new @ new'"]) auto
qed

text \<open>
  C37. \<open>shutdown()\<close> is graceful: the write side of the socket is shut down at once when nothing is left
  to send; otherwise it is not, and a later write event shuts it down exactly when it empties the buffer.
\<close>

theorem shutdown_graceful:
  assumes "net_wf s" and "os_documented os" and "conns s c = Some tc" and "tc_state tc = kConnected" and "isInLoopThread tid s"
  shows "\<exists>s1 t tc' new. shutdown tid c s = Inr s1 \<and>
    sys s1 = sys s @ (if contents (outputBuffer tc) = [] then [Sys_shutdown (tc_socket tc)] else []) \<and>
    handleWrite os c s1 = Inr t \<and> conns t c = Some tc' \<and> sys t = sys s1 @ new \<and>
    written (tc_socket tc) new @ contents (outputBuffer tc') = contents (outputBuffer tc) \<and>
    (Sys_shutdown (tc_socket tc) \<in> set new \<longleftrightarrow> contents (outputBuffer tc) \<noteq> [] \<and> contents (outputBuffer tc') = [])"
proof -
  let ?tc = "setState kDisconnecting tc"
  let ?s = "put_conn c ?tc s"
  have tc: "tc_state ?tc = kDisconnecting" "outputBuffer ?tc = outputBuffer tc" "tc_socket ?tc = tc_socket tc"
    "tc_channel ?tc = tc_channel tc"
    by (simp_all add: setState_def)
  have wf: "net_wf ?s" using assms(1,3,4) by (intro setState_wf) simp_all
  obtain ch where ch: "chans s (tc_channel tc) = Some ch" using assms(1,3) by (rule net_wfD)
  obtain s1 where s1: "shutdownInLoop c ?s = Inr s1" using ch tc(4) by (simp add: shutdownInLoop_def)
  have sd: "shutdown tid c s = Inr s1"
    using assms(3-5) s1 by (simp add: shutdown_def runInLoop_def isInLoopThread_def)
  from wf s1 have h: "net_wf s1 \<and> conns s1 c = Some ?tc \<and>
      sys s1 = sys s @ (if contents (outputBuffer tc) = [] then [Sys_shutdown (tc_socket tc)] else [])"
    by (rule shutdownInLoop_cases) (use tc in auto)
  then have "net_wf s1" "conns s1 c = Some ?tc" by simp_all
  from this(1) assms(2) this(2) show ?thesis
    by (rule handleWrite_cases) (use sd h tc in \<open>auto simp: fun_upd_def\<close>)
qed

text \<open>
  C38. The high-water-mark callback: whatever the state of the output buffer and whatever the kernel answers to the direct write (everything, a part, nothing, an
  error), a send queues the callback exactly when the pending output crosses the mark from below, with the new amount; sends that stay below the mark or start at or above it
  do not queue it. The only other functor a send queues is the write-complete callback, exactly when the kernel has taken all the data at once.
\<close>

theorem high_water_mark_crossing:
  assumes "net_wf s" and "os_documented os" and "conns s c = Some tc" and "tc_state tc \<noteq> kDisconnected"
    and "length (contents (outputBuffer tc)) + length data < 2 ^ 62" and "highWaterMarkCallback tc = Some cb"
    and "sendInLoop os c data s = Inr t"
  shows "\<exists>tc'. conns t c = Some tc' \<and> pendingFunctors t = pendingFunctors s @
    (let old = length (contents (outputBuffer tc)); new = length (contents (outputBuffer tc'))
     in if old < unat (highWaterMark tc) \<and> unat (highWaterMark tc) \<le> new
        then [Some (Fn_highWaterMark cb c (of_nat new))]
        else case writeCompleteCallback tc of
               Some wc \<Rightarrow> if sys t = sys s @ [Sys_write (tc_socket tc) data (Inr (length data))] then [Some (Fn_writeComplete wc c)] else []
             | None \<Rightarrow> [])"
proof -
  from assms(1,3) obtain ch where ch: "chans s (tc_channel tc) = Some ch" "write_inv tc ch" and bw: "buf_wf (outputBuffer tc)"
    by (rule net_wfD)
  let ?old = "length (contents (outputBuffer tc))"
  have direct: "\<not> isWriting ch \<and> readableBytes (outputBuffer tc) = 0 \<longleftrightarrow> contents (outputBuffer tc) = []"
    using ch(2) assms(4) contents_empty_iff [OF bw] by (auto simp: write_inv_def)
  have rest: ?thesis if run: "sendInLoop os c data s = buffer_rest c tc ch (drop n data) s1" and n: "n < length data"
      and s1: "net_wf s1" "conns s1 = conns s" "chans s1 = chans s" "pendingFunctors s1 = pendingFunctors s"
        "sys s1 \<noteq> sys s @ [Sys_write (tc_socket tc) data (Inr (length data))]" for n s1
  proof -
    let ?r = "readableBytes (outputBuffer tc)" and ?m = "length (drop n data)"
    have pre: "conns s1 c = Some tc" "chans s1 (tc_channel tc) = Some ch" "drop n data \<noteq> []" "?m < 2 ^ 63"
      using s1(2,3) assms(3,5) ch(1) n by simp_all
    have old: "unat ?r = ?old" using bw by simp
    have "unat (of_nat ?m :: size_t) = ?m" using assms(5) by (intro unat_of_nat_bound) simp
    then have sum: "unat (?r + of_nat ?m) = ?old + ?m" using old assms(5) by (subst unat_add_bound) simp_all
    have word: "?r + of_nat ?m = of_nat (?old + ?m)"
      using arg_cong [OF old, of "of_nat :: nat \<Rightarrow> size_t"] by simp
    have mark: "highWaterMark tc \<le> ?r + of_nat ?m \<longleftrightarrow> unat (highWaterMark tc) \<le> ?old + ?m" "?r < highWaterMark tc \<longleftrightarrow> ?old < unat (highWaterMark tc)"
      using old sum by (simp_all only: size_le_iff size_less_iff)
    from s1(1) pre(1,2) assms(4) pre(3,4) show ?thesis
    proof (cases rule: buffer_rest_ok)
      case fault
      then show ?thesis using run assms(7) by simp
    next
      case (ok t' ob)
      then have t: "t' = t" using run assms(7) by simp
      have new: "length (contents ob) = ?old + ?m" using ok(3) by simp
      have other: "sys t \<noteq> sys s @ [Sys_write (tc_socket tc) data (Inr (length data))]" using ok(5) t s1(5) by simp
      have pend: "pendingFunctors t = pendingFunctors s @
          (if unat (highWaterMark tc) \<le> ?old + ?m \<and> ?old < unat (highWaterMark tc)
           then [Some (Fn_highWaterMark cb c (of_nat (?old + ?m)))] else [])"
        using ok(9) unfolding t assms(6) option.case mark s1(4) unfolding word .
      have "conns t c = Some (tc\<lparr>outputBuffer := ob\<rparr>)" using ok(4) t by simp
      then show ?thesis
        by (intro exI [of _ "tc\<lparr>outputBuffer := ob\<rparr>"]) (simp add: pend other new Let_def del: of_nat_add length_drop split: option.splits)
    qed
  qed
  show ?thesis
  proof (cases "contents (outputBuffer tc) = []")
    case False
    then have d: "\<not> (\<not> isWriting ch \<and> readableBytes (outputBuffer tc) = 0)" using direct by simp
    show ?thesis
    proof (cases "data = []")
      case True
      then have "t = s" using assms(3,4,7) ch(1) d by (auto simp: sendInLoop_def)
      then show ?thesis using assms(3) by (intro exI [of _ tc]) (simp add: Let_def split: option.splits)
    next
      case ne: False
      show ?thesis by (rule rest [of 0 s]) (use ne assms(1,3,4) ch(1) d in \<open>auto simp: sendInLoop_def\<close>)
    qed
  next
    case True
    then have d: "\<not> isWriting ch \<and> readableBytes (outputBuffer tc) = 0" using direct by simp
    let ?a = "os_write os (sys s) (tc_socket tc) data"
    let ?s1 = "s\<lparr>sys := sys s @ [Sys_write (tc_socket tc) data ?a]\<rparr>"
    have s1: "net_wf ?s1" using assms(1) by simp
    consider (full) "?a = Inr (length data)" | (part) n where "?a = Inr n" "n < length data"
      | (dead) err where "?a = Inl err" "err \<noteq> EAGAIN \<and> (err = EPIPE \<or> err = ECONNRESET)"
      | (again) err where "?a = Inl err" "\<not> (err \<noteq> EAGAIN \<and> (err = EPIPE \<or> err = ECONNRESET))"
      using assms(2) unfolding os_documented_def by (cases ?a) (auto simp: le_less)
    then show ?thesis
    proof cases
      case full
      then have "t = queue_writeComplete c tc ?s1" using assms(3,4,7) ch(1) d by (auto simp: sendInLoop_def direct_write_def Let_def)
      then show ?thesis using assms(3) full True
        by (intro exI [of _ tc]) (auto simp: queue_writeComplete_def Let_def split: option.splits)
    next
      case part
      show ?thesis by (rule rest [of n ?s1]) (use part s1 assms(3,4) ch(1) d in \<open>auto simp: sendInLoop_def direct_write_def Let_def\<close>)
    next
      case dead
      then have "t = ?s1" using assms(3,4,7) ch(1) d by (auto simp: sendInLoop_def direct_write_def Let_def)
      then show ?thesis using assms(3) dead(1) by (intro exI [of _ tc]) (simp add: Let_def split: option.splits)
    next
      case again
      show ?thesis
      proof (cases "data = []")
        case empty: True
        then have "t = ?s1" using again assms(3,4,7) ch(1) d by (auto simp: sendInLoop_def direct_write_def Let_def)
        then show ?thesis using assms(3) again(1) by (intro exI [of _ tc]) (simp add: Let_def split: option.splits)
      next
        case ne: False
        show ?thesis by (rule rest [of 0 ?s1]) (use again ne s1 assms(3,4) ch(1) d in \<open>auto simp: sendInLoop_def direct_write_def Let_def\<close>)
      qed
    qed
  qed
qed

text \<open>
  \<open>stopRead()\<close> stops the channel from reading, but sets \<open>reading_\<close> to true, so \<open>isReading()\<close>
  reports that the connection reads.
\<close>

theorem stopRead_reports_reading:
  assumes "net_wf s" and "conns s c = Some tc" and "reading tc"
  shows "\<exists>t tc' ch. stopReadInLoop c s = Inr t \<and> conns t c = Some tc' \<and> chans t (tc_channel tc') = Some ch \<and>
    reading tc' \<and> \<not> isReading ch"
proof -
  from assms(1,2) obtain ch where ch: "chans s (tc_channel tc) = Some ch" and bw: "buf_wf (inputBuffer tc)" "buf_wf (outputBuffer tc)"
    and wi: "write_inv tc ch"
    by (rule net_wfD)
  have wi': "write_inv tc (ch\<lparr>events := interest DisableReading (events ch)\<rparr>)"
    using wi by (auto simp: write_inv_def isWriting_bit)
  let ?u = "after_update (tc_channel tc) ch (interest DisableReading (events ch)) s"
  have u: "channel_op DisableReading (tc_channel tc) s = Inr ?u"
    using conn_interest(1) [OF assms(1,2) ch refl refl bw wi'] assms(2) by simp
  have "(ev AND NOT kReadEvent) AND kReadEvent = 0" for ev :: cint
    by (rule bit_word_eqI) (auto simp: bit_simps)
  then show ?thesis
    using u assms(2,3) ch
    by (intro exI [of _ "put_conn c (tc\<lparr>reading := True\<rparr>) ?u"] exI [of _ "tc\<lparr>reading := True\<rparr>"]
          exI [of _ "ch\<lparr>events := interest DisableReading (events ch), addedToLoop := True,
            index := next_index ch (interest DisableReading (events ch))\<rparr>"])
      (simp add: stopReadInLoop_def isReading_def has_flag_def)
qed

text \<open>
  \<open>send(const std::string&)\<close> from another thread queues a pointer into the caller's string,
  not its bytes: if the string is gone when the loop runs the functor, the loop reads freed memory, and
  if it was changed, the loop sends the changed bytes.
\<close>

theorem cross_thread_send_dangling:
  assumes "conns s c = Some tc" and "tc_state tc = kConnected" and "\<not> isInLoopThread tid s"
    and "caller_mem s p = Some msg" and "msg \<noteq> []" and "length msg < 2 ^ 31"
  shows "\<exists>s1. send_string os tid c p s = Inr s1 \<and>
    pendingFunctors s1 = pendingFunctors s @ [Some (Fn_sendInLoop_ptr c p (length msg))] \<and>
    conn_functor os app on_close (Fn_sendInLoop_ptr c p (length msg)) (s1\<lparr>caller_mem := (caller_mem s1)(p := None)\<rparr>)
      = Inl Bad_pointer \<and>
    (length other = length msg \<longrightarrow>
     conn_functor os app on_close (Fn_sendInLoop_ptr c p (length msg)) (s1\<lparr>caller_mem := (caller_mem s1)(p \<mapsto> other)\<rparr>)
      = sendInLoop os c other (s1\<lparr>caller_mem := (caller_mem s1)(p \<mapsto> other)\<rparr>))"
proof -
  have len: "sint (of_nat (length msg) :: cint) = int (length msg)"
    using assms(6) by (rule sint_of_nat_small)
  have "send_string os tid c p s = Inr (queueInLoop tid (Some (Fn_sendInLoop_ptr c p (length msg))) s)"
    using assms len by (simp add: send_string_def send_ptr_def runInLoop_def)
  then show ?thesis by (simp add: sendInLoop_ptr_def with_mem_def)
qed

section \<open>The pingpong server\<close>

lemma send_string_in_loop:
  assumes "conns s c = Some tc" and "tc_state tc = kConnected" and "caller_mem s p = Some msg" and "msg \<noteq> []"
    and "length msg < 2 ^ 31" and "isInLoopThread tid s"
  shows "send_string os tid c p s = sendInLoop os c msg s"
  using assms sint_of_nat_small [OF assms(5)]
  by (simp add: send_string_def send_ptr_def sendInLoop_ptr_def with_mem_def)

text \<open>\<open>onConnection\<close> and \<open>onMessage\<close> of \<open>example/pingpong/server.cc\<close>; the local string \<open>msg\<close> is at address 0.\<close>

fun pingpong_server :: "app_call \<Rightarrow> 'm net_scheme \<Rightarrow> api_call list" where
  "pingpong_server (App_connection k c) s =
     (case conns s c of
        None \<Rightarrow> []
      | Some tc \<Rightarrow> if connected tc then [Api_setTcpNoDelay c True] else [])"
| "pingpong_server (App_message k c now) s = [Api_retrieveAllAsString c 0, Api_send_string c 0]"
| "pingpong_server _ s = []"

text \<open>
  C33. The pingpong server echoes: when bytes arrive on a connected connection, exactly the unread input, what was left of it before followed by these
  bytes (together less than \<open>2 ^ 31\<close>, as \<open>send\<close> takes an \<open>int\<close>), goes to the kernel or into the output
  buffer, after what is still pending from before, and the input is consumed. It is lost only when the kernel answers the \<open>write\<close> of it by \<open>EPIPE\<close> or \<open>ECONNRESET\<close>.
\<close>

theorem pingpong_echoes:
  assumes wf: "net_wf s" and os: "os_documented os" and tc: "conns s c = Some tc" "tc_state tc = kConnected"
    and cb: "messageCallback tc = Some (User_message k)"
    and got: "os_readv os (sys s) (tc_socket tc) (readFd_iov (inputBuffer tc)) = Inr got" "got \<noteq> []"
    and msg: "msg = contents (inputBuffer tc) @ got" "length msg < 2 ^ 31"
    and run: "handleRead os pingpong_server on_close c s = Inr t"
  shows "net_wf t \<and> (\<exists>tc'. conns t c = Some tc' \<and> contents (inputBuffer tc') = []) \<and>
    outgoing t c = outgoing s c @
      (if dead_write (tc_socket tc) msg (s\<lparr>sys := sys s @ [Sys_readv (tc_socket tc) (Inr got)]\<rparr>) t then [] else msg)"
proof -
  obtain n buf where rd: "readFd (os_readv os (sys s)) (tc_socket tc) (inputBuffer tc) = Inr (n, buf)"
    using run tc by (auto simp: handleRead_def result_simps Let_def)
  have buf: "buf_wf buf" "contents buf = msg" "n = int (length got)"
    using readFd_input [OF wf os tc(1) rd] got(1) msg(1) by simp_all
  have ne: "msg \<noteq> []" using msg(1) got(2) by simp
  let ?s1 = "s\<lparr>sys := sys s @ [Sys_readv (tc_socket tc) (Inr got)]\<rparr>"
  let ?u = "put_conn c (tc\<lparr>inputBuffer := buf\<rparr>) ?s1"
  have wfu: "net_wf ?u"
    by (rule api_frameD(1) [OF input_frame [of ?s1 c tc buf]]) (use wf tc(1) buf(1) in simp_all)
  obtain b' where b': "retrieveAllAsString buf = Inr (msg, b')" "buf_wf b'" "contents b' = []"
    using retrieveAllAsString_ok [OF buf(1)] buf(2) msg(2) by auto
  let ?v = "put_conn c (tc\<lparr>inputBuffer := b'\<rparr>) (?u\<lparr>caller_mem := (caller_mem s)(0 \<mapsto> msg)\<rparr>)"
  have v: "exec_api os (threadId s) (Api_retrieveAllAsString c 0) ?u = Inr ?v"
    using b'(1) by simp
  have "run_app os pingpong_server (App_message k c (pollReturnTime s)) ?u = Inr t"
    using run tc cb rd got buf by (simp add: handleRead_def call_messageCallback_def Let_def)
  then have "send_string os (threadId s) c 0 ?v = Inr t"
    using v by (simp add: run_app_def) (auto simp: rbind_eq_Inr)
  then have send: "sendInLoop os c msg ?v = Inr t"
    by (subst (asm) send_string_in_loop [of _ _ "tc\<lparr>inputBuffer := b'\<rparr>" _ msg])
      (use tc(2) ne msg(2) in \<open>simp_all add: isInLoopThread_def\<close>)
  have wfv: "net_wf ?v" by (rule api_frameD(1) [OF exec_api_frame [OF wfu os v]])
  have tcv: "conns ?v c = Some (tc\<lparr>inputBuffer := b'\<rparr>)" "tc_state (tc\<lparr>inputBuffer := b'\<rparr>) \<noteq> kDisconnected"
    using tc by simp_all
  have len: "length msg < 2 ^ 63" using msg(2) by simp
  note so = sendInLoop_outgoing [OF wfv os tcv len send]
  have out: "outgoing ?v c = outgoing s c" using tc by (simp add: outgoing_def)
  have dead: "dead_write (tc_socket (tc\<lparr>inputBuffer := b'\<rparr>)) msg ?v t = dead_write (tc_socket tc) msg ?s1 t"
    by (simp add: dead_write_def)
  obtain tc' where "conns t c = Some tc'" "inputBuffer tc' = b'" using so(5) by auto
  then have "\<exists>tc'. conns t c = Some tc' \<and> contents (inputBuffer tc') = []" using b'(3) by blast
  moreover have "outgoing t c = outgoing s c @ (if dead_write (tc_socket tc) msg ?s1 t then [] else msg)"
    using so(2) unfolding out dead .
  ultimately show ?thesis using so(1) by blast
qed

text \<open>Changes to other channels and descriptors than those of the connections.\<close>

lemma foreign_net_wf:
  assumes wf: "net_wf s" and t: "loop_wf t" "conns t = conns s"
    and same: "\<And>c tc. conns s c = Some tc \<Longrightarrow> chans t (tc_channel tc) = chans s (tc_channel tc) \<and>
      channels t (tc_socket tc) = channels s (tc_socket tc)"
  shows "net_wf t"
proof -
  have "conn_wf t tc" if tc: "conns s c = Some tc" for c tc
  proof -
    have "conn_wf s tc" using wf tc unfolding net_wf_def by blast
    then show ?thesis using same [OF tc] by (auto simp: conn_wf_def fd_free_def)
  qed
  then show ?thesis using wf t unfolding net_wf_def by simp
qed

section \<open>A new connection\<close>

text \<open>The addresses and the descriptor of a new connection are not in use, and the connection has no history.\<close>

definition fresh_conn :: "nat \<Rightarrow> chan \<Rightarrow> fd \<Rightarrow> 'm net_scheme \<Rightarrow> bool" where
  "fresh_conn c d sockfd s \<longleftrightarrow> conns s c = None \<and> callbacks s c = [] \<and> chans s d = None \<and> channels s sockfd = None \<and>
     (\<forall>e te. conns s e = Some te \<longrightarrow> tc_socket te \<noteq> sockfd)"

lemma TcpConnection_init_ok:
  obtains tc ch where "TcpConnection_init lid c d name sockfd la pa = Inr (tc, ch)"
    "tc_name tc = name" "tc_channel tc = d" "tc_socket tc = sockfd" "tc_state tc = kConnecting"
    "buf_wf (inputBuffer tc)" "buf_wf (outputBuffer tc)" "contents (outputBuffer tc) = []"
    "index ch = kNew" "isNoneEvent ch" "ownerLoop ch = lid" "ch_fd ch = sockfd" "\<not> isWriting ch"
proof -
  obtain b where b: "Buffer_ctor kInitialSize = Inr b" "buf_wf b" "contents b = []"
    by (rule Buffer_ctor_ok [of kInitialSize]) (simp_all add: kInitialSize_def)
  then obtain tc ch where "TcpConnection_init lid c d name sockfd la pa = Inr (tc, ch)"
    by (simp add: TcpConnection_init_def)
  with b show thesis
    by (intro that [of tc ch]) (auto simp: TcpConnection_init_def callback_setter_defs Channel_ctor_def kNew_def
        isNoneEvent_def kNoneEvent_def isWriting_bit)
qed

text \<open>A connection object and its channel as the constructor makes them for the loop \<open>lid\<close>.\<close>

definition new_pair :: "nat \<Rightarrow> TcpConnection \<Rightarrow> channel \<Rightarrow> bool" where
  "new_pair lid tc ch \<longleftrightarrow> tc_state tc = kConnecting \<and> buf_wf (inputBuffer tc) \<and> buf_wf (outputBuffer tc) \<and>
     contents (outputBuffer tc) = [] \<and> index ch = kNew \<and> isNoneEvent ch \<and> ownerLoop ch = lid \<and> ch_fd ch = tc_socket tc \<and> \<not> isWriting ch"

lemma new_pair_wf:
  assumes wf: "net_wf s" and fresh: "fresh_conn c (tc_channel tc) (tc_socket tc) s" and pair: "new_pair (loop_id s) tc ch"
  shows "net_wf (put_conn c tc (put_chan (tc_channel tc) ch s))"
proof -
  let ?d = "tc_channel tc" and ?t = "put_conn c tc (put_chan (tc_channel tc) ch s)"
  have new: "tc_state tc = kConnecting" "buf_wf (inputBuffer tc)"
      "buf_wf (outputBuffer tc)" "contents (outputBuffer tc) = []"
    "index ch = kNew" "isNoneEvent ch" "ownerLoop ch = loop_id s" "ch_fd ch = tc_socket tc" "\<not> isWriting ch"
    using pair by (simp_all add: new_pair_def)
  have fr: "conns s c = None" "chans s ?d = None" "channels s (tc_socket tc) = None"
    "\<And>e te. conns s e = Some te \<Longrightarrow> tc_socket te \<noteq> tc_socket tc"
    using fresh by (auto simp: fresh_conn_def)
  have lwf: "loop_wf s" using wf by (simp add: net_wf_def)
  have lt: "loop_wf (put_chan ?d ch s)" using lwf fr(2) new(5-7) by (rule put_new_chan_wf)
  have old: "conn_wf ?t te" "tc_channel te \<noteq> ?d" if te: "conns s e = Some te" for e te
  proof -
    from wf te obtain x where x: "chans s (tc_channel te) = Some x" "ch_fd x = tc_socket te" "fd_free s x"
      "write_inv te x" "buf_wf (inputBuffer te)" "buf_wf (outputBuffer te)"
      by (rule net_wfD)
    then show ne: "tc_channel te \<noteq> ?d" using fr(2) by auto
    from x ne show "conn_wf ?t te" by (simp add: conn_wf_def put_chan_def put_conn_def fd_free_def)
  qed
  have "conn_wf ?t tc"
    using new fr(3) by (simp add: conn_wf_def put_chan_def put_conn_def fd_free_def write_inv_def)
  moreover have "loop_wf ?t" using lt by simp
  moreover have "tc_channel a \<noteq> tc_channel b \<and> tc_socket a \<noteq> tc_socket b"
    if "conns ?t e = Some a" "conns ?t f = Some b" "e \<noteq> f" for e f a b
  proof -
    have sep: "tc_channel te \<noteq> ?d \<and> tc_socket te \<noteq> tc_socket tc" if "conns s e = Some te" for e te
      using old(2) [OF that] fr(4) [OF that] by simp
    consider "e = c" | "f = c" | "e \<noteq> c" "f \<noteq> c" by blast
    then show ?thesis
    proof cases
      case 1
      then show ?thesis using that sep [of f b] by auto
    next
      case 2
      then show ?thesis using that sep [of e a] by auto
    next
      case 3
      then have "conns s e = Some a" "conns s f = Some b" using that(1,2) by simp_all
      with wf that(3) show ?thesis unfolding net_wf_def by blast
    qed
  qed
  moreover have "conn_wf ?t te" if "conns ?t e = Some te" for e te
    using that old(1) [of e te] \<open>conn_wf ?t tc\<close> by (cases "e = c") auto
  ultimately show ?thesis unfolding net_wf_def by blast
qed

lemma TcpConnection_init_pair:
  assumes "TcpConnection_init lid c d name sockfd la pa = Inr (tc, ch)"
  shows "new_pair lid tc ch" and "tc_channel tc = d" and "tc_socket tc = sockfd" and "tc_name tc = name"
  by (rule TcpConnection_init_ok [of lid c d name sockfd la pa], use assms in \<open>simp add: new_pair_def\<close>)+

lemma new_conn_wf:
  assumes wf: "net_wf s" and fresh: "fresh_conn c d sockfd s"
    and init: "TcpConnection_init (loop_id s) c d name sockfd la pa = Inr (tc, ch)"
    and tc': "tc_channel tc' = tc_channel tc" "tc_socket tc' = tc_socket tc" "tc_state tc' = tc_state tc"
      "inputBuffer tc' = inputBuffer tc" "outputBuffer tc' = outputBuffer tc"
  shows "net_wf (put_conn c tc' (put_chan d ch s))"
  using new_pair_wf [OF wf, of c tc' ch] TcpConnection_init_pair [OF init] fresh tc' by (simp add: new_pair_def)

lemma new_conn_life:
  assumes life: "net_life s" and wf: "net_wf u" and u: "conns u = (conns s)(c \<mapsto> tc)" "conn_log u = conn_log s"
    and c: "callbacks s c = []" "tc_state tc = kConnecting"
  shows "net_life u"
  unfolding net_life_def
proof (intro conjI allI impI wf)
  fix e te assume "conns u e = Some te"
  then show "callbacks u e = seen (tc_state te)"
    using u c net_lifeD(2) [OF life, of e te] by (cases "e = c") (simp_all add: callbacks_def seen_def)
qed

lemma loop_wf_transfer:
  assumes "chans t = chans s" "channels t = channels s" "epoll_log t = epoll_log s" "loop_id t = loop_id s"
  shows "loop_wf t = loop_wf s"
  using assms poller_wf_cong [of t s] by (simp add: loop_wf_def)

lemma dtor_life:
  assumes life: "net_life s" and run: "TcpConnection_dtor (threadId s) c s = Inr t"
  shows "net_life t" and "conns t = (conns s)(c := None)" and "home t = home s"
proof -
  note wf = net_lifeD(1) [OF life]
  obtain tc where tc: "conns s c = Some tc" using run by (auto simp: TcpConnection_dtor_def result_simps)
  from wf tc obtain ch where ch: "chans s (tc_channel tc) = Some ch" and lwf: "loop_wf s" by (rule net_wfD)
  let ?d = "s\<lparr>chans := (chans s)(tc_channel tc := None)\<rparr>"
  have out: "channels s (ch_fd ch) \<noteq> Some (tc_channel tc)"
    and t: "t = ?d\<lparr>conns := (conns s)(c := None), sys := Socket_dtor (tc_socket tc) (sys s)\<rparr>"
    using run tc ch by (auto simp: TcpConnection_dtor_def Channel_dtor_def isInLoopThread_def EventLoop_hasChannel_def
        hasChannel_def result_simps split: if_splits)
  have "loop_wf t"
    using loop_wf_drop_chan [OF lwf ch out] loop_wf_transfer [of t ?d] by (simp add: t)
  moreover have "conn_wf t te" if "conns s e = Some te" "e \<noteq> c" for e te
  proof -
    have "tc_channel te \<noteq> tc_channel tc" using wf that tc unfolding net_wf_def by blast
    moreover have "conn_wf s te" using wf that unfolding net_wf_def by blast
    ultimately show ?thesis by (simp add: conn_wf_def t fd_free_def)
  qed
  ultimately have "net_wf t" using wf unfolding net_wf_def by (simp add: t)
  then show "net_life t" using life by (auto simp: net_life_def callbacks_def t split: if_splits)
  show "conns t = (conns s)(c := None)" "home t = home s" by (simp_all add: t home_def owner_calls_def)
qed

section \<open>Connections that wait for their end\<close>

text \<open>
  A queued \<open>connectDestroyed\<close> belongs to an existing connection; and if this is a connection of the owner with the closing callback \<open>cb\<close>, it is
  closed and the owner has been told (is not in \<open>X\<close>). The owners keep this as a part of their invariants.
\<close>

definition queued_ok :: "close_cb \<Rightarrow> nat set \<Rightarrow> 'm net_scheme \<Rightarrow> bool" where
  "queued_ok cb X s \<longleftrightarrow> (\<forall>c. waiting s c \<longrightarrow>
     (\<exists>tc. conns s c = Some tc \<and> (tc_closeCallback tc = Some cb \<longrightarrow> tc_state tc = kDisconnected \<and> c \<notin> X)))"

lemma queued_sameI:
  "queued_ok cb X s \<Longrightarrow> conns t = conns s \<Longrightarrow> waiting t = waiting s \<Longrightarrow> queued_ok cb X t"
  by (simp add: queued_ok_def)

lemma queued_frame:
  assumes q: "queued_ok cb X s" and fr: "api_frame s t"
  shows "queued_ok cb X t"
  unfolding queued_ok_def
proof (intro allI impI)
  fix c assume "waiting t c"
  then have "waiting s c" using waiting_home [OF api_frameD(3) [OF fr]] by simp
  then obtain tc where tc: "conns s c = Some tc" "tc_closeCallback tc = Some cb \<longrightarrow> tc_state tc = kDisconnected \<and> c \<notin> X"
    using q by (auto simp: queued_ok_def)
  moreover obtain td where "conns t c = Some td" "conn_frame tc td" using api_frameD(4) [OF fr tc(1)] by blast
  ultimately show "\<exists>tc. conns t c = Some tc \<and> (tc_closeCallback tc = Some cb \<longrightarrow> tc_state tc = kDisconnected \<and> c \<notin> X)"
    by (auto simp: conn_frame_def)
qed

lemma queued_transition:
  assumes "queued_ok cb {} s" and "conns s c = Some tc" and "tc_state tc \<noteq> kDisconnected"
    and "conns u = (conns s)(c \<mapsto> setState st tc)" and "home u = home s" and "X \<subseteq> {c}"
  shows "queued_ok cb X u"
  using assms waiting_home [OF assms(5)] by (auto simp: queued_ok_def setState_def)

lemma queued_told:
  assumes "queued_ok cb {c} s" and "conns s c = Some tc" and "tc_state tc = kDisconnected"
  shows "queued_ok cb {} (queueInLoop tid (Some (Fn_connectDestroyed c)) s)"
  using assms by (auto simp: queued_ok_def)

lemma queued_weaken: "queued_ok cb X s \<Longrightarrow> queued_ok cb {} s"
  by (auto simp: queued_ok_def)

lemma queued_new:
  assumes "queued_ok cb X s" and "conns s c = None" and "conns u = (conns s)(c \<mapsto> tc)" and "waiting u = waiting s"
  shows "queued_ok cb X u"
  using assms by (fastforce simp: queued_ok_def)

lemma queued_dtor:
  assumes "queued_ok cb X s" and "\<not> waiting s c" and "conns u = (conns s)(c := None)" and "home u = home s"
  shows "queued_ok cb X u"
  using assms waiting_home [OF assms(4)] by (auto simp: queued_ok_def)

text \<open>The head of the queue is taken.\<close>

lemma queued_pop:
  assumes "queued_ok cb X s" and "pendingFunctors s = f # fs"
  shows "queued_ok cb X (s\<lparr>pendingFunctors := fs\<rparr>)"
    and "f = Some (Fn_connectDestroyed c) \<Longrightarrow> conns s c = Some tc \<Longrightarrow> tc_closeCallback tc = Some cb \<Longrightarrow> tc_state tc = kDisconnected \<and> c \<notin> X"
  using assms by (auto simp: queued_ok_def waiting_def)

lemma net_life_pop [simp]: "net_life (s\<lparr>pendingFunctors := fs\<rparr>) = net_life s"
proof -
  have "net_wf (s\<lparr>pendingFunctors := fs\<rparr>) = net_wf s" by (rule net_wf_cong) simp_all
  then show ?thesis by (simp add: net_life_def callbacks_def)
qed

section \<open>Witnesses\<close>

text \<open>
  A loop with one established connection (number 9, descriptor 8, channel 2) and given output
  buffer; a kernel that takes up to two bytes at a time and delivers one byte.
\<close>

definition empty_buffer :: Buffer where
  "empty_buffer = \<lparr>buffer = [0, 0, 0, 0, 0, 0, 0, 0, 0, 0, 0, 0], readerIndex = 8, writerIndex = 8\<rparr>"

definition sample_conn :: "Buffer \<Rightarrow> TcpConnection" where
  "sample_conn out = \<lparr>tc_name = ''c'', tc_state = kConnected, reading = True, tc_socket = 8, tc_channel = 2,
     localAddr = zero_addr, peerAddr = zero_addr, connectionCallback = Some defaultConnectionCallback,
     messageCallback = Some (User_message 0), writeCompleteCallback = None, highWaterMarkCallback = Some 5,
     tc_closeCallback = Some (TcpServer_removeConnection 0), highWaterMark = 4, inputBuffer = empty_buffer,
     outputBuffer = out\<rparr>"

definition sample_chan :: channel where
  "sample_chan = (Channel_ctor 7 8)\<lparr>readCallback := Some (TcpConnection_handleRead 9)\<rparr>"

definition sample_base :: "Buffer \<Rightarrow> net" where
  "sample_base out = put_chan 2 sample_chan (tloop.extend sample_timers
     \<lparr>conns = [9 \<mapsto> sample_conn out], sys = [], caller_mem = [0 \<mapsto> [65, 66]], conn_log = [(9, True)]\<rparr>)"

definition sample_net :: "Buffer \<Rightarrow> net" where
  "sample_net out = after_update 2 sample_chan
     (if contents out = [] then kReadEvent else kReadEvent OR kWriteEvent) (sample_base out)"

definition sample_os :: os where
  "sample_os = \<lparr>os_write = (\<lambda>tr fd data. Inr (min 2 (length data))), os_readv = (\<lambda>tr. one_byte_readv)\<rparr>"

definition no_close :: "close_cb \<Rightarrow> nat \<Rightarrow> net \<Rightarrow> net result" where
  "no_close cb c s = Inr s"

lemma empty_buffer_ok: "buf_wf empty_buffer" "contents empty_buffer = []"
  by (simp_all add: empty_buffer_def buf_wf_def contents_def readableBytes_def)

lemma sample_os_ok: "os_documented sample_os"
  by (auto simp: os_documented_def sample_os_def one_byte_readv_documented min_def)

lemma no_close_life: "keeps_life no_close"
  by (simp add: keeps_life_def no_close_def)

lemma sample_base_fields:
  "chans (sample_base out) = (chans sample_loop)(2 \<mapsto> sample_chan)" "channels (sample_base out) = channels sample_loop"
  "epoll_log (sample_base out) = epoll_log sample_loop" "loop_id (sample_base out) = loop_id sample_loop"
  "conns (sample_base out) = [9 \<mapsto> sample_conn out]" "sys (sample_base out) = []" "threadId (sample_base out) = 3"
  "conn_log (sample_base out) = [(9, True)]" "caller_mem (sample_base out) = [0 \<mapsto> [65, 66]]"
  by (simp_all add: sample_base_def put_chan_def tloop.defs sample_timers_def loop.defs sample_loop_eq)

lemma sample_net_wf:
  assumes "buf_wf out"
  shows "net_wf (sample_net out)"
proof -
  let ?ev = "if contents out = [] then kReadEvent else kReadEvent OR kWriteEvent"
  have free: "fd_free (sample_base out) sample_chan"
    by (simp add: fd_free_def sample_base_fields sample_chan_def Channel_ctor_def sample_loop_eq)
  have "loop_wf (put_chan 2 sample_chan sample_loop)"
    by (rule put_new_chan_wf [OF sample_loop_wf])
      (simp_all add: sample_loop_eq sample_chan_def Channel_ctor_def kNew_def isNoneEvent_def kNoneEvent_def)
  then have "loop_wf (sample_base out)"
    using loop_wf_transfer [of "sample_base out" "put_chan 2 sample_chan sample_loop"]
    by (simp add: sample_base_fields put_chan_def)
  then have lwf: "loop_wf (sample_net out)"
    unfolding sample_net_def by (rule after_update_loop_wf) (simp_all add: sample_base_fields free)
  have "bit (kReadEvent OR kWriteEvent) 2" "\<not> bit kReadEvent 2" by (simp_all add: bit_kReadEvent)
  then have "conn_wf (sample_net out) (sample_conn out)"
    using assms empty_buffer_ok(1)
    by (auto simp: conn_wf_def sample_net_def sample_conn_def fd_free_def next_index_def write_inv_def isWriting_bit
        sample_chan_def Channel_ctor_def)
  with lwf show ?thesis by (auto simp: net_wf_def sample_net_def sample_base_fields split: if_splits)
qed

lemma sample_net_fields:
  "conns (sample_net out) = [9 \<mapsto> sample_conn out]" "threadId (sample_net out) = 3" "caller_mem (sample_net out) = [0 \<mapsto> [65, 66]]"
  "sys (sample_net out) = []" "callbacks (sample_net out) c = (if c = 9 then [True] else [])"
  by (simp_all add: sample_net_def sample_base_fields callbacks_def)

lemma sample_net_life: "buf_wf out \<Longrightarrow> net_life (sample_net out)"
  using sample_net_wf [of out] by (simp add: net_life_def sample_net_fields sample_conn_def seen_def)

lemma sample_conn_fields:
  "tc_state (sample_conn out) = kConnected" "outputBuffer (sample_conn out) = out" "reading (sample_conn out)"
  "inputBuffer (sample_conn out) = empty_buffer" "messageCallback (sample_conn out) = Some (User_message 0)"
  "highWaterMarkCallback (sample_conn out) = Some 5" "tc_socket (sample_conn out) = 8" "highWaterMark (sample_conn out) = 4"
  by (simp_all add: sample_conn_def)

theorem connection_life_cycle_witness:
  "net_life (sample_net empty_buffer) \<and> os_documented sample_os \<and> keeps_life no_close \<and>
   (\<exists>t tc. rfold (conn_event sample_os pingpong_server no_close)
        [Ev_api 3 (Api_shutdown 9), Ev_callback (TcpConnection_handleClose 9)] (sample_net empty_buffer) = Inr t \<and>
      conns t 9 = Some tc \<and> tc_state tc = kDisconnected \<and> callbacks t 9 = [True, False])"
proof -
  let ?evs = "[Ev_api 3 (Api_shutdown 9), Ev_callback (TcpConnection_handleClose 9)]"
  have "case rfold (conn_event sample_os pingpong_server no_close) ?evs (sample_net empty_buffer) of
      Inl e \<Rightarrow> False | Inr t \<Rightarrow> map_option tc_state (conns t 9) = Some kDisconnected"
    by code_simp
  then obtain t tc where t: "rfold (conn_event sample_os pingpong_server no_close) ?evs (sample_net empty_buffer) = Inr t"
    "conns t 9 = Some tc" "tc_state tc = kDisconnected"
    by (auto split: sum.splits)
  have "list_all event_ok ?evs" by simp
  from connection_life_cycle [OF sample_net_life [OF empty_buffer_ok(1)] sample_os_ok no_close_life this t(1,2)] t
  show ?thesis using sample_net_life [OF empty_buffer_ok(1)] sample_os_ok no_close_life by auto
qed

theorem connection_state_monotone_witness:
  "net_wf (sample_net empty_buffer) \<and> os_documented sample_os \<and> keeps_conns no_close \<and>
   (\<exists>t tc. rfold (conn_event sample_os pingpong_server no_close) [Ev_api 3 (Api_shutdown 9)] (sample_net empty_buffer) = Inr t \<and>
      conns t 9 = Some tc \<and> tc_name tc = ''c'' \<and> kConnected \<le> tc_state tc)"
proof -
  let ?evs = "[Ev_api 3 (Api_shutdown 9)]"
  have "\<not> isl (rfold (conn_event sample_os pingpong_server no_close) ?evs (sample_net empty_buffer))" by code_simp
  then obtain t where t: "rfold (conn_event sample_os pingpong_server no_close) ?evs (sample_net empty_buffer) = Inr t"
    by (metis sum.collapse(2))
  have wf: "net_wf (sample_net empty_buffer)" using sample_net_life [OF empty_buffer_ok(1)] by (rule net_lifeD)
  have keep: "keeps_conns no_close" by (simp add: keeps_conns_def no_close_def)
  have ev: "list_all event_ok ?evs" by simp
  have c: "conns (sample_net empty_buffer) 9 = Some (sample_conn empty_buffer)"
    by (simp add: sample_net_def sample_base_def tloop.defs)
  from connection_state_monotone [OF wf sample_os_ok keep ev t c] t show ?thesis
    using wf keep sample_os_ok by (auto simp: sample_conn_def)
qed

theorem writing_iff_pending_witness:
  "net_life (sample_net empty_buffer) \<and> os_documented sample_os \<and> keeps_life no_close \<and>
   (\<exists>t tc ch. rfold (conn_event sample_os pingpong_server no_close) [Ev_functor (Fn_sendInLoop 9 [1, 2, 3])]
        (sample_net empty_buffer) = Inr t \<and> conns t 9 = Some tc \<and> tc_state tc = kConnected \<and>
      contents (outputBuffer tc) = [3] \<and> chans t (tc_channel tc) = Some ch \<and> isWriting ch)"
proof -
  let ?evs = "[Ev_functor (Fn_sendInLoop 9 [1, 2, 3])]"
  have "case rfold (conn_event sample_os pingpong_server no_close) ?evs (sample_net empty_buffer) of
      Inl e \<Rightarrow> False | Inr t \<Rightarrow> map_option (\<lambda>tc. (tc_state tc, contents (outputBuffer tc))) (conns t 9) = Some (kConnected, [3])"
    by code_simp
  then obtain t tc where t: "rfold (conn_event sample_os pingpong_server no_close) ?evs (sample_net empty_buffer) = Inr t"
    "conns t 9 = Some tc" "tc_state tc = kConnected" "contents (outputBuffer tc) = [3]"
    by (auto split: sum.splits)
  have "list_all event_ok ?evs" "tc_state tc \<noteq> kDisconnected" using t by simp_all
  from writing_iff_pending [OF sample_net_life [OF empty_buffer_ok(1)] sample_os_ok no_close_life this(1) t(1,2) this(2)] t
  show ?thesis using sample_net_life [OF empty_buffer_ok(1)] sample_os_ok no_close_life by auto
qed

theorem output_stream_witness:
  "net_wf (sample_net empty_buffer) \<and> os_documented sample_os \<and>
   (\<exists>t. rfold (out_step sample_os 9) [Out_send [1, 2, 3], Out_send [4], Out_writable] (sample_net empty_buffer) = Inr t \<and>
      outgoing t 9 = [1, 2, 3, 4])"
proof -
  let ?ops = "[Out_send [1, 2, 3], Out_send [4], Out_writable]"
  have "\<not> isl (rfold (out_step sample_os 9) ?ops (sample_net empty_buffer))"
    by code_simp
  then obtain t where t: "rfold (out_step sample_os 9) ?ops (sample_net empty_buffer) = Inr t"
    by (metis sum.collapse(2))
  have pre: "conns (sample_net empty_buffer) 9 = Some (sample_conn empty_buffer)"
    "tc_state (sample_conn empty_buffer) \<noteq> kDisconnected" "list_all (\<lambda>op. length (out_data op) < 2 ^ 63) ?ops"
    by (simp_all add: sample_net_fields sample_conn_fields)
  have "outgoing (sample_net empty_buffer) 9 = []"
    by (simp add: outgoing_def sample_net_fields sample_conn_fields empty_buffer_ok)
  moreover have "sent_alive sample_os 9 (tc_socket (sample_conn empty_buffer)) ?ops (sample_net empty_buffer) = [1, 2, 3, 4]"
    by code_simp
  ultimately show ?thesis
    using output_stream [OF sample_net_wf [OF empty_buffer_ok(1)] sample_os_ok pre t] t sample_net_wf [OF empty_buffer_ok(1)] sample_os_ok
    by auto
qed

theorem shutdown_graceful_witness:
  "net_wf (sample_net sample_buffer) \<and> os_documented sample_os \<and> isInLoopThread 3 (sample_net sample_buffer) \<and>
   (\<exists>s1. shutdown 3 9 (sample_net sample_buffer) = Inr s1 \<and> sys s1 = [])"
proof -
  have pre: "conns (sample_net sample_buffer) 9 = Some (sample_conn sample_buffer)"
    "tc_state (sample_conn sample_buffer) = kConnected" "isInLoopThread 3 (sample_net sample_buffer)"
    by (simp_all add: sample_net_fields sample_conn_fields isInLoopThread_def)
  from shutdown_graceful [OF sample_net_wf [OF sample_buffer_wf] sample_os_ok pre] pre(3)
  show ?thesis using sample_net_wf [OF sample_buffer_wf] sample_os_ok
    by (auto simp: sample_net_fields sample_conn_fields sample_buffer_contents)
qed

theorem high_water_mark_crossing_witness:
  "net_wf (sample_net empty_buffer) \<and> os_documented sample_os \<and>
   (\<exists>t. sendInLoop sample_os 9 [1, 2, 3, 4, 5, 6] (sample_net empty_buffer) = Inr t \<and>
      pendingFunctors t = [Some (Fn_highWaterMark 5 9 4)])"
proof -
  let ?data = "[1, 2, 3, 4, 5, 6] :: byte list"
  have "case sendInLoop sample_os 9 ?data (sample_net empty_buffer) of
      Inl e \<Rightarrow> False | Inr t \<Rightarrow> map_option (\<lambda>tc. length (contents (outputBuffer tc))) (conns t 9) = Some 4" by code_simp
  then obtain t tc where t: "sendInLoop sample_os 9 ?data (sample_net empty_buffer) = Inr t"
    "conns t 9 = Some tc" "length (contents (outputBuffer tc)) = 4"
    by (auto split: sum.splits)
  have pre: "conns (sample_net empty_buffer) 9 = Some (sample_conn empty_buffer)"
    "tc_state (sample_conn empty_buffer) \<noteq> kDisconnected"
    "length (contents (outputBuffer (sample_conn empty_buffer))) + length ?data < 2 ^ 62"
    "highWaterMarkCallback (sample_conn empty_buffer) = Some 5"
    by (simp_all add: sample_net_fields sample_conn_fields empty_buffer_ok)
  have "pendingFunctors (sample_net empty_buffer) = []"
    by (simp add: sample_net_def sample_base_def put_chan_def tloop.defs sample_timers_def loop.defs sample_loop_eq)
  with high_water_mark_crossing [OF sample_net_wf [OF empty_buffer_ok(1)] sample_os_ok pre t(1)] t
  show ?thesis using sample_net_wf [OF empty_buffer_ok(1)] sample_os_ok
    by (simp add: sample_conn_fields empty_buffer_ok)
qed

theorem stopRead_reports_reading_witness:
  "net_wf (sample_net empty_buffer) \<and> reading (sample_conn empty_buffer) \<and>
   (\<exists>t tc' ch. stopReadInLoop 9 (sample_net empty_buffer) = Inr t \<and> conns t 9 = Some tc' \<and>
      chans t (tc_channel tc') = Some ch \<and> reading tc' \<and> \<not> isReading ch)"
  using stopRead_reports_reading [OF sample_net_wf [OF empty_buffer_ok(1)], of 9 "sample_conn empty_buffer"]
    sample_net_wf [OF empty_buffer_ok(1)]
  by (simp add: sample_net_fields sample_conn_fields)

theorem cross_thread_send_dangling_witness:
  "\<not> isInLoopThread 5 (sample_net empty_buffer) \<and>
   (\<exists>s1. send_string sample_os 5 9 0 (sample_net empty_buffer) = Inr s1 \<and>
      conn_functor sample_os pingpong_server no_close (Fn_sendInLoop_ptr 9 0 2) (s1\<lparr>caller_mem := (caller_mem s1)(0 := None)\<rparr>)
        = Inl Bad_pointer)"
  using cross_thread_send_dangling [of "sample_net empty_buffer" 9 "sample_conn empty_buffer" 5 0 "[65, 66]" sample_os
      pingpong_server no_close "[]"]
  by (auto simp: sample_net_fields sample_conn_fields isInLoopThread_def
      simp flip: numeral_2_eq_2)

theorem pingpong_echoes_witness:
  "net_wf (sample_net empty_buffer) \<and> os_documented sample_os \<and>
   (\<exists>t. handleRead sample_os pingpong_server no_close 9 (sample_net empty_buffer) = Inr t \<and> outgoing t 9 = [69])"
proof -
  let ?s1 = "(sample_net empty_buffer)\<lparr>sys := sys (sample_net empty_buffer) @ [Sys_readv (tc_socket (sample_conn empty_buffer)) (Inr [69])]\<rparr>"
  have "case handleRead sample_os pingpong_server no_close 9 (sample_net empty_buffer) of
      Inl e \<Rightarrow> False | Inr t \<Rightarrow> \<not> dead_write (tc_socket (sample_conn empty_buffer)) [69] ?s1 t" by code_simp
  then obtain t where t: "handleRead sample_os pingpong_server no_close 9 (sample_net empty_buffer) = Inr t"
    and alive: "\<not> dead_write (tc_socket (sample_conn empty_buffer)) [69] ?s1 t"
    by (auto split: sum.splits)
  have pre: "conns (sample_net empty_buffer) 9 = Some (sample_conn empty_buffer)"
    "tc_state (sample_conn empty_buffer) = kConnected" "messageCallback (sample_conn empty_buffer) = Some (User_message 0)"
    "os_readv sample_os (sys (sample_net empty_buffer)) (tc_socket (sample_conn empty_buffer))
       (readFd_iov (inputBuffer (sample_conn empty_buffer))) = Inr [69]"
    "[69] = contents (inputBuffer (sample_conn empty_buffer)) @ [69]"
    by (auto simp: sample_net_fields sample_conn_fields empty_buffer_ok sample_os_def one_byte_readv_def readFd_iov_def)
  have "outgoing (sample_net empty_buffer) 9 = []"
    by (simp add: outgoing_def sample_net_fields sample_conn_fields empty_buffer_ok)
  with pingpong_echoes [OF sample_net_wf [OF empty_buffer_ok(1)] sample_os_ok pre(1-4) _ pre(5) _ t] t alive
  show ?thesis using sample_net_wf [OF empty_buffer_ok(1)] sample_os_ok by auto
qed

end
