(* ===== verification/Siren_Acceptor.thy ===== *)
theory Siren_Acceptor
  imports Siren_Connection
begin

text \<open>
  The acceptor: \<open>include/siren/net/Acceptor.h\<close> and \<open>src/net/Acceptor.cpp\<close>.

  \<open>anet\<close> adds the acceptors of a loop. The answers of \<open>socket\<close>, \<open>open\<close> and \<open>accept\<close> are arguments; negative
  descriptors and \<open>Inl\<close> are failures. The callback for new connections, which a server installs, is the parameter
  \<open>new_conn\<close>, applied to the address bound in the callback. Descriptors are accounted for on the trace of system calls.
\<close>

section \<open>Data\<close>

record Acceptor =
  acceptSocket :: fd
  acceptChannel :: chan
  acceptorCallback :: "nat option"
  listening :: bool
  idleFd :: fd

record anet = net +
  acceptors :: "nat \<rightharpoonup> Acceptor"

definition with_acceptor :: "nat \<Rightarrow> 'm anet_scheme \<Rightarrow> (Acceptor \<Rightarrow> 'a result) \<Rightarrow> 'a result" where
  "with_acceptor k s f = (case acceptors s k of None \<Rightarrow> Inl Bad_pointer | Some a \<Rightarrow> f a)"

definition put_acceptor :: "nat \<Rightarrow> Acceptor \<Rightarrow> 'm anet_scheme \<Rightarrow> 'm anet_scheme" where
  "put_acceptor k a s = s\<lparr>acceptors := (acceptors s)(k \<mapsto> a)\<rparr>"

section \<open>Operations\<close>

definition Acceptor_ctor :: "nat \<Rightarrow> chan \<Rightarrow> fd \<Rightarrow> fd \<Rightarrow> InetAddress \<Rightarrow> bool \<Rightarrow> 'm anet_scheme \<Rightarrow> 'm anet_scheme result" where
  "Acceptor_ctor k d sock_answer idle listenAddr reuseport s =
     (case sockets_createNonblockingOrDie sock_answer (sin_family listenAddr) (sys s) of (sockfd, tr) \<Rightarrow>
        if idle < 0 then Inl (Assert_failed ''idleFd_ >= 0'')
        else
          let tr1 = Socket_setReuseAddr sockfd True (tr @ [Sys_open_null idle]);
              tr2 = Socket_bindAddress sockfd listenAddr (Socket_setReusePort sockfd reuseport tr1);
              ch = setReadCallback (Some (Acceptor_handleRead k)) (Channel_ctor (loop_id s) sockfd)
          in Inr (put_acceptor k \<lparr>acceptSocket = sockfd, acceptChannel = d, acceptorCallback = None,
                                   listening = False, idleFd = idle\<rparr>
                   (put_chan d ch (s\<lparr>sys := tr2\<rparr>))))"

definition Acceptor_setNewConnectionCallback :: "nat option \<Rightarrow> Acceptor \<Rightarrow> Acceptor" where
  "Acceptor_setNewConnectionCallback cb a = a\<lparr>acceptorCallback := cb\<rparr>"

text \<open>The destructor: its body, then the destruction of \<open>acceptChannel_\<close> and of \<open>acceptSocket_\<close>.\<close>

definition Acceptor_dtor :: "nat \<Rightarrow> nat \<Rightarrow> 'm anet_scheme \<Rightarrow> 'm anet_scheme result" where
  "Acceptor_dtor tid k s =
     with_acceptor k s (\<lambda>a.
       rbind (disableAll (acceptChannel a) s) (\<lambda>s1.
       rbind (Channel_remove (acceptChannel a) s1) (\<lambda>s2.
       rbind (Channel_dtor tid (acceptChannel a) (s2\<lparr>sys := sys s2 @ [Sys_close (idleFd a)]\<rparr>)) (\<lambda>s3.
         Inr (s3\<lparr>sys := Socket_dtor (acceptSocket a) (sys s3), acceptors := (acceptors s3)(k := None)\<rparr>)))))"

definition Acceptor_listen :: "nat \<Rightarrow> 'm anet_scheme \<Rightarrow> 'm anet_scheme result" where
  "Acceptor_listen k s =
     with_acceptor k s (\<lambda>a.
       enableReading (acceptChannel a)
         (put_acceptor k (a\<lparr>listening := True\<rparr>) (s\<lparr>sys := Socket_listen (acceptSocket a) (sys s)\<rparr>)))"

text \<open>
  \<open>errno\<close> where \<open>handleRead\<close> tests it: \<open>sockets::accept\<close> restores it for the expected errors, otherwise it is what the logger left; then
  \<open>LOG_ERROR\<close> of \<open>handleRead\<close> itself may leave another value, \<open>relogged\<close> of the one before.
\<close>

definition errno_after_accept :: "errno \<Rightarrow> (errno \<Rightarrow> errno) \<Rightarrow> errno \<Rightarrow> errno" where
  "errno_after_accept logged relogged e = relogged (if accept_classify e = Expected_error then e else logged)"

text \<open>What \<open>handleRead\<close> asks the kernel: \<open>accept4\<close>, and after \<open>EMFILE\<close> the bare \<open>accept\<close> and \<open>open\<close>.\<close>

record accept_answers =
  an_accept :: "errno + fd \<times> InetAddress"
  an_logged :: errno
  an_relogged :: "errno \<Rightarrow> errno"
  an_retry :: "errno + fd"
  an_null :: fd

definition retry_fd :: "errno + fd \<Rightarrow> fd" where
  "retry_fd ans = (case ans of Inl e \<Rightarrow> - 1 | Inr fd \<Rightarrow> fd)"

definition Acceptor_handleRead_op :: "(nat \<Rightarrow> fd \<Rightarrow> InetAddress \<Rightarrow> 'm anet_scheme \<Rightarrow> 'm anet_scheme result) \<Rightarrow>
    InetAddress \<Rightarrow> accept_answers \<Rightarrow> nat \<Rightarrow> 'm anet_scheme \<Rightarrow> 'm anet_scheme result" where
  "Acceptor_handleRead_op new_conn old q k s =
     with_acceptor k s (\<lambda>a.
       case Socket_accept (an_accept q) (InetAddress_ctor old 0 False False) of (connfd, err, peer) \<Rightarrow>
         let s1 = s\<lparr>sys := sys s @ [Sys_accept (acceptSocket a) (map_sum id fst (an_accept q))]\<rparr> in
         if 0 \<le> connfd
         then (case acceptorCallback a of
                 Some cb \<Rightarrow> new_conn cb connfd peer s1
               | None \<Rightarrow> Inr (s1\<lparr>sys := sockets_close connfd (sys s1)\<rparr>))
         else if (case an_accept q of Inl e \<Rightarrow> errno_after_accept (an_logged q) (an_relogged q) e = EMFILE | Inr _ \<Rightarrow> False)
         then Inr (put_acceptor k (a\<lparr>idleFd := an_null q\<rparr>)
                (s1\<lparr>sys := sys s1 @ [Sys_close (idleFd a), Sys_accept (acceptSocket a) (an_retry q),
                                      Sys_close (retry_fd (an_retry q)), Sys_open_null (an_null q)]\<rparr>))
         else Inr s1)"

section \<open>Open descriptors\<close>

text \<open>
  The descriptors that the trace leaves open: \<open>accept\<close> and \<open>open\<close> add one, \<open>close\<close> removes one.
\<close>

fun fd_effect :: "sys_call \<Rightarrow> fd set \<Rightarrow> fd set" where
  "fd_effect (Sys_accept l (Inr fd)) F = insert fd F"
| "fd_effect (Sys_open_null fd) F = (if 0 \<le> fd then insert fd F else F)"
| "fd_effect (Sys_close fd) F = F - {fd}"
| "fd_effect _ F = F"

definition fds_after :: "sys_trace \<Rightarrow> fd set \<Rightarrow> fd set" where
  "fds_after tr F = fold fd_effect tr F"

lemma fds_after_simps [simp]:
  "fds_after [] F = F" "fds_after (x # tr) F = fds_after tr (fd_effect x F)"
  "fds_after (tr @ tr') F = fds_after tr' (fds_after tr F)"
  by (simp_all add: fds_after_def)

lemma with_acceptor_simps [simp]:
  "acceptors s k = Some a \<Longrightarrow> with_acceptor k s f = f a"
  by (simp add: with_acceptor_def)

text \<open>Documented behaviour of the kernel: a new descriptor is not negative and was not open.\<close>

definition answers_documented :: "fd set \<Rightarrow> fd \<Rightarrow> accept_answers \<Rightarrow> bool" where
  "answers_documented F idle q \<longleftrightarrow>
     (\<forall>fd a. an_accept q = Inr (fd, a) \<longrightarrow> 0 \<le> fd \<and> fd \<notin> F) \<and>
     (\<forall>fd. an_retry q = Inr fd \<longrightarrow> 0 \<le> fd \<and> fd \<notin> F - {idle})"

section \<open>Property\<close>

text \<open>
  C28. The acceptor leaks no descriptor. One run of \<open>handleRead\<close> either hands the accepted descriptor, and nothing else, to the
  new-connection callback with no other descriptor changed; or leaves the set of open descriptors as it was; or, when
  the process is out of descriptors and \<open>errno\<close> still says so after the logging, gives up its reserve, accepts the waiting connection on it, closes that, and takes a new reserve: then the only
  change is that the old reserve is replaced by the new one.
\<close>

theorem handleRead_no_fd_leak:
  assumes "acceptors s k = Some a" and "answers_documented F (idleFd a) q" and "- 1 \<notin> F" and "0 \<le> idleFd a"
    and "fds_after (sys s) F0 = F"
  shows "(\<exists>fd peer u cb. an_accept q = Inr (fd, peer) \<and> acceptorCallback a = Some cb \<and> fds_after (sys u) F0 = insert fd F \<and>
       acceptors u = acceptors s \<and> Acceptor_handleRead_op new_conn old q k s = new_conn cb fd peer u) \<or>
    (\<exists>t. Acceptor_handleRead_op new_conn old q k s = Inr t \<and>
       (fds_after (sys t) F0 = F \<and> acceptors t = acceptors s \<or>
        (\<exists>e. an_accept q = Inl e \<and> errno_after_accept (an_logged q) (an_relogged q) e = EMFILE) \<and>
        acceptors t = (acceptors s)(k \<mapsto> a\<lparr>idleFd := an_null q\<rparr>) \<and>
        fds_after (sys t) F0 = F - {idleFd a} \<union> (if 0 \<le> an_null q then {an_null q} else {})))"
proof (cases "an_accept q")
  case (Inl e)
  have retry: "fd_effect (Sys_accept l (an_retry q)) G - {retry_fd (an_retry q)} = G" if "G = F - {idleFd a}" for l G
    using assms(2,3) that by (cases "an_retry q") (auto simp: retry_fd_def answers_documented_def)
  show ?thesis
    using assms(1,5) Inl retry [of "F - {idleFd a}" "acceptSocket a"]
    by (intro disjI2) (auto simp: Acceptor_handleRead_op_def Socket_accept_def put_acceptor_def Let_def)
next
  case (Inr p)
  obtain fd peer where p: "p = (fd, peer)" by (cases p)
  have fd: "0 \<le> fd" "fd \<notin> F" using assms(2) Inr p by (auto simp: answers_documented_def)
  show ?thesis
  proof (cases "acceptorCallback a")
    case None
    then show ?thesis using assms(1,5) Inr p fd
      by (intro disjI2) (simp add: Acceptor_handleRead_op_def Socket_accept_def Let_def)
  next
    case (Some cb)
    let ?u = "s\<lparr>sys := sys s @ [Sys_accept (acceptSocket a) (Inr fd)]\<rparr>"
    have "Acceptor_handleRead_op new_conn old q k s = new_conn cb fd peer ?u"
      using assms(1) Inr p fd Some by (simp add: Acceptor_handleRead_op_def Socket_accept_def Let_def)
    moreover have "fds_after (sys ?u) F0 = insert fd F" using assms(5) by simp
    ultimately show ?thesis using Some Inr p by (intro disjI1 exI [of _ fd] exI [of _ peer] exI [of _ ?u] exI [of _ cb]) simp
  qed
qed

section \<open>Witness\<close>

text \<open>A loop with its two own channels and no connection.\<close>

definition bare_net :: net where
  "bare_net = tloop.extend sample_timers \<lparr>conns = Map.empty, sys = [], caller_mem = Map.empty, conn_log = []\<rparr>"

definition sample_acceptor :: Acceptor where
  "sample_acceptor = \<lparr>acceptSocket = 6, acceptChannel = 2, acceptorCallback = Some 0, listening = True, idleFd = 7\<rparr>"

definition sample_anet :: anet where
  "sample_anet = net.extend bare_net \<lparr>acceptors = [0 \<mapsto> sample_acceptor]\<rparr>"

lemma sample_anet_fields: "acceptors sample_anet = [0 \<mapsto> sample_acceptor]" "sys sample_anet = []"
  by (simp_all add: sample_anet_def bare_net_def net.defs tloop.defs)

definition emfile_answers :: accept_answers where
  "emfile_answers = \<lparr>an_accept = Inl EMFILE, an_logged = 0, an_relogged = id, an_retry = Inr 7, an_null = 7\<rparr>"

theorem handleRead_no_fd_leak_witness:
  "answers_documented {0, 1, 2, 6, 7} 7 emfile_answers \<and>
   (\<exists>t. Acceptor_handleRead_op (\<lambda>cb fd peer s. Inr s) zero_addr emfile_answers 0 sample_anet = Inr t \<and>
      fds_after (sys t) {0, 1, 2, 6, 7} = {0, 1, 2, 6, 7})"
proof -
  have doc: "answers_documented {0, 1, 2, 6, 7} (idleFd sample_acceptor) emfile_answers"
    by (simp add: answers_documented_def emfile_answers_def sample_acceptor_def)
  have "{0, 1, 2, 6, 7} - {7} \<union> {7} = {0, 1, 2, 6, 7 :: fd}" by auto
  with handleRead_no_fd_leak [of sample_anet 0 sample_acceptor "{0, 1, 2, 6, 7}" emfile_answers "{0, 1, 2, 6, 7}"
      "\<lambda>cb fd peer s. Inr s" zero_addr] doc
  show ?thesis by (auto simp: sample_anet_fields emfile_answers_def sample_acceptor_def)
qed

end
