(* ===== verification/Siren_Threads.thy ===== *)
theory Siren_Threads
  imports Siren_Prelude
begin

text \<open>
  \<open>EventLoopThread\<close> and \<open>EventLoopThreadPool\<close> (\<open>src/net/EventLoopThread.cpp\<close>,
  \<open>src/net/EventLoopThreadPool.cpp\<close>).

  An \<open>EventLoopThread\<close> is shared by its owner, who calls the constructor, \<open>startLoop()\<close> and the destructor, and the
  worker that runs \<open>threadFunc()\<close>. The state has one program point for each. \<open>loop_ptr\<close> says whether \<open>loop_\<close> is set,
  \<open>quit_flag\<close> is \<open>quit_\<close> of the worker's loop; \<open>EventLoop::loop()\<close> first clears it and then runs until it is
  set (theory \<open>Siren_EventLoop\<close>): the step \<open>w_leave\<close>, possible once the flag is set, abstracts the return of \<open>loop()\<close>, which takes the end of the
  iteration it is in and the wake-up of theory \<open>Siren_Wakeup\<close>. The user of the loop may call its \<open>quit()\<close> while it is published.
  A pool is sequential: all its operations run in the thread of the base loop.
\<close>

section \<open>EventLoopThread\<close>

datatype worker_pc =
    W_None
  | W_Ctor
  | W_Publish
  | W_Enter
  | W_Loop
  | W_Clear
  | W_Done

datatype owner_pc =
    O_Idle
  | O_Test
  | O_Blocked
  | O_Started
  | O_Dtor
  | O_Quit
  | O_Join
  | O_Gone
  | O_Terminated
  | O_Dangling

record EventLoopThread =
  loop_ptr :: bool
  exiting :: bool
  joinable :: bool
  quit_flag :: bool
  worker :: worker_pc
  owner :: owner_pc

definition EventLoopThread_ctor :: EventLoopThread where
  "EventLoopThread_ctor =
     \<lparr>loop_ptr = False, exiting = False, joinable = False, quit_flag = False, worker = W_None, owner = O_Idle\<rparr>"

text \<open>\<open>startLoop()\<close>: the thread is created; then the owner tests \<open>loop_\<close> until it is set.\<close>

definition startLoop_begin :: "EventLoopThread \<Rightarrow> EventLoopThread result" where
  "startLoop_begin s =
     (if joinable s then Inl (Assert_failed ''!thread_.joinable()'')
      else Inr (s\<lparr>joinable := True, worker := W_Ctor, owner := O_Test\<rparr>))"

definition startLoop_test :: "EventLoopThread \<Rightarrow> EventLoopThread" where
  "startLoop_test s = s\<lparr>owner := if loop_ptr s then O_Started else O_Blocked\<rparr>"

text \<open>\<open>threadFunc()\<close>, one function per statement that touches shared state.\<close>

definition thread_ctor :: "EventLoopThread \<Rightarrow> EventLoopThread" where
  "thread_ctor s = s\<lparr>quit_flag := False, worker := W_Publish\<rparr>"

definition thread_publish :: "EventLoopThread \<Rightarrow> EventLoopThread" where
  "thread_publish s = s\<lparr>loop_ptr := True, worker := W_Enter, owner := if owner s = O_Blocked then O_Test else owner s\<rparr>"

definition thread_enter :: "EventLoopThread \<Rightarrow> EventLoopThread" where
  "thread_enter s = s\<lparr>quit_flag := False, worker := W_Loop\<rparr>"

definition thread_leave :: "EventLoopThread \<Rightarrow> EventLoopThread" where
  "thread_leave s = s\<lparr>worker := W_Clear\<rparr>"

definition thread_clear :: "EventLoopThread \<Rightarrow> EventLoopThread" where
  "thread_clear s = s\<lparr>loop_ptr := False, worker := W_Done\<rparr>"

text \<open>
  The destructor. When \<open>loop_\<close> is null the body ends and the members are destroyed: a
  \<open>std::thread\<close> that is still joinable then calls \<open>std::terminate\<close>. \<open>quit()\<close> on a loop that has been destroyed in the meantime
  is a use after free.
\<close>

definition dtor_begin :: "EventLoopThread \<Rightarrow> EventLoopThread" where
  "dtor_begin s = s\<lparr>exiting := True, owner := O_Dtor\<rparr>"

definition dtor_test :: "EventLoopThread \<Rightarrow> EventLoopThread" where
  "dtor_test s = s\<lparr>owner := if loop_ptr s then O_Quit else if joinable s then O_Terminated else O_Gone\<rparr>"

definition dtor_quit :: "EventLoopThread \<Rightarrow> EventLoopThread" where
  "dtor_quit s = (if worker s = W_Done then s\<lparr>owner := O_Dangling\<rparr> else s\<lparr>quit_flag := True, owner := O_Join\<rparr>)"

definition dtor_join :: "EventLoopThread \<Rightarrow> EventLoopThread" where
  "dtor_join s = s\<lparr>joinable := False, owner := O_Gone\<rparr>"

lemmas thread_defs = startLoop_begin_def startLoop_test_def thread_ctor_def thread_publish_def thread_enter_def
  thread_leave_def thread_clear_def dtor_begin_def dtor_test_def dtor_quit_def dtor_join_def

inductive elt_step :: "EventLoopThread \<Rightarrow> EventLoopThread \<Rightarrow> bool" where
  o_start: "owner s = O_Idle \<Longrightarrow> startLoop_begin s = Inr t \<Longrightarrow> elt_step s t"
| o_test: "owner s = O_Test \<Longrightarrow> elt_step s (startLoop_test s)"
| o_spurious: "owner s = O_Blocked \<Longrightarrow> elt_step s (s\<lparr>owner := O_Test\<rparr>)"
| o_dtor: "owner s = O_Idle \<or> owner s = O_Started \<Longrightarrow> elt_step s (dtor_begin s)"
| o_dtor_test: "owner s = O_Dtor \<Longrightarrow> elt_step s (dtor_test s)"
| o_dtor_quit: "owner s = O_Quit \<Longrightarrow> elt_step s (dtor_quit s)"
| o_dtor_join: "owner s = O_Join \<Longrightarrow> worker s = W_Done \<Longrightarrow> elt_step s (dtor_join s)"
| w_ctor: "worker s = W_Ctor \<Longrightarrow> elt_step s (thread_ctor s)"
| w_publish: "worker s = W_Publish \<Longrightarrow> elt_step s (thread_publish s)"
| w_enter: "worker s = W_Enter \<Longrightarrow> elt_step s (thread_enter s)"
| w_leave: "worker s = W_Loop \<Longrightarrow> quit_flag s \<Longrightarrow> elt_step s (thread_leave s)"
| w_clear: "worker s = W_Clear \<Longrightarrow> elt_step s (thread_clear s)"

inductive_cases elt_stepE: "elt_step s t"

text \<open>The same with a user who holds the pointer that \<open>startLoop()\<close> returned and may call \<open>quit()\<close> on it.\<close>

inductive elt_user_step :: "EventLoopThread \<Rightarrow> EventLoopThread \<Rightarrow> bool" where
  u_lib: "elt_step s t \<Longrightarrow> elt_user_step s t"
| u_quit: "owner s = O_Started \<Longrightarrow> worker s \<noteq> W_Done \<Longrightarrow> elt_user_step s (s\<lparr>quit_flag := True\<rparr>)"

definition loop_alive :: "worker_pc \<Rightarrow> bool" where
  "loop_alive p \<longleftrightarrow> p = W_Enter \<or> p = W_Loop \<or> p = W_Clear"

text \<open>
  The pointer is set exactly while the worker's loop object is published, the owner sleeps in \<open>startLoop()\<close> only
  before that, and the worker ends before the destructor only through the user.
\<close>

definition elt_inv :: "EventLoopThread \<Rightarrow> bool" where
  "elt_inv s \<longleftrightarrow> loop_ptr s = loop_alive (worker s) \<and>
     (joinable s \<longleftrightarrow> worker s \<noteq> W_None \<and> owner s \<noteq> O_Gone) \<and>
     (owner s = O_Idle \<longrightarrow> worker s = W_None) \<and>
     (owner s = O_Blocked \<longrightarrow> worker s = W_Ctor \<or> worker s = W_Publish) \<and>
     (owner s = O_Test \<longrightarrow> worker s \<noteq> W_None \<and> worker s \<noteq> W_Clear \<and> worker s \<noteq> W_Done \<and> \<not> (worker s = W_Loop \<and> quit_flag s)) \<and>
     (owner s = O_Started \<or> owner s = O_Quit \<or> owner s = O_Join \<longrightarrow>
        worker s = W_Done \<or> loop_alive (worker s))"

lemma elt_inv_step: "elt_step s t \<Longrightarrow> elt_inv s \<Longrightarrow> elt_inv t"
  by (erule elt_stepE; cases "worker s"; cases "owner s"; clarsimp simp: elt_inv_def loop_alive_def thread_defs split: if_splits)

lemma elt_inv_user_step:
  assumes "elt_user_step s t" and inv: "elt_inv s"
  shows "elt_inv t"
  using assms(1)
proof cases
  case u_lib
  then show ?thesis using inv by (rule elt_inv_step)
next
  case u_quit
  then show ?thesis using inv by (simp add: elt_inv_def)
qed

lemma elt_inv_ctor: "elt_inv EventLoopThread_ctor"
  by (simp add: elt_inv_def EventLoopThread_ctor_def loop_alive_def)

interpretation elt: inductive_invariant "\<lambda>s. s = EventLoopThread_ctor" elt_user_step elt_inv
  by unfold_locales (blast intro: elt_inv_ctor elt_inv_user_step)+

section \<open>Properties of EventLoopThread\<close>


definition published :: EventLoopThread where
  "published = \<lparr>loop_ptr = True, exiting = False, joinable = True, quit_flag = False, worker = W_Enter, owner = O_Started\<rparr>"

lemma published_reachable: "reachable_from (\<lambda>s. s = EventLoopThread_ctor) elt_step published"
proof -
  let ?s1 = "EventLoopThread_ctor\<lparr>joinable := True, worker := W_Ctor, owner := O_Test\<rparr>"
  have "elt_step EventLoopThread_ctor ?s1"
    by (rule o_start) (simp_all add: EventLoopThread_ctor_def startLoop_begin_def)
  with reach_init have "reachable_from (\<lambda>s. s = EventLoopThread_ctor) elt_step ?s1"
    by (metis (mono_tags, lifting) reach_step)
  moreover have "elt_step ?s1 (thread_ctor ?s1)" by (rule w_ctor) simp
  moreover have "elt_step (thread_ctor ?s1) (thread_publish (thread_ctor ?s1))"
    by (rule w_publish) (simp add: thread_ctor_def)
  moreover have "elt_step (thread_publish (thread_ctor ?s1)) (startLoop_test (thread_publish (thread_ctor ?s1)))"
    by (rule o_test) (simp add: thread_ctor_def thread_publish_def)
  moreover have "startLoop_test (thread_publish (thread_ctor ?s1)) = published"
    by (simp add: thread_defs published_def EventLoopThread_ctor_def)
  ultimately show ?thesis by (metis reach_step)
qed

lemma elt_step_user: "reachable_from I elt_step s \<Longrightarrow> reachable_from I elt_user_step s"
  by (induction rule: reachable_from.induct) (auto intro: reach_init reach_step u_lib)

text \<open>
  The destructor can hang forever. When it runs right after \<open>startLoop()\<close> returned, its \<open>quit()\<close> may come
  before the worker enters \<open>loop()\<close>, which clears \<open>quit_\<close>: then the owner waits in \<open>join()\<close> for a loop
  that nobody will end, and no thread can move.
\<close>

theorem dtor_may_hang:
  "\<exists>s. reachable_from (\<lambda>s. s = EventLoopThread_ctor) elt_step s \<and> owner s = O_Join \<and> worker s = W_Loop \<and>
     (\<nexists>t. elt_user_step s t)"
proof -
  let ?d = "dtor_quit (dtor_test (dtor_begin published))"
  have d: "?d = published\<lparr>exiting := True, quit_flag := True, owner := O_Join\<rparr>"
    by (simp add: thread_defs published_def)
  have "elt_step published (dtor_begin published)" by (rule o_dtor) (simp add: published_def)
  moreover have "elt_step (dtor_begin published) (dtor_test (dtor_begin published))"
    by (rule o_dtor_test) (simp add: dtor_begin_def)
  moreover have "elt_step (dtor_test (dtor_begin published)) ?d"
    by (rule o_dtor_quit) (simp add: published_def thread_defs)
  moreover have "elt_step ?d (thread_enter ?d)" unfolding d by (rule w_enter) (simp add: published_def)
  ultimately have "reachable_from (\<lambda>s. s = EventLoopThread_ctor) elt_step (thread_enter ?d)"
    using published_reachable by (metis reach_step)
  moreover have "owner (thread_enter ?d) = O_Join" "worker (thread_enter ?d) = W_Loop" "\<not> quit_flag (thread_enter ?d)"
    unfolding d by (simp_all add: thread_enter_def)
  moreover have "\<not> elt_user_step u t" if "owner u = O_Join" "worker u = W_Loop" "\<not> quit_flag u" for u t
    using that by (auto elim!: elt_user_step.cases elt_stepE)
  ultimately show ?thesis by blast
qed

text \<open>
  Destroying an \<open>EventLoopThread\<close> whose loop has already ended terminates the process: \<open>loop_\<close> is null again, so the destructor
  does not join, and the \<open>std::thread\<close> member is still joinable.
\<close>

theorem dtor_after_end_terminates:
  assumes "reachable_from (\<lambda>s. s = EventLoopThread_ctor) elt_user_step s" and "owner s = O_Started" and "worker s = W_Done"
  shows "elt_step s (dtor_begin s) \<and> elt_step (dtor_begin s) (dtor_test (dtor_begin s)) \<and>
    owner (dtor_test (dtor_begin s)) = O_Terminated"
proof (intro conjI)
  show "elt_step s (dtor_begin s)" using assms(2) by (simp add: o_dtor)
  show "elt_step (dtor_begin s) (dtor_test (dtor_begin s))" by (rule o_dtor_test) (simp add: dtor_begin_def)
  show "owner (dtor_test (dtor_begin s)) = O_Terminated"
    using elt.reachable_inv [OF assms(1)] assms(2,3)
    by (simp add: elt_inv_def loop_alive_def dtor_test_def dtor_begin_def)
qed

definition ended :: EventLoopThread where
  "ended = published\<lparr>loop_ptr := False, worker := W_Done, quit_flag := True\<rparr>"

lemma ended_reachable: "reachable_from (\<lambda>s. s = EventLoopThread_ctor) elt_user_step ended"
proof -
  let ?a = "published\<lparr>worker := W_Loop\<rparr>"
  have "elt_user_step published ?a"
    using w_enter [of published] by (intro u_lib) (simp add: published_def thread_enter_def)
  moreover have "elt_user_step ?a (?a\<lparr>quit_flag := True\<rparr>)" by (rule u_quit) (simp_all add: published_def)
  moreover have "elt_user_step (?a\<lparr>quit_flag := True\<rparr>) (?a\<lparr>quit_flag := True, worker := W_Clear\<rparr>)"
    using w_leave [of "?a\<lparr>quit_flag := True\<rparr>"] by (intro u_lib) (simp add: thread_leave_def)
  moreover have "elt_user_step (?a\<lparr>quit_flag := True, worker := W_Clear\<rparr>) ended"
    using w_clear [of "?a\<lparr>quit_flag := True, worker := W_Clear\<rparr>"]
    by (intro u_lib) (simp add: thread_clear_def ended_def published_def)
  ultimately show ?thesis using elt_step_user [OF published_reachable] by (metis reach_step)
qed

theorem dtor_after_end_terminates_witness:
  "reachable_from (\<lambda>s. s = EventLoopThread_ctor) elt_user_step ended \<and>
   owner (dtor_test (dtor_begin ended)) = O_Terminated"
  using dtor_after_end_terminates [OF ended_reachable] ended_reachable by (simp add: ended_def published_def)


section \<open>EventLoopThreadPool\<close>

text \<open>
  Loops are named by their address; \<open>loop_of i\<close> is the loop that \<open>startLoop()\<close> of the \<open>i\<close>-th new
  thread returns. \<open>start\<close> also returns the loops on which the initialisation callback ran, when there is one.
  \<open>numThreads_\<close> and \<open>next_\<close> are \<open>int\<close>s; \<open>vector::operator[]\<close> outside the vector leaves defined behaviour.
\<close>

record EventLoopThreadPool =
  baseLoop :: nat
  pool_name :: string
  pool_started :: bool
  numThreads :: int
  next_loop :: int
  pool_loops :: "nat list"

definition EventLoopThreadPool_ctor :: "nat \<Rightarrow> string \<Rightarrow> EventLoopThreadPool" where
  "EventLoopThreadPool_ctor base nameArg =
     \<lparr>baseLoop = base, pool_name = nameArg, pool_started = False, numThreads = 0, next_loop = 0, pool_loops = []\<rparr>"

definition pool_setThreadNum :: "int \<Rightarrow> EventLoopThreadPool \<Rightarrow> EventLoopThreadPool" where
  "pool_setThreadNum n p = p\<lparr>numThreads := n\<rparr>"

primrec pool_start_threads :: "(nat \<Rightarrow> nat) \<Rightarrow> nat \<Rightarrow> nat \<Rightarrow> EventLoopThreadPool \<Rightarrow> EventLoopThreadPool" where
  "pool_start_threads loop_of i 0 p = p"
| "pool_start_threads loop_of i (Suc n) p =
     pool_start_threads loop_of (Suc i) n (p\<lparr>pool_loops := pool_loops p @ [loop_of i]\<rparr>)"

definition pool_start :: "(nat \<Rightarrow> nat) \<Rightarrow> bool \<Rightarrow> EventLoopThreadPool \<Rightarrow> (nat list \<times> EventLoopThreadPool) result" where
  "pool_start loop_of cb p =
     (if pool_started p then Inl (Assert_failed ''!started_'')
      else let p1 = pool_start_threads loop_of 0 (nat (numThreads p)) (p\<lparr>pool_started := True\<rparr>)
           in Inr (if cb then (if numThreads p = 0 then [baseLoop p] else map loop_of [0..<nat (numThreads p)]) else [], p1))"

definition getNextLoop :: "EventLoopThreadPool \<Rightarrow> (nat \<times> EventLoopThreadPool) result" where
  "getNextLoop p =
     (if pool_loops p = [] then Inr (baseLoop p, p)
      else if next_loop p < 0 \<or> length (pool_loops p) \<le> nat (next_loop p) then Inl Out_of_bounds
      else let n = next_loop p + 1
           in Inr (pool_loops p ! nat (next_loop p),
                   p\<lparr>next_loop := if int (length (pool_loops p)) \<le> n then 0 else n\<rparr>))"

definition getLoopForHash :: "size_t \<Rightarrow> EventLoopThreadPool \<Rightarrow> nat" where
  "getLoopForHash hashCode p =
     (if pool_loops p = [] then baseLoop p else pool_loops p ! (unat hashCode mod length (pool_loops p)))"

definition getAllLoops :: "EventLoopThreadPool \<Rightarrow> nat list result" where
  "getAllLoops p =
     (if \<not> pool_started p then Inl (Assert_failed ''started_'')
      else Inr (if pool_loops p = [] then [baseLoop p] else pool_loops p))"

text \<open>\<open>k\<close> calls of \<open>getNextLoop\<close>, with their results.\<close>

primrec next_loops :: "nat \<Rightarrow> EventLoopThreadPool \<Rightarrow> (nat list \<times> EventLoopThreadPool) result" where
  "next_loops 0 p = Inr ([], p)"
| "next_loops (Suc k) p =
     rbind (getNextLoop p) (\<lambda>(l, p1). rbind (next_loops k p1) (\<lambda>(ls, p2). Inr (l # ls, p2)))"

lemma pool_start_threads_eq:
  "pool_start_threads loop_of i n p = p\<lparr>pool_loops := pool_loops p @ map loop_of [i..<i + n]\<rparr>"
  by (induction n arbitrary: i p) (simp_all add: upt_rec [of i "Suc (i + n)" for i n] del: upt_Suc)

definition cursor :: "EventLoopThreadPool \<Rightarrow> nat \<Rightarrow> EventLoopThreadPool" where
  "cursor p i = p\<lparr>next_loop := int (i mod length (pool_loops p))\<rparr>"

lemma getNextLoop_cursor:
  assumes "pool_loops p \<noteq> []"
  shows "getNextLoop (cursor p i) = Inr (pool_loops p ! (i mod length (pool_loops p)), cursor p (Suc i))"
proof -
  let ?n = "length (pool_loops p)"
  have lt: "i mod ?n < ?n" using assms by simp
  then have "int ?n \<le> int (i mod ?n) + 1 \<longleftrightarrow> Suc (i mod ?n) = ?n" by linarith
  moreover note lt
  moreover have "Suc i mod ?n = (if Suc (i mod ?n) = ?n then 0 else Suc (i mod ?n))"
    by (simp add: mod_Suc)
  ultimately show ?thesis using assms
    by (simp add: getNextLoop_def cursor_def Let_def not_le)
qed

lemma next_loops_cursor:
  assumes "pool_loops p \<noteq> []"
  shows "next_loops k (cursor p i) =
    Inr (map (\<lambda>j. pool_loops p ! (j mod length (pool_loops p))) [i..<i + k], cursor p (i + k))"
  using assms
  by (induction k arbitrary: i) (simp_all add: getNextLoop_cursor upt_rec [of i "Suc (i + n)" for i n] del: upt_Suc)

text \<open>
  C32. A pool of \<open>n\<close> threads, once started, gives out its loops in turn: the \<open>j\<close>-th call of \<open>getNextLoop()\<close>
  returns the loop of thread \<open>j mod n\<close>, without an access outside \<open>loops_\<close>; \<open>getAllLoops()\<close> has these loops, and
  \<open>getLoopForHash\<close> always picks one of them. A pool without threads always returns the base loop.
  A second \<open>start()\<close> fails the assertion.
\<close>

theorem pool_round_robin:
  assumes "0 \<le> n"
  shows "\<exists>inits q q'.
    pool_start loop_of cb (pool_setThreadNum n (EventLoopThreadPool_ctor base nameArg)) = Inr (inits, q) \<and>
    next_loops k q = Inr (map (\<lambda>j. if n = 0 then base else loop_of (j mod nat n)) [0..<k], q') \<and>
    getAllLoops q = Inr (if n = 0 then [base] else map loop_of [0..<nat n]) \<and>
    getLoopForHash h q \<in> (if n = 0 then {base} else loop_of ` {0..<nat n}) \<and>
    pool_start loop_of cb q = Inl (Assert_failed ''!started_'')"
proof -
  define p where "p = pool_setThreadNum n (EventLoopThreadPool_ctor base nameArg)"
  let ?q = "p\<lparr>pool_started := True, pool_loops := map loop_of [0..<nat n]\<rparr>"
  have p: "numThreads p = n" "\<not> pool_started p" "pool_loops p = []" "next_loop p = 0" "baseLoop p = base"
    by (simp_all add: p_def pool_setThreadNum_def EventLoopThreadPool_ctor_def)
  have start: "\<exists>inits. pool_start loop_of cb p = Inr (inits, ?q)"
    using p by (simp add: pool_start_def pool_start_threads_eq Let_def)
  have "\<exists>q'. next_loops k ?q = Inr (map (\<lambda>j. if n = 0 then base else loop_of (j mod nat n)) [0..<k], q')"
  proof (cases "n = 0")
    case True
    then have "next_loops k ?q = Inr (replicate k base, ?q)" using p
      by (induction k) (simp_all add: getNextLoop_def)
    then show ?thesis using True by (simp add: map_replicate_const)
  next
    case False
    then have "pool_loops ?q \<noteq> []" using assms(1) by simp
    moreover have "cursor ?q 0 = ?q" using p by (simp add: cursor_def)
    ultimately have "next_loops k ?q =
        Inr (map (\<lambda>j. map loop_of [0..<nat n] ! (j mod nat n)) [0..<k], cursor ?q k)"
      using next_loops_cursor [of ?q k 0] by simp
    moreover have "map loop_of [0..<nat n] ! (j mod nat n) = loop_of (j mod nat n)" for j
      using False assms(1) by simp
    ultimately show ?thesis using False by simp
  qed
  moreover have "getLoopForHash h ?q \<in> (if n = 0 then {base} else loop_of ` {0..<nat n})"
    using assms(1) p by (auto simp: getLoopForHash_def)
  ultimately show ?thesis
    unfolding p_def [symmetric] using start assms(1) p by (auto simp: getAllLoops_def pool_start_def)
qed

theorem pool_round_robin_witness:
  "\<exists>inits q q'. pool_start (\<lambda>i. 100 + i) True (pool_setThreadNum 3 (EventLoopThreadPool_ctor 7 ''io'')) = Inr (inits, q) \<and>
     next_loops 5 q = Inr ([100, 101, 102, 100, 101], q')"
proof -
  have five: "[0..<5] = [0, 1, 2, 3, 4 :: nat]" by (simp add: upt_rec)
  obtain inits q q' where
    "pool_start (\<lambda>i. 100 + i) True (pool_setThreadNum 3 (EventLoopThreadPool_ctor 7 ''io'')) = Inr (inits, q)"
    "next_loops 5 q = Inr (map (\<lambda>j. if (3 :: int) = 0 then 7 else 100 + j mod nat 3) [0..<5], q')"
    using pool_round_robin [of 3 "\<lambda>i. 100 + i" True 7 "''io''" 5 0] by force
  moreover have "map (\<lambda>j. if (3 :: int) = 0 then 7 else 100 + j mod nat 3) [0..<5] = [100, 101, 102, 100, 101]"
    by (simp add: five)
  ultimately show ?thesis by metis
qed

end
