(* ===== verification/Siren_Server.thy ===== *)
theory Siren_Server
  imports Siren_Acceptor Siren_Threads
begin

text \<open>
  The server: \<open>include/siren/net/TcpServer.h\<close> and \<open>src/net/TcpServer.cpp\<close>.

  The state is that of the loop the server listens in, with its acceptor, and the servers themselves. A connection
  belongs to one loop of the pool, which may be another one. What the server does to another loop is the list
  \<open>remote\<close> of what it hands to that loop, in order: the two objects of a new connection, and functors for
  its queue. \<open>conn_home\<close> has for every connection of a server what never changes: the loop \<open>getLoop()\<close> and the name.
  \<open>connections_\<close>, a \<open>std::map\<close>, is a list of pairs in the order of the keys.
  \<open>std::atomic<int> started_\<close> is not initialised by the constructor, so its first value is an argument.
\<close>

section \<open>std::map with string keys\<close>

fun str_less :: "string \<Rightarrow> string \<Rightarrow> bool" where
  "str_less xs [] = False"
| "str_less [] (y # ys) = True"
| "str_less (x # xs) (y # ys) = (if x = y then str_less xs ys else (of_char x :: nat) < of_char y)"

fun map_put :: "string \<Rightarrow> 'a \<Rightarrow> (string \<times> 'a) list \<Rightarrow> (string \<times> 'a) list" where
  "map_put k v [] = [(k, v)]"
| "map_put k v ((k', v') # m) =
     (if k = k' then (k, v) # m else if str_less k k' then (k, v) # (k', v') # m else (k', v') # map_put k v m)"

definition map_erase :: "string \<Rightarrow> (string \<times> 'a) list \<Rightarrow> (string \<times> 'a) list" where
  "map_erase k m = filter (\<lambda>e. fst e \<noteq> k) m"

lemma map_of_map_put [simp]: "map_of (map_put k v m) = (map_of m)(k \<mapsto> v)"
  by (induction m) auto

lemma keys_map_put: "fst ` set (map_put k v m) = insert k (fst ` set m)"
  by (induction k v m rule: map_put.induct) (simp_all add: insert_commute)

lemma distinct_map_put: "map_of m k = None \<Longrightarrow> distinct (map fst m) \<Longrightarrow> distinct (map fst (map_put k v m))"
  by (induction k v m rule: map_put.induct) (auto simp: keys_map_put split: if_splits)

lemma distinct_map_erase: "distinct (map fst m) \<Longrightarrow> distinct (map fst (map_erase k m))"
  by (simp add: map_erase_def distinct_map_filter)

lemma map_of_map_erase [simp]: "map_of (map_erase k m) = (map_of m)(k := None)"
  by (induction m) (auto simp: map_erase_def)

section \<open>Data\<close>

datatype remote_msg =
    Rm_connection nat TcpConnection channel
  | Rm_functor closure

record TcpServer =
  sv_ipPort :: string
  sv_name :: string
  sv_acceptor :: nat
  sv_pool :: EventLoopThreadPool
  sv_connectionCallback :: "conn_cb option"
  sv_messageCallback :: "msg_cb option"
  sv_writeCompleteCallback :: "nat option"
  sv_threadInitCallback :: bool
  sv_started :: cint
  sv_nextConnId :: int
  sv_connections :: "(string \<times> nat) list"

record snet = anet +
  servers :: "nat \<rightharpoonup> TcpServer"
  conn_home :: "nat \<rightharpoonup> nat \<times> string"
  remote :: "nat \<Rightarrow> remote_msg list"

definition with_server :: "nat \<Rightarrow> 'm snet_scheme \<Rightarrow> (TcpServer \<Rightarrow> 'a result) \<Rightarrow> 'a result" where
  "with_server v s f = (case servers s v of None \<Rightarrow> Inl Bad_pointer | Some sv \<Rightarrow> f sv)"

definition put_server :: "nat \<Rightarrow> TcpServer \<Rightarrow> 'm snet_scheme \<Rightarrow> 'm snet_scheme" where
  "put_server v sv s = s\<lparr>servers := (servers s)(v \<mapsto> sv)\<rparr>"

definition send_remote :: "nat \<Rightarrow> remote_msg list \<Rightarrow> 'm snet_scheme \<Rightarrow> 'm snet_scheme" where
  "send_remote io msgs s = s\<lparr>remote := (remote s)(io := remote s io @ msgs)\<rparr>"

section \<open>Construction and settings\<close>

definition TcpServer_ctor :: "(byte list \<Rightarrow> string) \<Rightarrow> nat \<Rightarrow> nat \<Rightarrow> chan \<Rightarrow> fd \<Rightarrow> fd \<Rightarrow> cint \<Rightarrow> InetAddress \<Rightarrow> string \<Rightarrow> bool \<Rightarrow>
    'm snet_scheme \<Rightarrow> 'm snet_scheme result" where
  "TcpServer_ctor ntop6 v k d sockfd idle started0 listenAddr nameArg reusePort s =
     rbind (InetAddress_toIpPort ntop6 listenAddr) (\<lambda>ipPort.
     rbind (Acceptor_ctor k d sockfd idle listenAddr reusePort s) (\<lambda>s1.
     with_acceptor k s1 (\<lambda>a.
       Inr (put_acceptor k (Acceptor_setNewConnectionCallback (Some v) a)
         (put_server v
           \<lparr>sv_ipPort = ipPort, sv_name = nameArg, sv_acceptor = k,
            sv_pool = EventLoopThreadPool_ctor (loop_id s1) nameArg,
            sv_connectionCallback = Some defaultConnectionCallback, sv_messageCallback = Some defaultMessageCallback,
            sv_writeCompleteCallback = None, sv_threadInitCallback = False, sv_started = started0,
            sv_nextConnId = 1, sv_connections = []\<rparr> s1)))))"

definition TcpServer_setThreadNum :: "nat \<Rightarrow> int \<Rightarrow> 'm snet_scheme \<Rightarrow> 'm snet_scheme result" where
  "TcpServer_setThreadNum v num s =
     with_server v s (\<lambda>sv.
       if num < 0 then Inl (Assert_failed ''0 <= numThreads'')
       else Inr (put_server v (sv\<lparr>sv_pool := pool_setThreadNum num (sv_pool sv)\<rparr>) s))"

definition TcpServer_setThreadInitCallback :: "bool \<Rightarrow> TcpServer \<Rightarrow> TcpServer" where
  "TcpServer_setThreadInitCallback cb sv = sv\<lparr>sv_threadInitCallback := cb\<rparr>"

definition TcpServer_setConnectionCallback :: "conn_cb option \<Rightarrow> TcpServer \<Rightarrow> TcpServer" where
  "TcpServer_setConnectionCallback cb sv = sv\<lparr>sv_connectionCallback := cb\<rparr>"

definition TcpServer_setMessageCallback :: "msg_cb option \<Rightarrow> TcpServer \<Rightarrow> TcpServer" where
  "TcpServer_setMessageCallback cb sv = sv\<lparr>sv_messageCallback := cb\<rparr>"

definition TcpServer_setWriteCompleteCallback :: "nat option \<Rightarrow> TcpServer \<Rightarrow> TcpServer" where
  "TcpServer_setWriteCompleteCallback cb sv = sv\<lparr>sv_writeCompleteCallback := cb\<rparr>"

text \<open>\<open>started_.fetch_add(1)\<close> wraps around; the pool is started and the acceptor listens in the first call only.\<close>

definition TcpServer_start :: "(nat \<Rightarrow> nat) \<Rightarrow> nat \<Rightarrow> nat \<Rightarrow> 'm snet_scheme \<Rightarrow> 'm snet_scheme result" where
  "TcpServer_start loop_of tid v s =
     with_server v s (\<lambda>sv.
       let s0 = put_server v (sv\<lparr>sv_started := sv_started sv + 1\<rparr>) s in
       if sv_started sv \<noteq> 0 then Inr s0
       else
         rbind (pool_start loop_of (sv_threadInitCallback sv) (sv_pool sv)) (\<lambda>(inits, pool).
         let s1 = put_server v (sv\<lparr>sv_started := sv_started sv + 1, sv_pool := pool\<rparr>) s in
         with_acceptor (sv_acceptor sv) s1 (\<lambda>a.
           if listening a then Inl (Assert_failed ''!acceptor_->listening()'')
           else runInLoop (\<lambda>f. Acceptor_listen (sv_acceptor sv)) tid (Some (Fn_Acceptor_listen (sv_acceptor sv))) s1)))"

section \<open>Connections\<close>

text \<open>\<open>snprintf(buf, sizeof buf, "-%s#%d", ...)\<close> with \<open>char buf[64]\<close>.\<close>

definition conn_suffix :: "string \<Rightarrow> int \<Rightarrow> string" where
  "conn_suffix ipPort n = take 63 (''-'' @ ipPort @ ''#'' @ show_int n)"

definition server_callbacks :: "nat \<Rightarrow> TcpServer \<Rightarrow> TcpConnection \<Rightarrow> TcpConnection" where
  "server_callbacks v sv tc =
     TcpConnection_setCloseCallback (Some (TcpServer_removeConnection v))
      (TcpConnection_setWriteCompleteCallback (sv_writeCompleteCallback sv)
       (TcpConnection_setMessageCallback (sv_messageCallback sv)
        (TcpConnection_setConnectionCallback (sv_connectionCallback sv) tc)))"

definition TcpServer_newConnection :: "os \<Rightarrow> (app_call \<Rightarrow> 'm snet_scheme \<Rightarrow> api_call list) \<Rightarrow> nat \<Rightarrow> chan \<Rightarrow>
    errno + InetAddress \<Rightarrow> nat \<Rightarrow> fd \<Rightarrow> InetAddress \<Rightarrow> 'm snet_scheme \<Rightarrow> 'm snet_scheme result" where
  "TcpServer_newConnection os app c d sockname v sockfd peer s =
     with_server v s (\<lambda>sv.
     rbind (getNextLoop (sv_pool sv)) (\<lambda>(io, pool).
       let connName = sv_name sv @ conn_suffix (sv_ipPort sv) (sv_nextConnId sv);
           la = getLocalAddr sockname;
           s1 = put_server v (sv\<lparr>sv_pool := pool, sv_nextConnId := sv_nextConnId sv + 1,
                                 sv_connections := map_put connName c (sv_connections sv)\<rparr>)
                  (s\<lparr>conn_home := (conn_home s)(c \<mapsto> (io, connName))\<rparr>)
       in if sv_nextConnId sv = 2 ^ 31 - 1 then Inl Signed_overflow
          else if io = loop_id s
          then rbind (TcpConnection_ctor c d connName sockfd la peer s1) (\<lambda>s2. with_conn c s2 (\<lambda>tc.
                 runInLoop (\<lambda>f. connectEstablished os app c) (threadId s) (Some (Fn_connectEstablished c))
                   (put_conn c (server_callbacks v sv tc) s2)))
          else rbind (TcpConnection_init io c d connName sockfd la peer) (\<lambda>(tc, ch).
                 Inr (send_remote io [Rm_connection c (server_callbacks v sv tc) ch, Rm_functor (Fn_connectEstablished c)]
                   (s1\<lparr>sys := Socket_setKeepAlive sockfd True (sys s1)\<rparr>)))))"

definition TcpServer_removeConnectionInLoop :: "nat \<Rightarrow> nat \<Rightarrow> 'm snet_scheme \<Rightarrow> 'm snet_scheme result" where
  "TcpServer_removeConnectionInLoop v c s =
     with_server v s (\<lambda>sv.
       case conn_home s c of
         None \<Rightarrow> Inl Bad_pointer
       | Some (io, name) \<Rightarrow>
           let s1 = put_server v (sv\<lparr>sv_connections := map_erase name (sv_connections sv)\<rparr>) s
           in if map_of (sv_connections sv) name = None then Inl (Assert_failed ''n == 1'')
              else if io = loop_id s then Inr (queueInLoop (threadId s) (Some (Fn_connectDestroyed c)) s1)
              else Inr (send_remote io [Rm_functor (Fn_connectDestroyed c)] s1))"

definition TcpServer_removeConnection_op :: "nat \<Rightarrow> nat \<Rightarrow> nat \<Rightarrow> 'm snet_scheme \<Rightarrow> 'm snet_scheme result" where
  "TcpServer_removeConnection_op tid v c s =
     runInLoop (\<lambda>f. TcpServer_removeConnectionInLoop v c) tid (Some (Fn_removeConnectionInLoop v c)) s"

text \<open>The closing callback of a connection that lives in the server's own loop.\<close>

fun server_on_close :: "close_cb \<Rightarrow> nat \<Rightarrow> 'm snet_scheme \<Rightarrow> 'm snet_scheme result" where
  "server_on_close (TcpServer_removeConnection v) c s = TcpServer_removeConnection_op (threadId s) v c s"
| "server_on_close _ c s = Inr s"

text \<open>
  The destructor: every connection is destroyed in its loop; then the acceptor goes. (The map's pointers
  are reset on the way, the threads of the pool are joined in between, see \<open>Siren_Threads\<close>.)
\<close>

definition destroy_connection :: "os \<Rightarrow> (app_call \<Rightarrow> 'm snet_scheme \<Rightarrow> api_call list) \<Rightarrow> string \<times> nat \<Rightarrow>
    'm snet_scheme \<Rightarrow> 'm snet_scheme result" where
  "destroy_connection os app item s =
     (case conn_home s (snd item) of
        None \<Rightarrow> Inl Bad_pointer
      | Some (io, name) \<Rightarrow>
          if io = loop_id s
          then runInLoop (\<lambda>f. connectDestroyed os app (snd item)) (threadId s) (Some (Fn_connectDestroyed (snd item))) s
          else Inr (send_remote io [Rm_functor (Fn_connectDestroyed (snd item))] s))"

definition TcpServer_dtor :: "os \<Rightarrow> (app_call \<Rightarrow> 'm snet_scheme \<Rightarrow> api_call list) \<Rightarrow> nat \<Rightarrow> 'm snet_scheme \<Rightarrow> 'm snet_scheme result" where
  "TcpServer_dtor os app v s =
     with_server v s (\<lambda>sv.
       rbind (rfold (destroy_connection os app) (sv_connections sv) s) (\<lambda>s1.
       rbind (Acceptor_dtor (threadId s) (sv_acceptor sv) s1) (\<lambda>s2.
         Inr (s2\<lparr>servers := (servers s2)(v := None)\<rparr>))))"

section \<open>Names of connections\<close>

lemma show_nat_inject: "show_nat m = show_nat n \<Longrightarrow> m = n"
  using show_nat_value [of m] show_nat_value [of n] by metis

lemma show_int_pos: "0 \<le> n \<Longrightarrow> show_int n = show_nat (nat n)"
  by (simp add: show_int_def)

text \<open>Up to this number the suffix is not cut, whatever address the server listens on.\<close>

definition max_conn_id :: int where
  "max_conn_id = 10 ^ 8"

lemma conn_suffix_exact:
  assumes "length ipPort \<le> 53" and "0 \<le> n" and "n < max_conn_id"
  shows "conn_suffix ipPort n = ''-'' @ ipPort @ ''#'' @ show_nat (nat n)"
proof -
  have "nat n < 10 ^ 8" using assms by (simp add: max_conn_id_def)
  then have "length (show_nat (nat n)) \<le> 8" by (rule show_nat_length) simp
  then show ?thesis using assms by (simp add: conn_suffix_def show_int_pos)
qed

lemma conn_suffix_inject:
  assumes "length ipPort \<le> 53" and "0 \<le> m" "m < max_conn_id" and "0 \<le> n" "n < max_conn_id"
    and "conn_suffix ipPort m = conn_suffix ipPort n"
  shows "m = n"
  using assms conn_suffix_exact [OF assms(1)] by (auto dest!: show_nat_inject)

section \<open>The invariant of a server with one loop\<close>

definition mine :: "nat \<Rightarrow> TcpConnection \<Rightarrow> bool" where
  "mine v tc \<longleftrightarrow> tc_closeCallback tc = Some (TcpServer_removeConnection v)"

text \<open>
  \<open>connections_\<close> has exactly the connections of this server that are not closed (or closed and not yet reported,
  the set \<open>X\<close>), each under its name, and the names are those given out so far.
\<close>

definition registry_ok :: "nat \<Rightarrow> nat set \<Rightarrow> 'm snet_scheme \<Rightarrow> TcpServer \<Rightarrow> bool" where
  "registry_ok v X s sv \<longleftrightarrow>
     (\<forall>name c. map_of (sv_connections sv) name = Some c \<longleftrightarrow>
        (\<exists>tc. conns s c = Some tc \<and> tc_name tc = name \<and> mine v tc \<and> (tc_state tc \<noteq> kDisconnected \<or> c \<in> X))) \<and>
     (\<forall>c tc. conns s c = Some tc \<longrightarrow> mine v tc \<longrightarrow> conn_home s c = Some (loop_id s, tc_name tc))"

definition settings_ok :: "nat \<Rightarrow> TcpServer \<Rightarrow> bool" where
  "settings_ok lid sv \<longleftrightarrow> pool_loops (sv_pool sv) = [] \<and> baseLoop (sv_pool sv) = lid \<and>
     1 \<le> sv_nextConnId sv \<and> length (sv_ipPort sv) \<le> 53 \<and> distinct (map fst (sv_connections sv)) \<and>
     (\<forall>name. map_of (sv_connections sv) name \<noteq> None \<longrightarrow>
        (\<exists>n. 1 \<le> n \<and> n < sv_nextConnId sv \<and> name = sv_name sv @ conn_suffix (sv_ipPort sv) n))"

definition server_ok :: "nat \<Rightarrow> nat set \<Rightarrow> 'm snet_scheme \<Rightarrow> bool" where
  "server_ok v X s \<longleftrightarrow> net_life s \<and> queued_ok (TcpServer_removeConnection v) X s \<and>
     (\<exists>sv. servers s v = Some sv \<and> settings_ok (loop_id s) sv \<and> registry_ok v X s sv)"

lemma more_server:
  fixes s t :: "'m snet_scheme"
  assumes "net.more t = net.more s"
  shows "servers t = servers s \<and> conn_home t = conn_home s"
proof (cases s)
  case s: fields
  show ?thesis
  proof (cases t)
    case t: fields
    show ?thesis
      using assms by (simp only: s t net.select_convs anet.select_convs snet.select_convs anet.ext_inject snet.ext_inject)
  qed
qed

lemma homeD_server:
  fixes s t :: "'m snet_scheme"
  assumes "home t = home s"
  shows "servers t = servers s" and "conn_home t = conn_home s" and "loop_id t = loop_id s"
  using more_server [OF homeD(3) [OF assms]] homeD(2) [OF assms] by simp_all

lemma server_ok_frame:
  assumes ok: "server_ok v X s" and fr: "api_frame s t"
  shows "server_ok v X t"
proof -
  obtain sv where sv: "servers s v = Some sv" "settings_ok (loop_id s) sv" "registry_ok v X s sv" "net_life s" "queued_ok (TcpServer_removeConnection v) X s"
    using ok by (auto simp: server_ok_def)
  have h: "servers t = servers s" "conn_home t = conn_home s" "loop_id t = loop_id s"
    using fr homeD_server [of t s] by (auto simp: api_frame_def)
  have rel: "rel_option conn_frame (conns s c) (conns t c)" for c using fr by (simp add: api_frame_def)
  have opn: "(\<exists>tc. conns t c = Some tc \<and> tc_name tc = name \<and> mine v tc \<and> (tc_state tc \<noteq> kDisconnected \<or> c \<in> X)) \<longleftrightarrow>
      (\<exists>tc. conns s c = Some tc \<and> tc_name tc = name \<and> mine v tc \<and> (tc_state tc \<noteq> kDisconnected \<or> c \<in> X))" for name c
    using rel [of c] by (cases "conns s c"; cases "conns t c") (auto simp: conn_frame_def mine_def)
  have home: "conn_home s c = Some (loop_id s, tc_name tc)" if "conns t c = Some tc" "mine v tc" for c tc
    using rel [of c] that sv(3) by (cases "conns s c") (auto simp: conn_frame_def mine_def registry_ok_def)
  have "registry_ok v X t sv"
    unfolding registry_ok_def opn h using sv(3) home by (simp add: registry_ok_def)
  moreover have "queued_ok (TcpServer_removeConnection v) X t" using sv(5) fr by (rule queued_frame)
  ultimately show ?thesis using sv h frame_life [OF sv(4) fr] by (auto simp: server_ok_def)
qed

lemma server_okD:
  assumes "server_ok v X s"
  obtains sv where "servers s v = Some sv" "settings_ok (loop_id s) sv" "registry_ok v X s sv" "net_life s" "queued_ok (TcpServer_removeConnection v) X s"
  using assms by (auto simp: server_ok_def)

text \<open>A reported change of state of one connection.\<close>

lemma server_ok_transition:
  assumes ok: "server_ok v {} s" and tc: "conns s c = Some tc" and wf: "net_wf u"
    and u: "conns u = (conns s)(c \<mapsto> setState st tc)" "conn_log u = conn_log s @ [(c, st = kConnected)]" "home u = home s"
    and st: "seen st = seen (tc_state tc) @ [st = kConnected]" and opn: "tc_state tc \<noteq> kDisconnected"
    and X: "X = (if st = kDisconnected then {c} else {})"
  shows "server_ok v X u"
  using ok
proof (rule server_okD)
  fix sv
  assume sv: "servers s v = Some sv" "settings_ok (loop_id s) sv" "registry_ok v {} s sv" "net_life s" "queued_ok (TcpServer_removeConnection v) {} s"
  note h = homeD_server [OF u(3)]
  have "(\<exists>tc. conns u d = Some tc \<and> tc_name tc = name \<and> mine v tc \<and> (tc_state tc \<noteq> kDisconnected \<or> d \<in> X)) \<longleftrightarrow>
      (\<exists>tc. conns s d = Some tc \<and> tc_name tc = name \<and> mine v tc \<and> (tc_state tc \<noteq> kDisconnected \<or> d \<in> {}))" for name d
    using u(1) tc opn X by (auto simp: setState_def mine_def)
  moreover have "conn_home s d = Some (loop_id s, tc_name td)" if "conns u d = Some td" "mine v td" for d td
    using that u(1) tc sv(3) by (auto simp: registry_ok_def setState_def mine_def split: if_splits)
  ultimately have "registry_ok v X u sv"
    unfolding registry_ok_def h using sv(3) by (simp add: registry_ok_def)
  moreover have "net_life u" using sv(4) tc wf u(1,2) st by (rule transition_life)
  moreover have "queued_ok (TcpServer_removeConnection v) X u"
    by (rule queued_transition [OF sv(5) tc opn u(1,3)]) (simp add: X)
  ultimately show "server_ok v X u" using sv h by (auto simp: server_ok_def)
qed

text \<open>Removing a closed connection from the registry.\<close>

lemma net_life_server_upd [simp]:
  "net_life (put_server v sv s) = net_life s" "net_life (send_remote io msgs s) = net_life s"
  "net_life (queueInLoop tid cb s) = net_life s"
proof -
  have "net_wf (put_server v sv s) = net_wf s" "net_wf (send_remote io msgs s) = net_wf s"
    by (rule net_wf_cong; simp add: put_server_def send_remote_def)+
  then show "net_life (put_server v sv s) = net_life s" "net_life (send_remote io msgs s) = net_life s"
    "net_life (queueInLoop tid cb s) = net_life s"
    by (simp_all add: net_life_def callbacks_def put_server_def send_remote_def)
qed

lemma server_upd_fields [simp]:
  "conns (put_server v sv s) = conns s" "servers (put_server v sv s) = (servers s)(v \<mapsto> sv)"
  "conn_home (put_server v sv s) = conn_home s" "loop_id (put_server v sv s) = loop_id s"
  "pendingFunctors (put_server v sv s) = pendingFunctors s" "threadId (put_server v sv s) = threadId s"
  "waiting (put_server v sv s) = waiting s" "waiting (send_remote io msgs s) = waiting s"
  "conns (send_remote io msgs s) = conns s" "servers (send_remote io msgs s) = servers s"
  "conn_home (send_remote io msgs s) = conn_home s" "loop_id (send_remote io msgs s) = loop_id s"
  by (simp_all add: put_server_def send_remote_def waiting_def fun_eq_iff)

lemma more_upd_fields [simp]:
  "sys (put_server v sv s) = sys s" "threadId (put_chan d ch s) = threadId s"
  by (simp_all add: put_server_def put_chan_def)

lemma server_queue_fields [simp]:
  "servers (queueInLoop tid cb s) = servers s" "conn_home (queueInLoop tid cb s) = conn_home s"
  "loop_id (queueInLoop tid cb s) = loop_id s"
  by (simp_all add: queueInLoop_def queue_wake_def queue_push_def wakeup_def)

lemma with_server_simps [simp]: "servers s v = Some sv \<Longrightarrow> with_server v s f = f sv"
  by (simp add: with_server_def)

lemma with_server_eq_Inr [result_simps]:
  "with_server v s f = Inr y \<longleftrightarrow> (\<exists>sv. servers s v = Some sv \<and> f sv = Inr y)"
  by (auto simp: with_server_def split: option.splits)

lemma removal_ok:
  assumes ok: "server_ok v {c} s" and tc: "conns s c = Some tc" and dead: "tc_state tc = kDisconnected" and m: "mine v tc"
  obtains sv where "servers s v = Some sv" "map_of (sv_connections sv) (tc_name tc) = Some c"
    "server_on_close (TcpServer_removeConnection v) c s =
       Inr (queueInLoop (threadId s) (Some (Fn_connectDestroyed c))
         (put_server v (sv\<lparr>sv_connections := map_erase (tc_name tc) (sv_connections sv)\<rparr>) s))"
    "server_ok v {} (queueInLoop (threadId s) (Some (Fn_connectDestroyed c))
         (put_server v (sv\<lparr>sv_connections := map_erase (tc_name tc) (sv_connections sv)\<rparr>) s))"
  using ok
proof (rule server_okD)
  fix sv
  assume sv: "servers s v = Some sv" "settings_ok (loop_id s) sv" "registry_ok v {c} s sv" "net_life s" "queued_ok (TcpServer_removeConnection v) {c} s"
  let ?sv = "sv\<lparr>sv_connections := map_erase (tc_name tc) (sv_connections sv)\<rparr>"
  let ?t = "queueInLoop (threadId s) (Some (Fn_connectDestroyed c)) (put_server v ?sv s)"
  have name: "map_of (sv_connections sv) (tc_name tc) = Some c"
    using sv(3) tc m by (auto simp: registry_ok_def)
  have hm: "conn_home s c = Some (loop_id s, tc_name tc)" using sv(3) tc m by (auto simp: registry_ok_def)
  have close: "server_on_close (TcpServer_removeConnection v) c s = Inr ?t"
    using sv(1) name hm by (simp add: TcpServer_removeConnection_op_def runInLoop_def isInLoopThread_def
        TcpServer_removeConnectionInLoop_def Let_def)
  have "map_of (sv_connections ?sv) n = Some d \<longleftrightarrow>
      (\<exists>td. conns s d = Some td \<and> tc_name td = n \<and> mine v td \<and> tc_state td \<noteq> kDisconnected)" for n d
  proof (cases "d = c")
    case True
    then show ?thesis using tc dead sv(3) by (auto simp: registry_ok_def)
  next
    case False
    have "map_of (sv_connections sv) n = Some d \<longleftrightarrow>
        (\<exists>td. conns s d = Some td \<and> tc_name td = n \<and> mine v td \<and> tc_state td \<noteq> kDisconnected)"
      using sv(3) False by (simp add: registry_ok_def)
    moreover have "n \<noteq> tc_name tc" if "map_of (sv_connections sv) n = Some d" using that name False by auto
    ultimately show ?thesis by auto
  qed
  then have "registry_ok v {} ?t ?sv" using sv(3) by (simp add: registry_ok_def)
  moreover have "settings_ok (loop_id s) ?sv" using sv(2) by (auto simp: settings_ok_def distinct_map_erase)
  moreover have "queued_ok (TcpServer_removeConnection v) {} ?t"
    by (rule queued_told [of _ _ _ tc], rule queued_sameI [OF sv(5)]) (use tc dead in simp_all)
  ultimately have "server_ok v {} ?t" using sv(4) by (simp add: server_ok_def)
  with sv(1) name close show thesis by (rule that)
qed

lemma not_registered_ok:
  assumes ok: "server_ok v {c} s" and tc: "conns s c = Some tc"
    and out: "\<And>sv. servers s v = Some sv \<Longrightarrow> mine v tc \<Longrightarrow> map_of (sv_connections sv) (tc_name tc) \<noteq> Some c"
  shows "server_ok v {} s"
  using ok
proof (rule server_okD)
  fix sv
  assume sv: "servers s v = Some sv" "settings_ok (loop_id s) sv" "registry_ok v {c} s sv" "net_life s" "queued_ok (TcpServer_removeConnection v) {c} s"
  have "\<not> mine v tc" using out [OF sv(1)] sv(3) tc by (auto simp: registry_ok_def)
  then have "registry_ok v {} s sv" using sv(3) tc by (auto simp: registry_ok_def)
  moreover have "queued_ok (TcpServer_removeConnection v) {} s" using sv(5) by (rule queued_weaken)
  ultimately show "server_ok v {} s" using sv by (auto simp: server_ok_def)
qed

lemma server_ok_cong:
  assumes "net_life t" and "conns t = conns s" and "servers t v = servers s v" and "conn_home t = conn_home s"
    and "loop_id t = loop_id s" and "server_ok v X s" and "queued_ok (TcpServer_removeConnection v) X t"
  shows "server_ok v X t"
  using assms by (simp add: server_ok_def registry_ok_def)

lemma removal_shape:
  assumes "server_on_close (TcpServer_removeConnection w) c s = Inr t"
  obtains sv io name s1 where "s1 = put_server w (sv\<lparr>sv_connections := map_erase name (sv_connections sv)\<rparr>) s"
    "t = queueInLoop (threadId s) (Some (Fn_connectDestroyed c)) s1 \<or> t = send_remote io [Rm_functor (Fn_connectDestroyed c)] s1"
proof -
  have run: "TcpServer_removeConnectionInLoop w c s = Inr t"
    using assms by (simp add: TcpServer_removeConnection_op_def runInLoop_def isInLoopThread_def)
  then obtain sv io name where "servers s w = Some sv" "conn_home s c = Some (io, name)"
    by (auto simp: TcpServer_removeConnectionInLoop_def result_simps split: option.splits)
  with run show thesis
    by (intro that [of "put_server w (sv\<lparr>sv_connections := map_erase name (sv_connections sv)\<rparr>) s" name sv io])
      (auto simp: TcpServer_removeConnectionInLoop_def Let_def split: if_splits)
qed

lemma close_other_server:
  assumes ok: "server_ok v {} s" and tc: "conns s c = Some tc" "\<not> mine v tc" and cb: "cb \<noteq> TcpServer_removeConnection v"
    and run: "server_on_close cb c s = Inr t"
  shows "server_ok v {} t"
proof (cases cb)
  case (TcpServer_removeConnection w)
  from run [unfolded TcpServer_removeConnection] obtain sv io name s1 where
    s1: "s1 = put_server w (sv\<lparr>sv_connections := map_erase name (sv_connections sv)\<rparr>) s"
    "t = queueInLoop (threadId s) (Some (Fn_connectDestroyed c)) s1 \<or> t = send_remote io [Rm_functor (Fn_connectDestroyed c)] s1"
    by (rule removal_shape)
  have "net_life s" "queued_ok (TcpServer_removeConnection v) {} s" using ok by (simp_all add: server_ok_def)
  then have "net_life t" "queued_ok (TcpServer_removeConnection v) {} t" using s1 tc by (auto simp: queued_ok_def mine_def)
  then show ?thesis using s1 TcpServer_removeConnection cb by (intro server_ok_cong [OF _ _ _ _ _ ok]) auto
qed (use ok run in auto)

text \<open>\<open>connectDestroyed\<close> is queued for connections that are no longer in the map.\<close>

definition removed :: "nat \<Rightarrow> 'm snet_scheme \<Rightarrow> nat \<Rightarrow> bool" where
  "removed v s c \<longleftrightarrow> (\<forall>tc sv. conns s c = Some tc \<longrightarrow> servers s v = Some sv \<longrightarrow> mine v tc \<longrightarrow>
     map_of (sv_connections sv) (tc_name tc) \<noteq> Some c)"

interpretation server_conns: conn_invariant "server_ok v" server_on_close "removed v" "\<lambda>c. True" for v
proof
  show "net_wf s" if "server_ok v X s" for X and s :: "'m snet_scheme"
    using that net_lifeD(1) by (auto simp: server_ok_def)
  show "server_ok v X t" if "server_ok v X s" "api_frame s t" for X and s t :: "'m snet_scheme"
    using that by (rule server_ok_frame)
  show "server_ok v {} u" if "server_ok v {} s" "conns s c = Some tc" "tc_state tc = kConnecting" "net_wf u"
    "conns u = (conns s)(c \<mapsto> setState kConnected tc)" "conn_log u = conn_log s @ [(c, True)]" "home u = home s"
    for s u :: "'m snet_scheme" and c tc
    using that by (intro server_ok_transition [OF that(1,2,4,5) _ that(7)]) (simp_all add: seen_def)
  show "server_ok v {c} u" if "server_ok v {} s" "conns s c = Some tc"
    "tc_state tc = kConnected \<or> tc_state tc = kDisconnecting" "net_wf u"
    "conns u = (conns s)(c \<mapsto> setState kDisconnected tc)" "conn_log u = conn_log s @ [(c, False)]" "home u = home s"
    for s u :: "'m snet_scheme" and c tc
    using that by (intro server_ok_transition [OF that(1,2,4,5) _ that(7)]) (auto simp: seen_def)
  show "server_ok v {} t" if "server_ok v {c} s" "conns s c = Some tc" "tc_state tc = kDisconnected"
    "tc_closeCallback tc = Some cb" "server_on_close cb c s = Inr t" for s t :: "'m snet_scheme" and c tc cb
  proof (cases "cb = TcpServer_removeConnection v")
    case True
    then have "mine v tc" using that(4) by (simp add: mine_def)
    with that(1-3) show ?thesis by (rule removal_ok) (use that(5) True in simp)
  next
    case False
    then have other: "\<not> mine v tc" using that(4) by (simp add: mine_def)
    from that(1,2) have "server_ok v {} s" by (rule not_registered_ok) (use other in simp)
    then show ?thesis using that(2) other False that(5) by (rule close_other_server)
  qed
  show "server_ok v {} s" if "server_ok v {c} s" "conns s c = Some tc" "removed v s c" for s :: "'m snet_scheme" and c tc
    using that(1,2) by (rule not_registered_ok) (use that(2,3) in \<open>simp add: removed_def\<close>)
  show "removed v u c" if "removed v s c" "conns s c = Some tc" "conns u c = Some (setState kDisconnected tc)" "home u = home s"
    for s u :: "'m snet_scheme" and c tc
    using that homeD_server [OF that(4)] by (simp add: removed_def setState_def mine_def)
qed

text \<open>The closing callback changes no connection, so the life of a server's connections goes forward only.\<close>

lemma server_keeps_conns: "keeps_conns server_on_close"
proof -
  have wf: "net_wf (put_server v sv s) = net_wf s" "net_wf (send_remote io msgs s) = net_wf s" for v sv io msgs and s :: "'a snet_scheme"
    by (rule net_wf_cong; simp add: put_server_def send_remote_def)+
  have "net_wf t \<and> conns t = conns s" if "net_wf s" "server_on_close cb c s = Inr t" for cb c and s t :: "'a snet_scheme"
  proof (cases cb)
    case (TcpServer_removeConnection w)
    from that(2) [unfolded TcpServer_removeConnection] show ?thesis
      by (rule removal_shape) (use that(1) wf in auto)
  qed (use that in auto)
  then show ?thesis by (simp add: keeps_conns_def)
qed

text \<open>Nor does it change what the user was told: what is proved of the life of connections for any such closing callback holds for those of a server.\<close>

lemma server_keeps_life: "keeps_life server_on_close"
proof -
  have "net_life t" if "net_life s" "server_on_close cb c s = Inr t" for cb c and s t :: "'a snet_scheme"
  proof -
    have "net_wf t \<and> conns t = conns s"
      using server_keeps_conns net_lifeD(1) [OF that(1)] that(2) unfolding keeps_conns_def by blast
    moreover have "conn_log t = conn_log s"
    proof (cases cb)
      case (TcpServer_removeConnection w)
      from that(2) [unfolded TcpServer_removeConnection] show ?thesis
        by (rule removal_shape) (auto simp: put_server_def send_remote_def queueInLoop_def queue_push_def queue_wake_def wakeup_def)
    qed (use that in auto)
    ultimately show ?thesis using that(1) by (simp add: net_life_def callbacks_def)
  qed
  then show ?thesis by (simp add: keeps_life_def)
qed

section \<open>A new connection\<close>

lemma getNextLoop_base: "pool_loops p = [] \<Longrightarrow> getNextLoop p = Inr (baseLoop p, p)"
  by (simp add: getNextLoop_def)

text \<open>Registering one more connection under the next name.\<close>

definition register :: "string \<Rightarrow> nat \<Rightarrow> TcpServer \<Rightarrow> TcpServer" where
  "register name c sv = sv\<lparr>sv_nextConnId := sv_nextConnId sv + 1, sv_connections := map_put name c (sv_connections sv)\<rparr>"

definition next_name :: "TcpServer \<Rightarrow> string" where
  "next_name sv = sv_name sv @ conn_suffix (sv_ipPort sv) (sv_nextConnId sv)"

lemma settings_names:
  assumes "settings_ok lid sv" and "map_of (sv_connections sv) name \<noteq> None"
  obtains n where "1 \<le> n" "n < sv_nextConnId sv" "name = sv_name sv @ conn_suffix (sv_ipPort sv) n"
  using assms unfolding settings_ok_def by blast

lemma next_name_new:
  assumes "settings_ok lid sv" and "sv_nextConnId sv < max_conn_id"
  shows "map_of (sv_connections sv) (next_name sv) = None"
proof (rule ccontr)
  assume "map_of (sv_connections sv) (next_name sv) \<noteq> None"
  with assms(1) obtain n where "1 \<le> n" "n < sv_nextConnId sv" "next_name sv = sv_name sv @ conn_suffix (sv_ipPort sv) n" by (rule settings_names)
  then have "1 \<le> n" "n < sv_nextConnId sv" "conn_suffix (sv_ipPort sv) (sv_nextConnId sv) = conn_suffix (sv_ipPort sv) n"
    by (simp_all add: next_name_def)
  with assms conn_suffix_inject [of "sv_ipPort sv" "sv_nextConnId sv" n] show False by (auto simp: settings_ok_def)
qed

lemma settings_ok_register:
  assumes set: "settings_ok lid sv" and new: "map_of (sv_connections sv) (next_name sv) = None"
  shows "settings_ok lid (register (next_name sv) c sv)"
proof -
  have "\<exists>k. 1 \<le> k \<and> k < sv_nextConnId sv + 1 \<and> name = sv_name sv @ conn_suffix (sv_ipPort sv) k"
    if "map_of (sv_connections (register (next_name sv) c sv)) name \<noteq> None" for name
  proof (cases "name = next_name sv")
    case True
    then show ?thesis using set by (intro exI [of _ "sv_nextConnId sv"]) (simp add: settings_ok_def next_name_def)
  next
    case False
    then have "map_of (sv_connections sv) name \<noteq> None" using that by (simp add: register_def)
    then obtain k where "1 \<le> k" "k < sv_nextConnId sv" "name = sv_name sv @ conn_suffix (sv_ipPort sv) k"
      using set unfolding settings_ok_def by blast
    then show ?thesis by (intro exI [of _ k]) simp
  qed
  then show ?thesis using set distinct_map_put [OF new] by (simp add: settings_ok_def register_def)
qed

lemma registry_ok_register:
  assumes reg: "registry_ok v {} s sv" and none: "conns s c = None" and new: "map_of (sv_connections sv) name = None"
    and tc: "tc_name tc = name" "mine v tc" "tc_state tc \<noteq> kDisconnected"
    and u: "conns u = (conns s)(c \<mapsto> tc)" "loop_id u = loop_id s" "conn_home u = (conn_home s)(c \<mapsto> (loop_id s, name))"
  shows "registry_ok v {} u (register name c sv)"
proof -
  have "map_of (sv_connections (register name c sv)) n = Some e \<longleftrightarrow>
      (\<exists>te. conns u e = Some te \<and> tc_name te = n \<and> mine v te \<and> (tc_state te \<noteq> kDisconnected \<or> e \<in> {}))" for n e
  proof (cases "e = c")
    case True
    have "map_of (sv_connections sv) m \<noteq> Some c" for m using reg none by (auto simp: registry_ok_def)
    then show ?thesis using True tc u(1) by (auto simp: register_def)
  next
    case False
    have "map_of (sv_connections sv) n = Some e \<longleftrightarrow>
        (\<exists>te. conns s e = Some te \<and> tc_name te = n \<and> mine v te \<and> (tc_state te \<noteq> kDisconnected \<or> e \<in> {}))"
      using reg by (simp add: registry_ok_def)
    moreover have "map_of (sv_connections (register name c sv)) n = Some e \<longleftrightarrow> map_of (sv_connections sv) n = Some e"
      using False new by (auto simp: register_def)
    ultimately show ?thesis using False u(1) by simp
  qed
  moreover have "conn_home u e = Some (loop_id u, tc_name te)" if "conns u e = Some te" "mine v te" for e te
    using that u tc reg by (cases "e = c") (auto simp: registry_ok_def)
  ultimately show ?thesis unfolding registry_ok_def by blast
qed

text \<open>
  \<open>newConnection\<close> up to \<open>connectEstablished\<close>: the new connection is registered under a new name, with the server's callbacks.
\<close>

lemma newConnection_registers:
  assumes ok: "server_ok v {} s" and sv: "servers s v = Some sv" and fresh: "fresh_conn c d sockfd s"
    and new: "map_of (sv_connections sv) (next_name sv) = None" and id: "sv_nextConnId sv \<noteq> 2 ^ 31 - 1"
  obtains u tc where "TcpServer_newConnection os app c d sockname v sockfd peer s = connectEstablished os app c u"
    "server_ok v {} u" "conns u = (conns s)(c \<mapsto> tc)" "tc_state tc = kConnecting" "mine v tc" "tc_name tc = next_name sv"
    "connectionCallback tc = sv_connectionCallback sv" "messageCallback tc = sv_messageCallback sv"
    "servers u = (servers s)(v \<mapsto> register (next_name sv) c sv)" "pendingFunctors u = pendingFunctors s"
    "tc_channel tc = d" "tc_socket tc = sockfd" "\<forall>e. e \<noteq> d \<longrightarrow> chans u e = chans s e" "eventHandling u = eventHandling s"
    "acceptors u = acceptors s"
proof -
  obtain set: "settings_ok (loop_id s) sv" and reg: "registry_ok v {} s sv" and life: "net_life s" and que: "queued_ok (TcpServer_removeConnection v) {} s"
    using ok sv by (auto simp: server_ok_def)
  obtain tc0 ch where init: "TcpConnection_init (loop_id s) c d (next_name sv) sockfd (getLocalAddr sockname) peer = Inr (tc0, ch)"
    and tc0: "tc_name tc0 = next_name sv" "tc_state tc0 = kConnecting" "tc_channel tc0 = d" "tc_socket tc0 = sockfd"
    by (rule TcpConnection_init_ok)
  let ?tc = "server_callbacks v sv tc0"
  have tc: "tc_name ?tc = next_name sv" "tc_state ?tc = kConnecting" "mine v ?tc"
    "connectionCallback ?tc = sv_connectionCallback sv" "messageCallback ?tc = sv_messageCallback sv" "tc_channel ?tc = d" "tc_socket ?tc = sockfd"
    using tc0 by (simp_all add: server_callbacks_def tc_setter_defs mine_def)
  let ?s1 = "put_server v (register (next_name sv) c sv) (s\<lparr>conn_home := (conn_home s)(c \<mapsto> (loop_id s, next_name sv))\<rparr>)"
  let ?s2 = "?s1\<lparr>sys := Socket_setKeepAlive sockfd True (sys s)\<rparr>"
  let ?u = "put_conn c ?tc (put_chan d ch ?s2)"
  have f: "conns s c = None" "callbacks s c = []" using fresh by (simp_all add: fresh_conn_def)
  have "put_conn c ?tc ((put_conn c tc0 (put_chan d ch ?s1))\<lparr>sys := Socket_setKeepAlive sockfd True (sys s)\<rparr>) = ?u"
    by (rule snet.equality) (simp_all add: put_conn_def put_chan_def put_server_def)
  then have run: "TcpServer_newConnection os app c d sockname v sockfd peer s = connectEstablished os app c ?u"
    using sv set init id
    by (simp add: TcpServer_newConnection_def getNextLoop_base settings_ok_def TcpConnection_ctor_def runInLoop_def
        isInLoopThread_def Let_def next_name_def register_def)
  have s2: "loop_id ?s2 = loop_id s" "net_wf ?s2"
    using net_lifeD(1) [OF life] net_wf_cong [of ?s2 s] by (simp_all add: put_server_def)
  have "fresh_conn c d sockfd ?s2" using fresh by (simp add: fresh_conn_def callbacks_def put_server_def)
  with s2(2) have wf: "net_wf ?u"
    by (rule new_conn_wf) (use init s2(1) in \<open>simp_all add: server_callbacks_def tc_setter_defs\<close>)
  have u: "conns ?u = (conns s)(c \<mapsto> ?tc)" "conn_log ?u = conn_log s" "servers ?u = (servers s)(v \<mapsto> register (next_name sv) c sv)"
    "loop_id ?u = loop_id s" "conn_home ?u = (conn_home s)(c \<mapsto> (loop_id s, next_name sv))"
    "pendingFunctors ?u = pendingFunctors s" "\<forall>e. e \<noteq> d \<longrightarrow> chans ?u e = chans s e" "eventHandling ?u = eventHandling s"
    "acceptors ?u = acceptors s"
    by (simp_all add: put_conn_def put_chan_def put_server_def)
  have "net_life ?u" using life wf u(1,2) f(2) tc(2) by (rule new_conn_life)
  moreover have "registry_ok v {} ?u (register (next_name sv) c sv)"
    by (rule registry_ok_register [OF reg f(1) new]) (use tc u in simp_all)
  moreover have "queued_ok (TcpServer_removeConnection v) {} ?u"
    by (rule queued_new [OF que f(1) u(1)]) (simp add: fun_eq_iff waiting_def put_conn_def put_chan_def put_server_def)
  ultimately have "server_ok v {} ?u" using u settings_ok_register [OF set new, of c] by (auto simp: server_ok_def)
  with run u tc show thesis by (intro that [of ?u ?tc]) simp_all
qed

section \<open>Destroying a connection\<close>

lemma dtor_server_ok:
  assumes ok: "server_ok v {} s" and out: "removed v s c" "\<not> waiting s c" and run: "TcpConnection_dtor (threadId s) c s = Inr t"
  shows "server_ok v {} t"
  using ok
proof (rule server_okD)
  fix sv
  assume sv: "servers s v = Some sv" "settings_ok (loop_id s) sv" "registry_ok v {} s sv" "net_life s" "queued_ok (TcpServer_removeConnection v) {} s"
  note t = dtor_life [OF sv(4) run]
  note h = homeD_server [OF t(3)]
  have "map_of (sv_connections sv) name \<noteq> Some c" for name
    using sv(1,3) out by (auto simp: registry_ok_def removed_def)
  then have "registry_ok v {} t sv" using sv(3) by (auto simp: registry_ok_def t(2) h)
  moreover have "queued_ok (TcpServer_removeConnection v) {} t" using sv(5) out(2) t(2,3) by (rule queued_dtor)
  ultimately show "server_ok v {} t" using sv t(1) h by (simp add: server_ok_def)
qed

section \<open>Runs of a server\<close>

text \<open>
  What happens in the loop of a server without a thread pool: events of connections, the functors that wait in the loop's queue, in their order, accepted connections,
  and the destruction of connections to which neither the server nor a queued functor has a pointer any more. \<open>connectDestroyed\<close> is run only from the queue; of
  the other functors any may also be run at any time.
\<close>

inductive server_step :: "os \<Rightarrow> (app_call \<Rightarrow> 'm snet_scheme \<Rightarrow> api_call list) \<Rightarrow> nat \<Rightarrow> 'm snet_scheme \<Rightarrow> 'm snet_scheme \<Rightarrow> bool"
  for os :: os and app :: "app_call \<Rightarrow> 'm snet_scheme \<Rightarrow> api_call list" and v :: nat where
  sv_event: "event_ok ev \<Longrightarrow> (\<forall>c. ev \<noteq> Ev_functor (Fn_connectDestroyed c)) \<Longrightarrow>
    conn_event os app server_on_close ev s = Inr t \<Longrightarrow> server_step os app v s t"
| sv_functor: "pendingFunctors s = Some f # fs \<Longrightarrow> functor_ok f \<Longrightarrow>
    conn_functor os app server_on_close f (s\<lparr>pendingFunctors := fs\<rparr>) = Inr t \<Longrightarrow> server_step os app v s t"
| sv_accept: "servers s v = Some sv \<Longrightarrow> sv_nextConnId sv < max_conn_id \<Longrightarrow> fresh_conn c d sockfd s \<Longrightarrow>
    TcpServer_newConnection os app c d sockname v sockfd peer s = Inr t \<Longrightarrow> server_step os app v s t"
| sv_destroy: "removed v s c \<Longrightarrow> \<not> waiting s c \<Longrightarrow> TcpConnection_dtor (threadId s) c s = Inr t \<Longrightarrow> server_step os app v s t"

text \<open>A server that has not yet accepted a connection.\<close>

definition server_start :: "nat \<Rightarrow> 'm snet_scheme \<Rightarrow> bool" where
  "server_start v s \<longleftrightarrow> net_wf s \<and> (\<forall>c. conns s c = None) \<and> (\<forall>c. \<not> waiting s c) \<and>
     (\<exists>sv. servers s v = Some sv \<and> sv_connections sv = [] \<and>
       sv_nextConnId sv = 1 \<and> length (sv_ipPort sv) \<le> 53 \<and> pool_loops (sv_pool sv) = [] \<and> baseLoop (sv_pool sv) = loop_id s)"

lemma server_start_ok: "server_start v s \<Longrightarrow> server_ok v {} s"
  by (auto simp: server_start_def server_ok_def net_life_def settings_ok_def registry_ok_def queued_ok_def)

text \<open>The head of the queue is taken; if it is \<open>connectDestroyed\<close>, its connection is no longer in the map.\<close>

lemma server_ok_pop:
  assumes ok: "server_ok v {} s" and q: "pendingFunctors s = Some f # fs"
  shows "server_ok v {} (s\<lparr>pendingFunctors := fs\<rparr>)" and "f = Fn_connectDestroyed c \<Longrightarrow> removed v (s\<lparr>pendingFunctors := fs\<rparr>) c"
proof -
  let ?t = "s\<lparr>pendingFunctors := fs\<rparr>"
  obtain sv where sv: "servers s v = Some sv" "registry_ok v {} s sv" "net_life s" "queued_ok (TcpServer_removeConnection v) {} s"
    using ok by (auto simp: server_ok_def)
  note pop = queued_pop [OF sv(4) q]
  show "server_ok v {} ?t" by (rule server_ok_cong [OF _ _ _ _ _ ok]) (use sv(3) pop(1) in simp_all)
  show "removed v ?t c" if "f = Fn_connectDestroyed c"
    using that pop(2) [of c] sv(1,2) by (auto simp: removed_def registry_ok_def mine_def)
qed

lemma server_step_ok:
  assumes os: "os_documented os" and step: "server_step os app v s t" and ok: "server_ok v {} s"
  shows "server_ok v {} t"
  using step
proof cases
  case (sv_event ev)
  then show ?thesis by (intro server_conns.conn_event_inv [OF ok os, of ev]) simp_all
next
  case (sv_functor f fs)
  show ?thesis
    by (rule server_conns.conn_functor_inv [OF server_ok_pop(1) [OF ok sv_functor(1)] os sv_functor(2) _ _ sv_functor(3)])
      (use server_ok_pop(2) [OF ok sv_functor(1)] in blast)+
next
  case (sv_accept sv c d sockfd sockname peer)
  have "settings_ok (loop_id s) sv" using ok sv_accept(1) by (simp add: server_ok_def)
  then have "map_of (sv_connections sv) (next_name sv) = None" using sv_accept(2) by (rule next_name_new)
  moreover have "sv_nextConnId sv \<noteq> 2 ^ 31 - 1" using sv_accept(2) by (simp add: max_conn_id_def)
  ultimately obtain u where "server_ok v {} u"
    "TcpServer_newConnection os app c d sockname v sockfd peer s = connectEstablished os app c u"
    by (rule newConnection_registers [OF ok sv_accept(1,3), where os = os and app = app and sockname = sockname and peer = peer])
  with sv_accept(4) show ?thesis by (intro server_conns.connectEstablished_inv [OF _ os, of v u app c t]) simp_all
next
  case (sv_destroy c)
  then show ?thesis using ok dtor_server_ok by blast
qed

lemma server_invariant:
  "os_documented os \<Longrightarrow> inductive_invariant (server_start v) (server_step os app v) (server_ok v {})"
  by unfold_locales (auto intro: server_start_ok server_step_ok)

section \<open>Properties\<close>

text \<open>
  C6. The registry of a server. Whatever connections it accepts, in whatever order they are read, written, closed by
  either side and destroyed, and whatever user code does: at every moment \<open>connections_\<close> has exactly the
  connections that are not closed, each under its own name and once, and every connection has told the user what its state says.
\<close>

theorem server_registry:
  assumes "os_documented os" and "reachable_from (server_start v) (server_step os app v) s" and "servers s v = Some sv"
  shows "net_life s \<and>
    (\<forall>name c. map_of (sv_connections sv) name = Some c \<longleftrightarrow>
       (\<exists>tc. conns s c = Some tc \<and> tc_name tc = name \<and> mine v tc \<and> tc_state tc \<noteq> kDisconnected))"
  using inductive_invariant.reachable_inv [OF server_invariant [OF assms(1)] assms(2)] assms(3)
  by (auto simp: server_ok_def registry_ok_def)

text \<open>
  C12. Closing a connection of a server. When an open connection of a reachable state closes, its user callback is run on the closed
  connection; if that returns, the server finds the connection in its map (the assertion of \<open>removeConnectionInLoop\<close>
  holds), removes it and queues \<open>connectDestroyed\<close>. \<open>handleClose\<close> fails only if user code does.
\<close>

theorem server_close:
  assumes "os_documented os" and "reachable_from (server_start v) (server_step os app v) s"
    and "conns s c = Some tc" and "mine v tc" and "tc_state tc = kConnected \<or> tc_state tc = kDisconnecting"
  shows "\<exists>u. conns u = (conns s)(c \<mapsto> setState kDisconnected tc) \<and> home u = home s \<and>
    (case call_connectionCallback os app c u of
       Inl e \<Rightarrow> handleClose os app server_on_close c s = Inl e
     | Inr w \<Rightarrow> \<exists>t sv. handleClose os app server_on_close c s = Inr t \<and> servers t v = Some sv \<and>
         map_of (sv_connections sv) (tc_name tc) = None \<and>
         pendingFunctors t = pendingFunctors w @ [Some (Fn_connectDestroyed c)])"
proof -
  have ok: "server_ok v {} s" using inductive_invariant.reachable_inv [OF server_invariant [OF assms(1)] assms(2)] .
  note wf = server_conns.inv_wf [OF ok]
  from wf assms(3) obtain u where u: "disableAll (tc_channel tc) (put_conn c (setState kDisconnected tc) s) = Inr u"
    "net_wf u" "conns u = (conns s)(c \<mapsto> setState kDisconnected tc)" "conn_log u = conn_log s" "home u = home s"
    by (rule close_frame)
  have split: "handleClose os app server_on_close c s = rbind (call_connectionCallback os app c u) (\<lambda>w.
      with_conn c w (\<lambda>tw. case tc_closeCallback tw of None \<Rightarrow> Inl Bad_function_call | Some cb \<Rightarrow> server_on_close cb c w))"
    using u(1) assms(3,5) by (auto simp: handleClose_def)
  show ?thesis
  proof (cases "call_connectionCallback os app c u")
    case (Inl e)
    then show ?thesis using u split by (intro exI [of _ u]) simp
  next
    case (Inr w)
    let ?u = "u\<lparr>conn_log := conn_log u @ [(c, False)]\<rparr>"
    have "server_ok v {c} ?u" using u by (intro server_conns.inv_down [OF ok assms(3,5)]) simp_all
    moreover from u(2) assms(1) Inr have fr: "api_frame ?u w"
      by (rule call_connectionCallback_frame) (use u(3) in \<open>auto simp: connected_def setState_def\<close>)
    ultimately have w: "server_ok v {c} w" by (rule server_conns.inv_frame)
    obtain tw where tw: "conns w c = Some tw" "conn_frame (setState kDisconnected tc) tw"
      using api_frameD(4) [OF fr, of c "setState kDisconnected tc"] u(3) by auto
    then have st: "tc_state tw = kDisconnected" "mine v tw" "tc_name tw = tc_name tc"
      using assms(4) by (auto simp: conn_frame_def setState_def mine_def)
    from w tw(1) st(1,2) obtain sv where
      "server_on_close (TcpServer_removeConnection v) c w =
         Inr (queueInLoop (threadId w) (Some (Fn_connectDestroyed c))
           (put_server v (sv\<lparr>sv_connections := map_erase (tc_name tw) (sv_connections sv)\<rparr>) w))"
      by (rule removal_ok)
    then show ?thesis using u split Inr tw(1) st by (intro exI [of _ u]) (simp add: mine_def)
  qed
qed

text \<open>
  C40. The names of connections. A server that listens on any IPv4 or IPv6 address (at most 53 characters of text)
  gives its first 99999999 connections different names; \<open>char buf[64]\<close> does not cut them. One more, and on the
  longest addresses two connections can have the same name.
\<close>

theorem server_names:
  assumes "length (sv_ipPort sv) \<le> 53" and "1 \<le> m" "m < max_conn_id" and "1 \<le> n" "n < max_conn_id"
  shows "conn_suffix (sv_ipPort sv) n = ''-'' @ sv_ipPort sv @ ''#'' @ show_int n \<and>
    (next_name (sv\<lparr>sv_nextConnId := m\<rparr>) = next_name (sv\<lparr>sv_nextConnId := n\<rparr>) \<longleftrightarrow> m = n) \<and>
    (length (sv_ipPort sv) = 53 \<longrightarrow> conn_suffix (sv_ipPort sv) max_conn_id = conn_suffix (sv_ipPort sv) (max_conn_id + 1))"
proof (intro conjI impI)
  show "conn_suffix (sv_ipPort sv) n = ''-'' @ sv_ipPort sv @ ''#'' @ show_int n"
    using conn_suffix_exact [OF assms(1), of n] assms(4,5) by (simp add: show_int_pos)
  show "next_name (sv\<lparr>sv_nextConnId := m\<rparr>) = next_name (sv\<lparr>sv_nextConnId := n\<rparr>) \<longleftrightarrow> m = n"
    using conn_suffix_inject [OF assms(1), of m n] assms by (auto simp: next_name_def)
  have "show_int max_conn_id = ''100000000''" "show_int (max_conn_id + 1) = ''100000001''"
    by (simp_all add: show_int_def max_conn_id_def show_nat.simps)
  then show "conn_suffix (sv_ipPort sv) max_conn_id = conn_suffix (sv_ipPort sv) (max_conn_id + 1)"
    if "length (sv_ipPort sv) = 53"
    using that by (simp add: conn_suffix_def)
qed

text \<open>
  \<open>started_\<close> decides whether \<open>start()\<close> does anything, and the constructor leaves it as it found it.
\<close>

lemma start_needs_zero:
  assumes "servers s v = Some sv" and "sv_started sv \<noteq> 0"
  shows "TcpServer_start loop_of tid v s = Inr (put_server v (sv\<lparr>sv_started := sv_started sv + 1\<rparr>) s)"
  using assms by (simp add: TcpServer_start_def Let_def)

section \<open>Witnesses\<close>

definition sample_server :: TcpServer where
  "sample_server =
     \<lparr>sv_ipPort = ''127.0.0.1:8080'', sv_name = ''s'', sv_acceptor = 0, sv_pool = EventLoopThreadPool_ctor 7 ''s'',
      sv_connectionCallback = Some defaultConnectionCallback, sv_messageCallback = Some defaultMessageCallback,
      sv_writeCompleteCallback = None, sv_threadInitCallback = False, sv_started = 1, sv_nextConnId = 1, sv_connections = []\<rparr>"

definition sample_snet :: snet where
  "sample_snet = anet.extend sample_anet \<lparr>servers = [0 \<mapsto> sample_server], conn_home = Map.empty, remote = (\<lambda>_. [])\<rparr>"

definition idle_app :: "app_call \<Rightarrow> snet \<Rightarrow> api_call list" where
  "idle_app call s = []"

lemma sample_snet_fields:
  "chans sample_snet = chans sample_loop" "channels sample_snet = channels sample_loop"
  "epoll_log sample_snet = epoll_log sample_loop" "loop_id sample_snet = 7" "conns sample_snet = Map.empty"
  "servers sample_snet = [0 \<mapsto> sample_server]" "conn_log sample_snet = []" "threadId sample_snet = 3" "pendingFunctors sample_snet = []"
  by (simp_all add: sample_snet_def sample_anet_def bare_net_def anet.defs net.defs tloop.defs sample_timers_def loop.defs
      sample_loop_eq)

lemma sample_snet_start: "server_start 0 sample_snet"
proof -
  have "loop_id sample_loop = 7" by (simp add: sample_loop_eq)
  then have "loop_wf sample_snet"
    using sample_loop_wf loop_wf_transfer [of sample_snet sample_loop] by (simp add: sample_snet_fields)
  then have "net_wf sample_snet" by (simp add: net_wf_def sample_snet_fields)
  then show ?thesis
    by (simp add: server_start_def waiting_def sample_snet_fields sample_server_def EventLoopThreadPool_ctor_def)
qed

lemma sample_fresh: "fresh_conn 9 2 8 sample_snet"
  by (simp add: fresh_conn_def sample_snet_fields callbacks_def sample_loop_eq)

lemma sample_accept:
  obtains t tc where "reachable_from (server_start 0) (server_step sample_os idle_app 0) t" "conns t 9 = Some tc" "mine 0 tc"
    "tc_state tc = kConnected \<or> tc_state tc = kDisconnecting" "tc_name tc = ''s-127.0.0.1:8080#1''"
    "connectionCallback tc = Some defaultConnectionCallback"
proof -
  let ?new = "TcpServer_newConnection sample_os idle_app 9 2 (Inr zero_addr) 0 8 zero_addr sample_snet"
  have start: "reachable_from (server_start 0) (server_step sample_os idle_app 0) sample_snet"
    using sample_snet_start by (rule reach_init)
  have sv: "servers sample_snet 0 = Some sample_server" by (simp add: sample_snet_fields)
  have id: "sv_nextConnId sample_server < max_conn_id" by (simp add: sample_server_def max_conn_id_def)
  have "\<not> isl ?new" by code_simp
  then obtain t where t: "?new = Inr t" by (metis sum.collapse(2))
  have reach: "reachable_from (server_start 0) (server_step sample_os idle_app 0) t"
    using start sv_accept [OF sv id sample_fresh t] by (rule reach_step)
  obtain u tc where u: "?new = connectEstablished sample_os idle_app 9 u" "server_ok 0 {} u" "conns u = (conns sample_snet)(9 \<mapsto> tc)"
    and tc: "mine 0 tc" "tc_name tc = next_name sample_server" "connectionCallback tc = sv_connectionCallback sample_server"
    by (rule newConnection_registers [OF server_start_ok [OF sample_snet_start] sv sample_fresh]) (simp_all add: sample_server_def)
  from server_conns.inv_wf [OF u(2)] sample_os_ok u(1) [symmetric, unfolded t] show thesis
  proof (rule connectEstablished_cases)
    fix tc1 w
    assume w: "conns u 9 = Some tc1" "conns w = (conns u)(9 \<mapsto> setState kConnected tc1)" "api_frame w t"
    then obtain td where td: "conns t 9 = Some td" "conn_frame (setState kConnected tc1) td"
      using api_frameD(4) [OF w(3), of 9 "setState kConnected tc1"] by auto
    moreover have "tc1 = tc" using w(1) u(3) by simp
    moreover have "next_name sample_server = ''s-127.0.0.1:8080#1''"
      by (simp add: next_name_def sample_server_def conn_suffix_def show_int_def show_nat.simps)
    ultimately show thesis using reach tc
      by (intro that [of t td]) (auto simp: conn_frame_def setState_def mine_def sample_server_def)
  qed
qed

theorem server_registry_witness:
  "os_documented sample_os \<and>
   (\<exists>s sv. reachable_from (server_start 0) (server_step sample_os idle_app 0) s \<and> servers s 0 = Some sv \<and>
      map_of (sv_connections sv) ''s-127.0.0.1:8080#1'' = Some 9)"
proof (rule sample_accept)
  fix s tc
  assume s: "reachable_from (server_start 0) (server_step sample_os idle_app 0) s" "conns s 9 = Some tc" "mine 0 tc"
    "tc_state tc = kConnected \<or> tc_state tc = kDisconnecting" "tc_name tc = ''s-127.0.0.1:8080#1''"
  obtain sv where sv: "servers s 0 = Some sv"
    using inductive_invariant.reachable_inv [OF server_invariant [OF sample_os_ok] s(1)] by (auto simp: server_ok_def)
  have "\<forall>name c. map_of (sv_connections sv) name = Some c \<longleftrightarrow>
       (\<exists>tc. conns s c = Some tc \<and> tc_name tc = name \<and> mine 0 tc \<and> tc_state tc \<noteq> kDisconnected)"
    using server_registry [OF sample_os_ok s(1) sv] by blast
  with s(2-5) have "map_of (sv_connections sv) ''s-127.0.0.1:8080#1'' = Some 9" by auto
  with s(1) sv sample_os_ok show ?thesis by blast
qed

theorem server_close_witness:
  "os_documented sample_os \<and>
   (\<exists>s t sv tc. reachable_from (server_start 0) (server_step sample_os idle_app 0) s \<and> conns s 9 = Some tc \<and>
      handleClose sample_os idle_app server_on_close 9 s = Inr t \<and> servers t 0 = Some sv \<and>
      map_of (sv_connections sv) (tc_name tc) = None)"
proof (rule sample_accept)
  fix s tc
  assume s: "reachable_from (server_start 0) (server_step sample_os idle_app 0) s" "conns s 9 = Some tc" "mine 0 tc"
    "tc_state tc = kConnected \<or> tc_state tc = kDisconnecting" "connectionCallback tc = Some defaultConnectionCallback"
  obtain u where u: "conns u = (conns s)(9 \<mapsto> setState kDisconnected tc)"
    "case call_connectionCallback sample_os idle_app 9 u of
       Inl e \<Rightarrow> handleClose sample_os idle_app server_on_close 9 s = Inl e
     | Inr w \<Rightarrow> \<exists>t sv. handleClose sample_os idle_app server_on_close 9 s = Inr t \<and> servers t 0 = Some sv \<and>
         map_of (sv_connections sv) (tc_name tc) = None \<and> pendingFunctors t = pendingFunctors w @ [Some (Fn_connectDestroyed 9)]"
    using server_close [OF sample_os_ok s(1-4)] by blast
  have "\<exists>w. call_connectionCallback sample_os idle_app 9 u = Inr w"
    using u(1) s(5) by (simp add: call_connectionCallback_def setState_def Let_def)
  with u(2) obtain t sv where "handleClose sample_os idle_app server_on_close 9 s = Inr t" "servers t 0 = Some sv"
    "map_of (sv_connections sv) (tc_name tc) = None"
    by auto
  with s(1,2) sample_os_ok show ?thesis by blast
qed

theorem server_names_witness:
  "length (sv_ipPort sample_server) \<le> 53 \<and> conn_suffix (sv_ipPort sample_server) 12 = ''-127.0.0.1:8080#12'' \<and>
   next_name (sample_server\<lparr>sv_nextConnId := 1\<rparr>) \<noteq> next_name (sample_server\<lparr>sv_nextConnId := 12\<rparr>)"
proof -
  have len: "length (sv_ipPort sample_server) \<le> 53" by (simp add: sample_server_def)
  have "show_int 12 = ''12''" by (simp add: show_int_def show_nat.simps)
  with server_names [OF len, of 1 12] len show ?thesis by (simp add: max_conn_id_def sample_server_def)
qed

end
