(* ===== verification/Siren_PoolServer.thy ===== *)
theory Siren_PoolServer
  imports Siren_Server
begin

text \<open>
  A server with a pool of threads: \<open>src/net/TcpServer.cpp\<close> once more, as several loops that run at the same time.

  The base loop accepts connections and keeps \<open>connections_\<close>; the connections live in the loops of the pool. What the base loop
  hands to another loop is the queue \<open>remote\<close> of \<open>Siren_Server\<close>; what a loop of the pool hands to the base loop, the functors of
  \<open>TcpServer::removeConnection\<close>, is its queue \<open>outbox\<close>. \<open>pool_step\<close> interleaves the steps of all loops in any
  order: a connection arrives in its loop, a functor is run, a connection has an event, a removal is executed in the base loop, a connection
  without owner is destroyed.

  Both kinds of queues are \<open>pendingFunctors_\<close> of the receiving loop, to which \<open>EventLoop::queueInLoop\<close> appends without holding the mutex (it locks a
  temporary of its own). Two threads that are at the same \<open>pendingFunctors_\<close> at once therefore race, and the source then promises nothing: the step \<open>ps_race\<close>, possible at
  any time, leads to any state at all and marks it as \<open>raced\<close> for good. The theorems are about the states of the runs in which this has not happened.
\<close>

section \<open>State\<close>

record ionet = net +
  outbox :: "closure list"

text \<open>\<open>TcpServer::removeConnection\<close> from the thread of another loop: \<open>runInLoop\<close> of the base loop queues.\<close>

fun io_on_close :: "close_cb \<Rightarrow> nat \<Rightarrow> 'm ionet_scheme \<Rightarrow> 'm ionet_scheme result" where
  "io_on_close (TcpServer_removeConnection v) c s = Inr (s\<lparr>outbox := outbox s @ [Fn_removeConnectionInLoop v c]\<rparr>)"
| "io_on_close _ c s = Inr s"

record cluster =
  base :: snet
  ios :: "nat \<Rightarrow> ionet"
  raced :: bool

section \<open>Messages between the loops\<close>

definition arriving :: "remote_msg list \<Rightarrow> nat set" where
  "arriving ms = {c. \<exists>tc ch. Rm_connection c tc ch \<in> set ms}"

definition starting :: "remote_msg list \<Rightarrow> nat set" where
  "starting ms = {c. Rm_functor (Fn_connectEstablished c) \<in> set ms}"

definition ending :: "remote_msg list \<Rightarrow> nat set" where
  "ending ms = {c. Rm_functor (Fn_connectDestroyed c) \<in> set ms}"

lemma arriving_simps [simp]:
  "arriving [] = {}" "arriving (Rm_connection c tc ch # ms) = insert c (arriving ms)" "arriving (Rm_functor f # ms) = arriving ms"
  "arriving (ms @ ns) = arriving ms \<union> arriving ns"
  by (auto simp: arriving_def)

lemma starting_simps [simp]:
  "starting [] = {}" "starting (Rm_connection c tc ch # ms) = starting ms"
  "starting (Rm_functor (Fn_connectEstablished c) # ms) = insert c (starting ms)"
  "starting (Rm_functor (Fn_connectDestroyed c) # ms) = starting ms" "starting (ms @ ns) = starting ms \<union> starting ns"
  by (auto simp: starting_def)

lemma ending_simps [simp]:
  "ending [] = {}" "ending (Rm_connection c tc ch # ms) = ending ms"
  "ending (Rm_functor (Fn_connectDestroyed c) # ms) = insert c (ending ms)"
  "ending (Rm_functor (Fn_connectEstablished c) # ms) = ending ms" "ending (ms @ ns) = ending ms \<union> ending ns"
  by (auto simp: ending_def)

text \<open>A connection arrives once, and its \<open>connectEstablished\<close> comes once and after it.\<close>

definition fits :: "remote_msg \<Rightarrow> remote_msg list \<Rightarrow> bool" where
  "fits m ms \<longleftrightarrow> (\<forall>c. m = Rm_functor (Fn_connectEstablished c) \<longrightarrow> c \<notin> starting ms \<and> c \<notin> arriving ms) \<and>
     (\<forall>c tc ch. m = Rm_connection c tc ch \<longrightarrow> c \<notin> arriving ms)"

fun in_order :: "remote_msg list \<Rightarrow> bool" where
  "in_order [] = True"
| "in_order (m # ms) = (fits m ms \<and> in_order ms)"

lemma fits_append [simp]: "fits m (ms @ ns) \<longleftrightarrow> fits m ms \<and> fits m ns"
  by (auto simp: fits_def)

lemma in_order_append: "in_order (ms @ ns) \<longleftrightarrow> in_order ms \<and> in_order ns \<and> (\<forall>m\<in>set ms. fits m ns)"
  by (induction ms) auto

section \<open>The invariant\<close>

text \<open>The server still has a pointer to the connection.\<close>

definition listed :: "nat \<Rightarrow> 'm snet_scheme \<Rightarrow> nat \<Rightarrow> bool" where
  "listed v b c \<longleftrightarrow> (\<exists>sv i name. servers b v = Some sv \<and> conn_home b c = Some (i, name) \<and>
     map_of (sv_connections sv) name = Some c)"

definition homed :: "'m snet_scheme \<Rightarrow> nat \<Rightarrow> nat set" where
  "homed b i = {c. \<exists>name. conn_home b c = Some (i, name)}"

text \<open>
  What loop \<open>i\<close>, in the state \<open>s\<close>, and the base loop, in the state \<open>b\<close>, know of a connection \<open>c\<close>. \<open>X\<close> are the connections that
  are closed while their closing callback has not yet been called.
\<close>

definition conn_view :: "nat \<Rightarrow> 'n snet_scheme \<Rightarrow> nat \<Rightarrow> nat set \<Rightarrow> 'm ionet_scheme \<Rightarrow> nat \<Rightarrow> bool" where
  "conn_view v b i X s c \<longleftrightarrow>
     (let leaving = (Fn_removeConnectionInLoop v c \<in> set (outbox s)); q = remote b i in
      case conns s c of
        None \<Rightarrow> \<not> leaving \<and> (listed v b c \<longrightarrow> c \<in> homed b i \<longrightarrow> c \<in> arriving q) \<and> (c \<in> starting q \<longrightarrow> c \<in> arriving q) \<and>
          c \<notin> ending q \<and> (c \<notin> homed b i \<or> c \<in> arriving q \<longrightarrow> callbacks s c = [])
      | Some tc \<Rightarrow> mine v tc \<and> conn_home b c = Some (i, tc_name tc) \<and> c \<notin> arriving q \<and>
          (tc_state tc \<noteq> kDisconnected \<or> c \<in> X \<longrightarrow> listed v b c) \<and>
          (leaving \<longleftrightarrow> listed v b c \<and> tc_state tc = kDisconnected \<and> c \<notin> X) \<and>
          (c \<in> starting q \<longrightarrow> tc_state tc = kConnecting) \<and> (c \<in> ending q \<longrightarrow> \<not> listed v b c))"

definition io_ok :: "nat \<Rightarrow> 'n snet_scheme \<Rightarrow> nat \<Rightarrow> nat set \<Rightarrow> 'm ionet_scheme \<Rightarrow> bool" where
  "io_ok v b i X s \<longleftrightarrow> net_life s \<and> loop_id s = i \<and> distinct (outbox s) \<and>
     (\<forall>f\<in>set (outbox s). \<exists>c. f = Fn_removeConnectionInLoop v c) \<and> (\<forall>c. conn_view v b i X s c)"

definition msg_ok :: "nat \<Rightarrow> 'n snet_scheme \<Rightarrow> nat \<Rightarrow> remote_msg \<Rightarrow> bool" where
  "msg_ok v b i m \<longleftrightarrow>
     (case m of
        Rm_connection c tc ch \<Rightarrow> mine v tc \<and> conn_home b c = Some (i, tc_name tc) \<and> new_pair i tc ch \<and> listed v b c
      | Rm_functor f \<Rightarrow> \<exists>c. f = Fn_connectEstablished c \<or> f = Fn_connectDestroyed c)"

definition queue_ok :: "nat \<Rightarrow> 'n snet_scheme \<Rightarrow> nat \<Rightarrow> bool" where
  "queue_ok v b i \<longleftrightarrow> in_order (remote b i) \<and> (\<forall>m\<in>set (remote b i). msg_ok v b i m)"

definition pool_settings :: "'n snet_scheme \<Rightarrow> TcpServer \<Rightarrow> bool" where
  "pool_settings b sv \<longleftrightarrow> pool_loops (sv_pool sv) \<noteq> [] \<and> loop_id b \<notin> set (pool_loops (sv_pool sv)) \<and>
     1 \<le> sv_nextConnId sv \<and> length (sv_ipPort sv) \<le> 53 \<and>
     (\<forall>c i name. conn_home b c = Some (i, name) \<longrightarrow> i \<in> set (pool_loops (sv_pool sv)) \<and>
        (\<exists>n. 1 \<le> n \<and> n < sv_nextConnId sv \<and> name = sv_name sv @ conn_suffix (sv_ipPort sv) n)) \<and>
     (\<forall>c i d j name. conn_home b c = Some (i, name) \<longrightarrow> conn_home b d = Some (j, name) \<longrightarrow> c = d) \<and>
     (\<forall>name c. map_of (sv_connections sv) name = Some c \<longrightarrow> (\<exists>i. conn_home b c = Some (i, name)))"

definition pool_ok :: "nat \<Rightarrow> cluster \<Rightarrow> bool" where
  "pool_ok v w \<longleftrightarrow> (\<exists>sv. servers (base w) v = Some sv \<and> pool_settings (base w) sv) \<and>
     (\<forall>i. io_ok v (base w) i {} (ios w i) \<and> queue_ok v (base w) i)"

section \<open>Events in a loop of the pool\<close>

lemma homeD_outbox:
  fixes s t :: "'m ionet_scheme"
  assumes "home t = home s"
  shows "outbox t = outbox s"
proof -
  have "net.more t = net.more s" using assms by (rule homeD)
  then show ?thesis by (cases s, cases t) (simp add: net.defs)
qed

lemma conn_viewD:
  assumes "conn_view v b i X s c" and "conns s c = Some tc"
  shows "mine v tc" "conn_home b c = Some (i, tc_name tc)" "c \<notin> arriving (remote b i)"
    "tc_state tc \<noteq> kDisconnected \<or> c \<in> X \<Longrightarrow> listed v b c"
    "Fn_removeConnectionInLoop v c \<in> set (outbox s) \<longleftrightarrow> listed v b c \<and> tc_state tc = kDisconnected \<and> c \<notin> X"
    "c \<in> starting (remote b i) \<Longrightarrow> tc_state tc = kConnecting" "c \<in> ending (remote b i) \<Longrightarrow> \<not> listed v b c"
  using assms by (simp_all add: conn_view_def Let_def)

lemma conn_view_frame:
  assumes "conn_view v b i X s c" and "rel_option conn_frame (conns s c) (conns t c)"
    and "outbox t = outbox s" and "callbacks t c = callbacks s c"
  shows "conn_view v b i X t c"
  using assms by (cases "conns s c"; cases "conns t c") (auto simp: conn_view_def Let_def conn_frame_def mine_def)

lemma conn_view_transition:
  assumes "conn_view v b i X s c" and "conns s c = Some tc" and "conns t c = Some (setState st tc)" and "outbox t = outbox s"
    and "tc_state tc \<noteq> kDisconnected" and "c \<notin> starting (remote b i) \<or> st = kConnecting" and "st = kDisconnected \<Longrightarrow> c \<in> Y"
  shows "conn_view v b i Y t c"
  using assms by (auto simp: conn_view_def Let_def setState_def mine_def)

lemma conn_view_set:
  assumes "conn_view v b i X s c" and "c \<in> X \<longleftrightarrow> c \<in> Y"
  shows "conn_view v b i Y s c"
  using assms by (auto simp: conn_view_def Let_def split: option.splits)

lemma io_ok_frame:
  assumes ok: "io_ok v b i X s" and fr: "api_frame s t"
  shows "io_ok v b i X t"
proof -
  note h = api_frameD(3) [OF fr]
  have "conn_view v b i X t c" for c
    by (rule conn_view_frame [of v b i X s c t])
      (use ok fr in \<open>simp_all add: io_ok_def api_frame_def callbacks_def homeD_outbox [OF h]\<close>)
  then show ?thesis using ok homeD_outbox [OF h] homeD(2) [OF h] frame_life [OF _ fr] by (simp add: io_ok_def)
qed

lemma io_ok_transition:
  assumes ok: "io_ok v b i {} s" and tc: "conns s c = Some tc" and wf: "net_wf u"
    and u: "conns u = (conns s)(c \<mapsto> setState st tc)" "conn_log u = conn_log s @ [(c, st = kConnected)]" "home u = home s"
    and st: "seen st = seen (tc_state tc) @ [st = kConnected]" and opn: "tc_state tc \<noteq> kDisconnected"
    and start: "c \<notin> starting (remote b i)" and X: "X = (if st = kDisconnected then {c} else {})"
  shows "io_ok v b i X u"
proof -
  have "conn_view v b i X u d" for d
  proof (cases "d = c")
    case True
    show ?thesis
      by (rule conn_view_transition [of v b i "{}" s d tc u st])
        (use True ok tc u opn start X homeD_outbox [OF u(3)] in \<open>simp_all add: io_ok_def\<close>)
  next
    case False
    have "conn_view v b i X s d" by (rule conn_view_set [of v b i "{}" s d]) (use False ok X in \<open>simp_all add: io_ok_def\<close>)
    then show ?thesis
      by (rule conn_view_frame [of v b i X s d])
        (use u False homeD_outbox [OF u(3)] in \<open>simp_all add: callbacks_def option.rel_refl\<close>)
  qed
  moreover have "net_life u" using ok tc wf u(1,2) st by (intro transition_life [of s c tc u st]) (simp_all add: io_ok_def)
  ultimately show ?thesis using ok homeD_outbox [OF u(3)] homeD(2) [OF u(3)] by (simp add: io_ok_def)
qed

lemma outbox_upd [simp]:
  "net_life (s\<lparr>outbox := fs\<rparr>) = net_life s"
  using net_wf_cong [of "s\<lparr>outbox := fs\<rparr>" s] by (simp add: net_life_def callbacks_def)

lemma io_ok_close:
  assumes ok: "io_ok v b i {c} s" and tc: "conns s c = Some tc" "tc_state tc = kDisconnected" "tc_closeCallback tc = Some cb"
    and run: "io_on_close cb c s = Inr t"
  shows "io_ok v b i {} t"
proof -
  let ?f = "Fn_removeConnectionInLoop v c"
  have view: "conn_view v b i {c} s d" for d using ok by (simp add: io_ok_def)
  note c = conn_viewD [OF view tc(1)]
  have t: "t = s\<lparr>outbox := outbox s @ [?f]\<rparr>" using run c(1) tc(3) by (simp add: mine_def)
  have "conn_view v b i {} t d" for d
  proof (cases "d = c")
    case True
    then show ?thesis using c tc(1,2) by (auto simp add: conn_view_def t Let_def)
  next
    case False
    then show ?thesis using view [of d] by (auto simp: conn_view_def t callbacks_def Let_def split: option.splits)
  qed
  then show ?thesis using ok c(5) by (simp add: io_ok_def t)
qed

interpretation pool_conns: conn_invariant "io_ok v b i" io_on_close "\<lambda>s c. \<not> listed v b c" "\<lambda>c. c \<notin> starting (remote b i)"
  for v :: nat and b :: "'n snet_scheme" and i :: nat
proof
  show "net_wf s" if "io_ok v b i X s" for X and s :: "'m ionet_scheme"
    using that net_lifeD(1) by (auto simp: io_ok_def)
  show "io_ok v b i X t" if "io_ok v b i X s" "api_frame s t" for X and s t :: "'m ionet_scheme"
    using that by (rule io_ok_frame)
  show "io_ok v b i {} u" if "io_ok v b i {} s" "c \<notin> starting (remote b i)" "conns s c = Some tc" "tc_state tc = kConnecting" "net_wf u"
    "conns u = (conns s)(c \<mapsto> setState kConnected tc)" "conn_log u = conn_log s @ [(c, True)]" "home u = home s"
    for s u :: "'m ionet_scheme" and c tc
    by (rule io_ok_transition [OF that(1,3,5,6) _ that(8)]) (use that in \<open>simp_all add: seen_def\<close>)
  show "io_ok v b i {c} u" if "io_ok v b i {} s" "conns s c = Some tc" "tc_state tc = kConnected \<or> tc_state tc = kDisconnecting" "net_wf u"
    "conns u = (conns s)(c \<mapsto> setState kDisconnected tc)" "conn_log u = conn_log s @ [(c, False)]" "home u = home s"
    for s u :: "'m ionet_scheme" and c tc
  proof -
    have "conn_view v b i {} s c" using that(1) by (simp add: io_ok_def)
    then have "c \<notin> starting (remote b i)" using that(2,3) conn_viewD(6) by fastforce
    then show ?thesis by (intro io_ok_transition [OF that(1,2,4,5) _ that(7)]) (use that in \<open>auto simp: seen_def\<close>)
  qed
  show "io_ok v b i {} t" if "io_ok v b i {c} s" "conns s c = Some tc" "tc_state tc = kDisconnected"
    "tc_closeCallback tc = Some cb" "io_on_close cb c s = Inr t" for s t :: "'m ionet_scheme" and c tc cb
    using that by (rule io_ok_close)
  show "io_ok v b i {} s" if "io_ok v b i {c} s" "conns s c = Some tc" "\<not> listed v b c" for s :: "'m ionet_scheme" and c tc
  proof -
    have "conn_view v b i {c} s c" using that(1) by (simp add: io_ok_def)
    then show ?thesis using that(2,3) conn_viewD(4) by fastforce
  qed
qed simp

section \<open>Steps of the base loop\<close>

text \<open>What a loop of the pool knows of a connection stays true when the base loop changes nothing that concerns this connection.\<close>

lemma conn_view_base:
  assumes "conn_view v b i X s c" and "listed v b' c = listed v b c" and "conn_home b' c = conn_home b c"
    and "c \<in> arriving (remote b' i) \<longleftrightarrow> c \<in> arriving (remote b i)"
    and "c \<in> starting (remote b' i) \<Longrightarrow> c \<in> starting (remote b i)" and "c \<in> ending (remote b' i) \<Longrightarrow> c \<in> ending (remote b i)"
  shows "conn_view v b' i X s c"
  using assms by (cases "conns s c") (simp_all add: conn_view_def homed_def Let_def, blast+)

lemma msg_ok_base:
  assumes "msg_ok v b i m" and "\<And>c tc ch. m = Rm_connection c tc ch \<Longrightarrow> listed v b' c = listed v b c \<and> conn_home b' c = conn_home b c"
  shows "msg_ok v b' i m"
  using assms by (auto simp: msg_ok_def split: remote_msg.splits)

lemma conn_view_outbox:
  assumes "conn_view v b i X s c" and "Fn_removeConnectionInLoop v c \<in> set fs \<longleftrightarrow> Fn_removeConnectionInLoop v c \<in> set (outbox s)"
  shows "conn_view v b i X (s\<lparr>outbox := fs\<rparr>) c"
  using assms by (cases "conns s c") (simp_all add: conn_view_def callbacks_def Let_def)

lemma getNextLoop_pool:
  assumes "getNextLoop p = Inr (io, p')" and "pool_loops p \<noteq> []"
  shows "io \<in> set (pool_loops p)" and "pool_loops p' = pool_loops p"
  using assms by (auto simp: getNextLoop_def Let_def split: if_splits)

lemma pool_name_new:
  assumes set: "pool_settings b sv" and id: "sv_nextConnId sv < max_conn_id"
  shows "conn_home b c \<noteq> Some (i, next_name sv)" and "map_of (sv_connections sv) (next_name sv) = None"
proof -
  show no: "conn_home b c \<noteq> Some (i, next_name sv)" for c i
  proof
    assume "conn_home b c = Some (i, next_name sv)"
    then obtain n where "1 \<le> n" "n < sv_nextConnId sv" "conn_suffix (sv_ipPort sv) (sv_nextConnId sv) = conn_suffix (sv_ipPort sv) n"
      using set unfolding pool_settings_def next_name_def by (metis same_append_eq)
    with set id conn_suffix_inject [of "sv_ipPort sv" "sv_nextConnId sv" n] show False by (auto simp: pool_settings_def)
  qed
  show "map_of (sv_connections sv) (next_name sv) = None"
  proof (rule ccontr)
    assume "map_of (sv_connections sv) (next_name sv) \<noteq> None"
    then obtain d where "map_of (sv_connections sv) (next_name sv) = Some d" by auto
    then obtain j where "conn_home b d = Some (j, next_name sv)" using set unfolding pool_settings_def by blast
    then show False using no by blast
  qed
qed

text \<open>\<open>newConnection\<close> for another loop: the connection is listed, and its two objects and \<open>connectEstablished\<close> are on their way.\<close>

lemma newConnection_remote:
  assumes run: "TcpServer_newConnection os app c d sockname v sockfd peer b = Inr b'"
    and sv: "servers b v = Some sv" and set: "pool_settings b sv"
  obtains io p tc ch where "io \<in> set (pool_loops (sv_pool sv))" "pool_loops p = pool_loops (sv_pool sv)"
    "servers b' v = Some (register (next_name sv) c (sv\<lparr>sv_pool := p\<rparr>))" "loop_id b' = loop_id b"
    "conn_home b' = (conn_home b)(c \<mapsto> (io, next_name sv))"
    "remote b' = (remote b)(io := remote b io @ [Rm_connection c tc ch, Rm_functor (Fn_connectEstablished c)])"
    "mine v tc" "tc_name tc = next_name sv" "new_pair io tc ch"
proof -
  have ne: "pool_loops (sv_pool sv) \<noteq> []" "loop_id b \<notin> set (pool_loops (sv_pool sv))" using set by (simp_all add: pool_settings_def)
  obtain io p where p: "getNextLoop (sv_pool sv) = Inr (io, p)" using run sv by (auto simp: TcpServer_newConnection_def result_simps)
  note io = getNextLoop_pool [OF p ne(1)]
  have other: "io \<noteq> loop_id b" using io(1) ne(2) by auto
  obtain tc0 ch where init: "TcpConnection_init io c d (next_name sv) sockfd (getLocalAddr sockname) peer = Inr (tc0, ch)"
    by (rule TcpConnection_init_ok)
  let ?tc = "server_callbacks v sv tc0"
  have b': "b' = send_remote io [Rm_connection c ?tc ch, Rm_functor (Fn_connectEstablished c)]
      ((put_server v (register (next_name sv) c (sv\<lparr>sv_pool := p\<rparr>))
          (b\<lparr>conn_home := (conn_home b)(c \<mapsto> (io, next_name sv))\<rparr>))\<lparr>sys := Socket_setKeepAlive sockfd True (sys b)\<rparr>)"
    using run sv p other init by (auto simp: TcpServer_newConnection_def Let_def next_name_def [symmetric] register_def split: if_splits)
  show thesis
  proof (rule that [of io p ?tc ch])
    show "mine v ?tc" "tc_name ?tc = next_name sv" "new_pair io ?tc ch"
      using TcpConnection_init_pair [OF init] by (simp_all add: server_callbacks_def tc_setter_defs mine_def new_pair_def)
  qed (use io in \<open>simp_all add: b' send_remote_def put_server_def\<close>)
qed

lemma pool_okD:
  assumes "pool_ok v w"
  obtains sv where "servers (base w) v = Some sv" "pool_settings (base w) sv"
    "\<And>i. io_ok v (base w) i {} (ios w i)" "\<And>i c. conn_view v (base w) i {} (ios w i) c" "\<And>i. queue_ok v (base w) i"
  using assms by (auto simp: pool_ok_def io_ok_def)

lemma io_ok_view:
  assumes "io_ok v b i X s" and "\<And>c. conn_view v b' i X s c"
  shows "io_ok v b' i X s"
  using assms by (simp add: io_ok_def)

lemma pool_settings_register:
  assumes set: "pool_settings b sv" and id: "sv_nextConnId sv < max_conn_id" and c: "conn_home b c = None"
    and io: "io \<in> set (pool_loops (sv_pool sv))" and p: "pool_loops p = pool_loops (sv_pool sv)"
    and b': "loop_id b' = loop_id b" "conn_home b' = (conn_home b)(c \<mapsto> (io, next_name sv))"
  shows "pool_settings b' (register (next_name sv) c (sv\<lparr>sv_pool := p\<rparr>))"
proof -
  note new = pool_name_new [OF set id]
  have "\<exists>n. 1 \<le> n \<and> n < sv_nextConnId sv + 1 \<and> name = sv_name sv @ conn_suffix (sv_ipPort sv) n"
    if "conn_home b' e = Some (j, name)" for e j name
  proof (cases "e = c")
    case True
    then show ?thesis using that set b' by (intro exI [of _ "sv_nextConnId sv"]) (simp add: pool_settings_def next_name_def)
  next
    case False
    then have "conn_home b e = Some (j, name)" using that b' by simp
    then obtain n where "1 \<le> n" "n < sv_nextConnId sv" "name = sv_name sv @ conn_suffix (sv_ipPort sv) n"
      using set unfolding pool_settings_def by blast
    then show ?thesis by (intro exI [of _ n]) simp
  qed
  moreover have "j \<in> set (pool_loops p)" if "conn_home b' e = Some (j, name)" for e j name
    using that b' io p set unfolding pool_settings_def by (cases "e = c") auto
  moreover have "e = f" if "conn_home b' e = Some (j, name)" "conn_home b' f = Some (k, name)" for e f j k name
    using that b' new(1) set unfolding pool_settings_def by (cases "e = c"; cases "f = c") auto
  moreover have "\<exists>j. conn_home b' e = Some (j, name)" if "map_of (sv_connections (register (next_name sv) c sv)) name = Some e" for name e
  proof (cases "name = next_name sv")
    case True
    then show ?thesis using that b' by (simp add: register_def)
  next
    case False
    then have "map_of (sv_connections sv) name = Some e" using that by (simp add: register_def)
    then have "\<exists>j. conn_home b e = Some (j, name)" using set unfolding pool_settings_def by blast
    then show ?thesis using b' c by auto
  qed
  moreover have "pool_loops (sv_pool sv) \<noteq> []" "loop_id b \<notin> set (pool_loops (sv_pool sv))" "1 \<le> sv_nextConnId sv"
    "length (sv_ipPort sv) \<le> 53"
    using set by (simp_all add: pool_settings_def)
  ultimately show ?thesis unfolding pool_settings_def register_def
    by (intro conjI allI impI) (simp_all add: b'(1) p, (blast+)?)
qed

lemma listed_register:
  assumes set: "pool_settings b sv" and id: "sv_nextConnId sv < max_conn_id" and sv: "servers b v = Some sv"
    and b': "servers b' v = Some (register (next_name sv) c (sv\<lparr>sv_pool := p\<rparr>))"
      "conn_home b' = (conn_home b)(c \<mapsto> (io, next_name sv))"
  shows "listed v b' c" and "e \<noteq> c \<Longrightarrow> listed v b' e = listed v b e"
proof -
  show "listed v b' c" using b' by (simp add: listed_def register_def)
  show "listed v b' e = listed v b e" if "e \<noteq> c"
    using that sv b' pool_name_new(1) [OF set id, of e]
    by (cases "conn_home b e") (auto simp: listed_def register_def)
qed

lemma accept_pool_ok:
  assumes ok: "pool_ok v w" and sv: "servers (base w) v = Some sv" and id: "sv_nextConnId sv < max_conn_id"
    and c: "conn_home (base w) c = None"
    and run: "TcpServer_newConnection os app c d sockname v sockfd peer (base w) = Inr b'"
  shows "pool_ok v (w\<lparr>base := b'\<rparr>)"
proof -
  let ?b = "base w"
  have set: "pool_settings ?b sv" and io: "io_ok v ?b i {} (ios w i)" and view: "conn_view v ?b i {} (ios w i) e"
    and queue: "queue_ok v ?b i" for i e
    using ok sv by (auto elim: pool_okD)
  from run sv set obtain l p tc ch where n: "l \<in> set (pool_loops (sv_pool sv))" "pool_loops p = pool_loops (sv_pool sv)"
    "servers b' v = Some (register (next_name sv) c (sv\<lparr>sv_pool := p\<rparr>))" "loop_id b' = loop_id ?b"
    "conn_home b' = (conn_home ?b)(c \<mapsto> (l, next_name sv))"
    "remote b' = (remote ?b)(l := remote ?b l @ [Rm_connection c tc ch, Rm_functor (Fn_connectEstablished c)])"
    "mine v tc" "tc_name tc = next_name sv" "new_pair l tc ch"
    by (rule newConnection_remote)
  note lst = listed_register [OF set id sv n(3,5)]
  have none: "conns (ios w i) c = None" for i
    using conn_viewD(2) [OF view, of i c] c by (cases "conns (ios w i) c") auto
  have fresh: "c \<notin> arriving (remote ?b i)" "c \<notin> starting (remote ?b i)" "c \<notin> ending (remote ?b i)" for i
  proof -
    show "c \<notin> arriving (remote ?b i)" using queue [of i] c by (fastforce simp: queue_ok_def msg_ok_def arriving_def)
    with view [of i c] none [of i] show "c \<notin> starting (remote ?b i)" "c \<notin> ending (remote ?b i)"
      by (simp_all add: conn_view_def Let_def)
  qed
  have "conn_view v b' i {} (ios w i) e" for i e
  proof (cases "e = c")
    case True
    have "callbacks (ios w i) c = []" "Fn_removeConnectionInLoop v c \<notin> set (outbox (ios w i))"
      using view [of i c] none [of i] c by (simp_all add: conn_view_def Let_def homed_def)
    then show ?thesis using True none [of i] fresh [of i] n(5,6) by (auto simp: conn_view_def homed_def Let_def)
  next
    case False
    show ?thesis using view [of i e] by (rule conn_view_base) (use False lst(2) n(5,6) in \<open>simp_all split: if_splits\<close>)
  qed
  then have "io_ok v b' i {} (ios w i)" for i using io [of i] by (rule io_ok_view [rotated])
  moreover have "queue_ok v b' i" for i
  proof -
    have old: "msg_ok v b' i m" if "m \<in> set (remote ?b i)" for m
      by (rule msg_ok_base [of v ?b])
        (use that queue [of i] lst(2) n(5) fresh(1) [of i] in \<open>auto simp: queue_ok_def arriving_def\<close>)
    have fit: "fits m [Rm_connection c tc ch, Rm_functor (Fn_connectEstablished c)]" if "m \<in> set (remote ?b i)" for m
      using that fresh(1,2) [of i] by (auto simp: fits_def arriving_def starting_def)
    have "in_order [Rm_connection c tc ch, Rm_functor (Fn_connectEstablished c)]" by (simp add: fits_def)
    moreover have "msg_ok v b' l (Rm_connection c tc ch)" "msg_ok v b' l (Rm_functor (Fn_connectEstablished c))"
      using n lst(1) by (simp_all add: msg_ok_def)
    ultimately show ?thesis using queue [of i] old fit n(6) by (auto simp: queue_ok_def in_order_append)
  qed
  moreover have "pool_settings b' (register (next_name sv) c (sv\<lparr>sv_pool := p\<rparr>))"
    using set id c n(1,2,4,5) by (rule pool_settings_register)
  ultimately show ?thesis using n(3) by (simp add: pool_ok_def)
qed

text \<open>
  \<open>removeConnectionInLoop\<close> in the base loop, for a removal that a loop has sent: the connection is in the map (the assertion
  \<open>n == 1\<close> holds) and \<open>connectDestroyed\<close> goes back to its loop.
\<close>

lemma removal_remote:
  assumes ok: "pool_ok v w" and f: "Fn_removeConnectionInLoop v c \<in> set (outbox (ios w i))"
  obtains sv tc where "conns (ios w i) c = Some tc" "tc_state tc = kDisconnected" "servers (base w) v = Some sv"
    "conn_home (base w) c = Some (i, tc_name tc)" "map_of (sv_connections sv) (tc_name tc) = Some c"
    "TcpServer_removeConnectionInLoop v c (base w) = Inr (send_remote i [Rm_functor (Fn_connectDestroyed c)]
       (put_server v (sv\<lparr>sv_connections := map_erase (tc_name tc) (sv_connections sv)\<rparr>) (base w)))"
  using ok
proof (rule pool_okD)
  fix sv
  assume sv: "servers (base w) v = Some sv" "pool_settings (base w) sv" and view: "\<And>i c. conn_view v (base w) i {} (ios w i) c"
  obtain tc where tc: "conns (ios w i) c = Some tc"
    using view [of i c] f by (cases "conns (ios w i) c") (simp_all add: conn_view_def Let_def)
  note c = conn_viewD [OF view tc]
  have st: "tc_state tc = kDisconnected" "listed v (base w) c" using c(5) f by simp_all
  then have m: "map_of (sv_connections sv) (tc_name tc) = Some c" using sv(1) c(2) by (simp add: listed_def)
  have "i \<noteq> loop_id (base w)" using sv(2) c(2) unfolding pool_settings_def by blast
  then show thesis using sv(1) c(2) m st(1) tc by (intro that [of tc sv]) (simp_all add: TcpServer_removeConnectionInLoop_def Let_def)
qed

lemma listed_erase:
  assumes set: "pool_settings b sv" and sv: "servers b v = Some sv" and c: "conn_home b c = Some (i, name)"
    and b': "servers b' v = Some (sv\<lparr>sv_connections := map_erase name (sv_connections sv)\<rparr>)" "conn_home b' = conn_home b"
  shows "listed v b' e \<longleftrightarrow> listed v b e \<and> e \<noteq> c"
proof (cases "conn_home b e")
  case None
  then show ?thesis using b' by (simp add: listed_def)
next
  case (Some h)
  obtain j n where h: "h = (j, n)" by (cases h)
  have "n = name \<longleftrightarrow> e = c"
    using set Some c h unfolding pool_settings_def by (metis option.inject prod.inject)
  then show ?thesis using Some h sv b' by (auto simp: listed_def)
qed

lemma pool_settings_erase:
  assumes "pool_settings b sv" and "loop_id b' = loop_id b" and "conn_home b' = conn_home b"
  shows "pool_settings b' (sv\<lparr>sv_connections := map_erase name (sv_connections sv)\<rparr>)"
  using assms unfolding pool_settings_def by (simp split: if_splits)

lemma removal_pool_ok:
  assumes ok: "pool_ok v w" and out: "outbox (ios w i) = Fn_removeConnectionInLoop v c # fs"
    and run: "TcpServer_removeConnectionInLoop v c (base w) = Inr b'"
  shows "pool_ok v (w\<lparr>base := b', ios := (ios w)(i := (ios w i)\<lparr>outbox := fs\<rparr>)\<rparr>)"
proof -
  let ?b = "base w" and ?ios = "(ios w)(i := (ios w i)\<lparr>outbox := fs\<rparr>)"
  have f: "Fn_removeConnectionInLoop v c \<in> set (outbox (ios w i))" using out by simp
  from ok f obtain sv tc where tc: "conns (ios w i) c = Some tc" "tc_state tc = kDisconnected" and sv: "servers ?b v = Some sv"
    and c: "conn_home ?b c = Some (i, tc_name tc)"
    and eq: "TcpServer_removeConnectionInLoop v c ?b = Inr (send_remote i [Rm_functor (Fn_connectDestroyed c)]
       (put_server v (sv\<lparr>sv_connections := map_erase (tc_name tc) (sv_connections sv)\<rparr>) ?b))"
    by (rule removal_remote)
  have set: "pool_settings ?b sv" and io: "io_ok v ?b j {} (ios w j)" and view: "conn_view v ?b j {} (ios w j) e"
    and queue: "queue_ok v ?b j" for j e
    using ok sv by (auto elim: pool_okD)
  have b': "servers b' v = Some (sv\<lparr>sv_connections := map_erase (tc_name tc) (sv_connections sv)\<rparr>)" "conn_home b' = conn_home ?b"
    "remote b' = (remote ?b)(i := remote ?b i @ [Rm_functor (Fn_connectDestroyed c)])" "loop_id b' = loop_id ?b"
    using run eq by (auto simp: send_remote_def put_server_def)
  note lst = listed_erase [OF set sv c b'(1,2)]
  have dist: "Fn_removeConnectionInLoop v c \<notin> set fs" "distinct fs" using io [of i] out by (auto simp: io_ok_def)
  have views: "conn_view v b' j {} (?ios j) e" for j e
  proof (cases "e = c")
    case False
    have "conn_view v ?b j {} (?ios j) e"
      using view [of j e] conn_view_outbox [OF view [of i e], of fs] False out by (cases "j = i") simp_all
    then show ?thesis by (rule conn_view_base) (use False lst b' in \<open>simp_all split: if_splits\<close>)
  next
    case True
    show ?thesis
    proof (cases "j = i")
      case False
      have "conns (ios w j) c = None"
        using conn_viewD(2) [OF view, of j c] c False by (cases "conns (ios w j) c") auto
      then show ?thesis using view [of j c] True False lst [of c] b' by (simp add: conn_view_def Let_def homed_def)
    next
      case ji: True
      have "c \<notin> starting (remote ?b i)" using conn_viewD(6) [OF view tc(1)] tc(2) by auto
      then show ?thesis using True ji tc conn_viewD [OF view tc(1)] lst [of c] b' dist by (simp add: conn_view_def Let_def)
    qed
  qed
  have "io_ok v b' j {} (?ios j)" for j
    using views [of j] io [of j] out dist by (cases "j = i") (simp_all add: io_ok_def)
  moreover have "queue_ok v b' j" for j
  proof -
    have out: "c \<notin> arriving (remote ?b j)"
    proof
      assume a: "c \<in> arriving (remote ?b j)"
      then obtain tc' ch where "Rm_connection c tc' ch \<in> set (remote ?b j)" by (auto simp: arriving_def)
      then have "msg_ok v ?b j (Rm_connection c tc' ch)" using queue [of j] by (simp add: queue_ok_def)
      then have "j = i" using c by (simp add: msg_ok_def)
      then show False using a conn_viewD(3) [OF view tc(1)] by simp
    qed
    have old: "msg_ok v b' j m" if "m \<in> set (remote ?b j)" for m
      by (rule msg_ok_base [of v ?b]) (use that out queue [of j] lst b' in \<open>auto simp: queue_ok_def arriving_def\<close>)
    have "in_order [Rm_functor (Fn_connectDestroyed c)]" "fits m [Rm_functor (Fn_connectDestroyed c)]"
      "msg_ok v b' j (Rm_functor (Fn_connectDestroyed c))" for m
      by (simp_all add: fits_def msg_ok_def)
    then show ?thesis using queue [of j] old b'(3) by (auto simp: queue_ok_def in_order_append)
  qed
  moreover have "pool_settings b' (sv\<lparr>sv_connections := map_erase (tc_name tc) (sv_connections sv)\<rparr>)"
    using set b'(4,2) by (rule pool_settings_erase)
  ultimately show ?thesis using b'(1) by (simp add: pool_ok_def)
qed

section \<open>Steps of a loop of the pool\<close>

text \<open>The base loop has handed over the first message for loop \<open>i\<close>.\<close>

definition popped :: "nat \<Rightarrow> 'm snet_scheme \<Rightarrow> 'm snet_scheme" where
  "popped i b = b\<lparr>remote := (remote b)(i := tl (remote b i))\<rparr>"

lemma popped_fields [simp]:
  "servers (popped i b) = servers b" "conn_home (popped i b) = conn_home b" "loop_id (popped i b) = loop_id b"
  "remote (popped i b) = (remote b)(i := tl (remote b i))" "listed v (popped i b) = listed v b" "homed (popped i b) = homed b"
  by (auto simp: popped_def listed_def homed_def fun_eq_iff)

lemma popped_ok:
  assumes ok: "pool_ok v w" and s: "io_ok v (popped i (base w)) i {} s"
  shows "pool_ok v (w\<lparr>base := popped i (base w), ios := (ios w)(i := s)\<rparr>)"
  using ok
proof (rule pool_okD)
  fix sv
  assume sv: "servers (base w) v = Some sv" "pool_settings (base w) sv" and io: "\<And>i. io_ok v (base w) i {} (ios w i)"
    and view: "\<And>i c. conn_view v (base w) i {} (ios w i) c" and queue: "\<And>i. queue_ok v (base w) i"
  have "pool_settings (popped i (base w)) sv" using sv(2) by (simp add: pool_settings_def)
  moreover have "io_ok v (popped i (base w)) j {} (ios w j)" if "j \<noteq> i" for j
    by (rule io_ok_view [OF io], rule conn_view_base [OF view]) (use that in simp_all)
  moreover have "queue_ok v (popped i (base w)) j" for j
  proof -
    have "in_order (tl (remote (base w) i))" if "in_order (remote (base w) i)" using that by (cases "remote (base w) i") auto
    moreover have "msg_ok v (popped i (base w)) j = msg_ok v (base w) j" by (simp add: msg_ok_def fun_eq_iff split: remote_msg.splits)
    moreover have "m \<in> set (remote (base w) i)" if "m \<in> set (tl (remote (base w) i))" for m
      using that by (cases "remote (base w) i") simp_all
    ultimately show ?thesis using queue [of j] by (auto simp: queue_ok_def)
  qed
  ultimately show ?thesis using sv(1) s by (simp add: pool_ok_def)
qed

lemma same_base_ok:
  assumes "pool_ok v w" and "io_ok v (base w) i {} s"
  shows "pool_ok v (w\<lparr>ios := (ios w)(i := s)\<rparr>)"
  using assms by (auto simp: pool_ok_def)

text \<open>A connection arrives in its loop. The addresses and the descriptor of its objects are not in use there.\<close>

definition room :: "TcpConnection \<Rightarrow> 'm net_scheme \<Rightarrow> bool" where
  "room tc s \<longleftrightarrow> chans s (tc_channel tc) = None \<and> channels s (tc_socket tc) = None \<and>
     (\<forall>e te. conns s e = Some te \<longrightarrow> tc_socket te \<noteq> tc_socket tc)"

lemma arrival_ok:
  assumes ok: "pool_ok v w" and q: "remote (base w) i = Rm_connection c tc ch # ms" and room: "room tc (ios w i)"
  shows "io_ok v (popped i (base w)) i {} (put_conn c tc (put_chan (tc_channel tc) ch (ios w i)))"
  using ok
proof (rule pool_okD)
  let ?s = "ios w i" and ?t = "put_conn c tc (put_chan (tc_channel tc) ch (ios w i))"
  assume io: "\<And>i. io_ok v (base w) i {} (ios w i)" and view: "\<And>i c. conn_view v (base w) i {} (ios w i) c"
    and queue: "\<And>i. queue_ok v (base w) i"
  have m: "mine v tc" "conn_home (base w) c = Some (i, tc_name tc)" "new_pair i tc ch" "listed v (base w) c" "c \<notin> arriving ms"
    using queue [of i] q by (simp_all add: queue_ok_def msg_ok_def fits_def)
  have none: "conns ?s c = None" using conn_viewD(3) [OF view, of i c] q by (cases "conns ?s c") auto
  then have c: "callbacks ?s c = []" "Fn_removeConnectionInLoop v c \<notin> set (outbox ?s)" "c \<notin> ending ms"
    using view [of i c] q by (simp_all add: conn_view_def Let_def)
  have st: "tc_state tc = kConnecting" using m(3) by (simp add: new_pair_def)
  have life: "net_life ?s" "loop_id ?s = i" using io [of i] by (simp_all add: io_ok_def)
  have fresh: "fresh_conn c (tc_channel tc) (tc_socket tc) ?s" using none c(1) room by (auto simp: fresh_conn_def room_def)
  have wf: "net_wf ?t" using net_lifeD(1) [OF life(1)] fresh by (rule new_pair_wf) (use m(3) life(2) in simp)
  have t: "conns ?t = (conns ?s)(c \<mapsto> tc)" "conn_log ?t = conn_log ?s" "outbox ?t = outbox ?s" "loop_id ?t = i"
    using life(2) by (simp_all add: put_conn_def put_chan_def)
  have "net_life ?t" using life(1) wf t(1,2) c(1) st by (rule new_conn_life)
  moreover have "conn_view v (popped i (base w)) i {} ?t e" for e
  proof (cases "e = c")
    case True
    then show ?thesis using m c st q t by (simp add: conn_view_def Let_def)
  next
    case False
    then have "conn_view v (popped i (base w)) i {} ?s e" using q by (intro conn_view_base [OF view]) simp_all
    then show ?thesis by (rule conn_view_frame) (use False t in \<open>simp_all add: callbacks_def option.rel_refl\<close>)
  qed
  ultimately show ?thesis using io [of i] t by (simp add: io_ok_def)
qed

text \<open>A functor that the base loop has queued is run.\<close>

lemma functor_ok_pool:
  assumes ok: "pool_ok v w" and os: "os_documented os" and q: "remote (base w) i = Rm_functor f # ms"
    and run: "conn_functor os app io_on_close f (ios w i) = Inr t"
  shows "io_ok v (popped i (base w)) i {} t"
  using ok
proof (rule pool_okD)
  let ?s = "ios w i" and ?b = "popped i (base w)"
  assume io: "\<And>i. io_ok v (base w) i {} (ios w i)" and view: "\<And>i c. conn_view v (base w) i {} (ios w i) c"
    and queue: "\<And>i. queue_ok v (base w) i"
  have fits: "fits (Rm_functor f) ms" "\<exists>c. f = Fn_connectEstablished c \<or> f = Fn_connectDestroyed c"
    using queue [of i] q by (simp_all add: queue_ok_def msg_ok_def)
  have sub: "starting ms \<subseteq> starting (remote (base w) i)" "ending ms \<subseteq> ending (remote (base w) i)"
    "arriving ms = arriving (remote (base w) i)"
    by (auto simp: q starting_def ending_def)
  have "conn_view v ?b i {} ?s e" for e
    by (rule conn_view_base [OF view]) (use sub in \<open>simp_all add: q, blast+\<close>)
  then have s: "io_ok v ?b i {} ?s" by (rule io_ok_view [OF io])
  show "io_ok v ?b i {} t"
  proof (rule pool_conns.conn_functor_inv [OF s os _ _ _ run])
    show "functor_ok f" using fits(2) by auto
    show "\<not> listed v ?b c" if "f = Fn_connectDestroyed c" for c
    proof -
      have c: "c \<in> ending (remote (base w) i)" using q that by simp
      then obtain tc where "conns ?s c = Some tc" using view [of i c] by (cases "conns ?s c") (simp_all add: conn_view_def Let_def)
      then show ?thesis using conn_viewD(7) [OF view _ c] by simp
    qed
    show "c \<notin> starting (remote ?b i)" if "f = Fn_connectEstablished c" for c
      using that fits(1) q by (simp add: fits_def)
  qed
qed

text \<open>A connection without owner is destroyed.\<close>

lemma dtor_conn_log: "TcpConnection_dtor tid c s = Inr t \<Longrightarrow> conn_log t = conn_log s"
  by (auto simp: TcpConnection_dtor_def Channel_dtor_def result_simps split: if_splits)

lemma dtor_io_ok:
  assumes ok: "io_ok v b i {} s" and c: "\<not> listed v b c" "c \<notin> ending (remote b i)"
    and run: "TcpConnection_dtor (threadId s) c s = Inr t"
  shows "io_ok v b i {} t"
proof -
  have view: "conn_view v b i {} s e" for e using ok by (simp add: io_ok_def)
  have life: "net_life s" using ok by (simp add: io_ok_def)
  note t = dtor_life [OF life run]
  note box = homeD_outbox [OF t(3)]
  obtain tc where tc: "conns s c = Some tc" using run by (auto simp: TcpConnection_dtor_def result_simps)
  note d = conn_viewD [OF view tc]
  have dead: "c \<notin> starting (remote b i)" using d(4,6) c(1) by auto
  have home: "c \<in> homed b i" using d(2) by (simp add: homed_def)
  have "conn_view v b i {} t e" for e
  proof (cases "e = c")
    case True
    then show ?thesis using d c dead home t(2) box by (simp add: conn_view_def Let_def)
  next
    case False
    show ?thesis using view [of e]
      by (rule conn_view_frame) (use False t(2) box dtor_conn_log [OF run] in \<open>simp_all add: callbacks_def option.rel_refl\<close>)
  qed
  then show ?thesis using ok t(1) box homeD(2) [OF t(3)] by (simp add: io_ok_def)
qed

section \<open>Runs\<close>

text \<open>
  One step of one of the loops. \<open>connectEstablished\<close> and \<open>connectDestroyed\<close> are run only for the messages of the base loop; everything
  else may happen to the connections of a loop at any time. A connection is destroyed when nobody has a pointer to it any more, neither the map nor a
  queued functor.
\<close>

fun local_event :: "net_event \<Rightarrow> bool" where
  "local_event (Ev_functor (Fn_connectEstablished c)) = False"
| "local_event (Ev_functor (Fn_connectDestroyed c)) = False"
| "local_event ev = event_ok ev"

inductive pool_step :: "os \<Rightarrow> (app_call \<Rightarrow> snet \<Rightarrow> api_call list) \<Rightarrow> (app_call \<Rightarrow> ionet \<Rightarrow> api_call list) \<Rightarrow> nat \<Rightarrow>
    cluster \<Rightarrow> cluster \<Rightarrow> bool"
  for os :: os and app0 :: "app_call \<Rightarrow> snet \<Rightarrow> api_call list" and app :: "app_call \<Rightarrow> ionet \<Rightarrow> api_call list" and v :: nat where
  ps_accept: "servers (base w) v = Some sv \<Longrightarrow> sv_nextConnId sv < max_conn_id \<Longrightarrow> conn_home (base w) c = None \<Longrightarrow>
    TcpServer_newConnection os app0 c d sockname v sockfd peer (base w) = Inr b \<Longrightarrow> pool_step os app0 app v w (w\<lparr>base := b\<rparr>)"
| ps_arrive: "remote (base w) i = Rm_connection c tc ch # ms \<Longrightarrow> room tc (ios w i) \<Longrightarrow>
    s = put_conn c tc (put_chan (tc_channel tc) ch (ios w i)) \<Longrightarrow>
    pool_step os app0 app v w (w\<lparr>base := popped i (base w), ios := (ios w)(i := s)\<rparr>)"
| ps_functor: "remote (base w) i = Rm_functor f # ms \<Longrightarrow> conn_functor os app io_on_close f (ios w i) = Inr s \<Longrightarrow>
    pool_step os app0 app v w (w\<lparr>base := popped i (base w), ios := (ios w)(i := s)\<rparr>)"
| ps_event: "local_event ev \<Longrightarrow> conn_event os app io_on_close ev (ios w i) = Inr s \<Longrightarrow>
    pool_step os app0 app v w (w\<lparr>ios := (ios w)(i := s)\<rparr>)"
| ps_remove: "outbox (ios w i) = Fn_removeConnectionInLoop v c # fs \<Longrightarrow> TcpServer_removeConnectionInLoop v c (base w) = Inr b \<Longrightarrow>
    pool_step os app0 app v w (w\<lparr>base := b, ios := (ios w)(i := (ios w i)\<lparr>outbox := fs\<rparr>)\<rparr>)"
| ps_destroy: "\<not> listed v (base w) c \<Longrightarrow> c \<notin> ending (remote (base w) i) \<Longrightarrow>
    TcpConnection_dtor (threadId (ios w i)) c (ios w i) = Inr s \<Longrightarrow> pool_step os app0 app v w (w\<lparr>ios := (ios w)(i := s)\<rparr>)"
| ps_race: "raced w' \<Longrightarrow> pool_step os app0 app v w w'"

text \<open>The server is started with threads and has not yet accepted a connection.\<close>

definition pool_started_state :: "nat \<Rightarrow> cluster \<Rightarrow> bool" where
  "pool_started_state v w \<longleftrightarrow> (\<exists>sv. servers (base w) v = Some sv \<and> sv_connections sv = [] \<and> sv_nextConnId sv = 1 \<and>
       length (sv_ipPort sv) \<le> 53 \<and> pool_loops (sv_pool sv) \<noteq> [] \<and> loop_id (base w) \<notin> set (pool_loops (sv_pool sv))) \<and>
     \<not> raced w \<and> (\<forall>c. conn_home (base w) c = None) \<and> (\<forall>i. remote (base w) i = []) \<and>
     (\<forall>i. net_wf (ios w i) \<and> loop_id (ios w i) = i \<and> outbox (ios w i) = [] \<and> conn_log (ios w i) = [] \<and> (\<forall>c. conns (ios w i) c = None))"

lemma pool_started_ok:
  assumes "pool_started_state v w"
  shows "pool_ok v w"
proof -
  have "\<exists>sv. servers (base w) v = Some sv \<and> pool_settings (base w) sv"
    using assms by (auto simp: pool_started_state_def pool_settings_def)
  moreover have "io_ok v (base w) i {} (ios w i)" "queue_ok v (base w) i" for i
    using assms
    by (simp_all add: pool_started_state_def io_ok_def net_life_def conn_view_def queue_ok_def listed_def callbacks_def)
  ultimately show ?thesis by (simp add: pool_ok_def)
qed

lemma pool_step_ok:
  assumes os: "os_documented os" and step: "pool_step os app0 app v w w'" and ok: "pool_ok v w"
  shows "raced w' \<or> pool_ok v w'"
proof -
  have io: "io_ok v (base w) i {} (ios w i)" for i using ok by (auto elim: pool_okD)
  from step show ?thesis
  proof cases
    case (ps_accept sv c d sockname sockfd peer b)
    then show ?thesis using accept_pool_ok [OF ok] by blast
  next
    case (ps_arrive i c tc ch ms s)
    then show ?thesis using popped_ok [OF ok, of i s] arrival_ok [OF ok, of i c tc ch ms] by simp
  next
    case (ps_functor i f ms s)
    then show ?thesis using popped_ok [OF ok, of i s] functor_ok_pool [OF ok os ps_functor(2,3)] by simp
  next
    case (ps_event ev i s)
    have "io_ok v (base w) i {} s"
      by (rule pool_conns.conn_event_inv [OF io os _ _ _ ps_event(3)]) (use ps_event(2) in \<open>cases ev rule: local_event.cases; simp\<close>)+
    then show ?thesis using same_base_ok [OF ok, of i s] ps_event(1) by simp
  next
    case (ps_remove i c fs b)
    then show ?thesis using removal_pool_ok [OF ok, of i c fs b] by simp
  next
    case (ps_destroy c i s)
    then show ?thesis using same_base_ok [OF ok, of i s] dtor_io_ok [OF io ps_destroy(2-4)] by simp
  qed simp
qed

lemma pool_step_raced: "pool_step os app0 app v w w' \<Longrightarrow> raced w \<Longrightarrow> raced w'"
  by (erule pool_step.cases) simp_all

lemma pool_invariant:
  "os_documented os \<Longrightarrow> inductive_invariant (pool_started_state v) (pool_step os app0 app v) (\<lambda>w. raced w \<or> pool_ok v w)"
  by unfold_locales (auto intro: pool_started_ok dest: pool_step_raced pool_step_ok)

lemma pool_reachable_ok:
  assumes "os_documented os" and "reachable_from (pool_started_state v) (pool_step os app0 app v) w" and "\<not> raced w"
  shows "pool_ok v w"
  using inductive_invariant.reachable_inv [OF pool_invariant [OF assms(1)] assms(2)] assms(3) by simp

section \<open>Properties\<close>

text \<open>
  C8. The registry of a server with threads. In every interleaving of the base loop with the loops of the pool in which no two threads have been at the
  unlocked \<open>pendingFunctors_\<close> of a loop at once, and whatever user code does there: a connection of a loop is in \<open>connections_\<close>, under its name, exactly as long as it is not closed or its removal is still on
  the way to the base loop; every entry of \<open>connections_\<close> is a connection that lives in a loop of the pool or is on the way to it;
  and every connection has told the user what its state says.
\<close>

theorem pool_registry:
  assumes "os_documented os" and "reachable_from (pool_started_state v) (pool_step os app0 app v) w" and "\<not> raced w" and "servers (base w) v = Some sv"
  shows "(\<forall>i. net_life (ios w i)) \<and>
    (\<forall>i c tc. conns (ios w i) c = Some tc \<longrightarrow>
       (map_of (sv_connections sv) (tc_name tc) = Some c \<longleftrightarrow>
          tc_state tc \<noteq> kDisconnected \<or> Fn_removeConnectionInLoop v c \<in> set (outbox (ios w i)))) \<and>
    (\<forall>name c. map_of (sv_connections sv) name = Some c \<longrightarrow>
       (\<exists>i. i \<in> set (pool_loops (sv_pool sv)) \<and>
          ((\<exists>tc ch. Rm_connection c tc ch \<in> set (remote (base w) i) \<and> tc_name tc = name) \<or>
           (\<exists>tc. conns (ios w i) c = Some tc \<and> tc_name tc = name))))"
proof -
  have ok: "pool_ok v w" by (rule pool_reachable_ok [OF assms(1-3)])
  have set: "pool_settings (base w) sv" and io: "io_ok v (base w) i {} (ios w i)" and view: "conn_view v (base w) i {} (ios w i) c"
    and queue: "queue_ok v (base w) i" for i c
    using ok assms(4) by (auto elim: pool_okD)
  have "map_of (sv_connections sv) (tc_name tc) = Some c \<longleftrightarrow>
      tc_state tc \<noteq> kDisconnected \<or> Fn_removeConnectionInLoop v c \<in> set (outbox (ios w i))" if "conns (ios w i) c = Some tc" for i c tc
    using conn_viewD(2,4,5) [OF view that] assms(4) by (auto simp: listed_def)
  moreover have "\<exists>i. i \<in> set (pool_loops (sv_pool sv)) \<and>
      ((\<exists>tc ch. Rm_connection c tc ch \<in> set (remote (base w) i) \<and> tc_name tc = name) \<or>
       (\<exists>tc. conns (ios w i) c = Some tc \<and> tc_name tc = name))" if m: "map_of (sv_connections sv) name = Some c" for name c
  proof -
    obtain i where h: "conn_home (base w) c = Some (i, name)" using set m unfolding pool_settings_def by blast
    then have i: "conn_home (base w) c = Some (i, name)" "i \<in> set (pool_loops (sv_pool sv))"
      using set unfolding pool_settings_def by blast+
    have l: "listed v (base w) c" "c \<in> homed (base w) i" using assms(4) i(1) m by (simp_all add: listed_def homed_def)
    show ?thesis
    proof (cases "conns (ios w i) c")
      case None
      then have "c \<in> arriving (remote (base w) i)" using view [of i c] l by (simp add: conn_view_def Let_def)
      then obtain tc ch where m: "Rm_connection c tc ch \<in> set (remote (base w) i)" by (auto simp: arriving_def)
      then have "msg_ok v (base w) i (Rm_connection c tc ch)" using queue [of i] by (simp add: queue_ok_def)
      then have "tc_name tc = name" using i(1) by (simp add: msg_ok_def)
      then show ?thesis using i(2) m by blast
    next
      case (Some tc)
      then have "tc_name tc = name" using conn_viewD(2) [OF view Some] i(1) by simp
      then show ?thesis using i(2) Some by blast
    qed
  qed
  moreover have "net_life (ios w i)" for i using io [of i] by (simp add: io_ok_def)
  ultimately show ?thesis by blast
qed

text \<open>
  C9. The assertions of a server with threads hold. In every interleaving in which no two threads have been at the unlocked \<open>pendingFunctors_\<close> of a loop at once: when the base loop executes the removal of a connection, the connection
  is in the map (\<open>n == 1\<close>) and \<open>connectDestroyed\<close> is sent to the loop of the connection; when a loop runs
  \<open>connectEstablished\<close>, the connection has arrived and is connecting, and when it runs \<open>connectDestroyed\<close>, the connection still
  exists and is closed, so that only its channel is removed and the user is not told a second time.
\<close>

theorem pool_assertions:
  assumes "os_documented os" and "reachable_from (pool_started_state v) (pool_step os app0 app v) w" and "\<not> raced w"
  shows "(\<forall>i f fs. outbox (ios w i) = f # fs \<longrightarrow>
      (\<exists>c b. f = Fn_removeConnectionInLoop v c \<and> TcpServer_removeConnectionInLoop v c (base w) = Inr b \<and>
         remote b = (remote (base w))(i := remote (base w) i @ [Rm_functor (Fn_connectDestroyed c)]))) \<and>
    (\<forall>i c ms. remote (base w) i = Rm_functor (Fn_connectEstablished c) # ms \<longrightarrow>
      (\<exists>tc. conns (ios w i) c = Some tc \<and> tc_state tc = kConnecting)) \<and>
    (\<forall>i c ms. remote (base w) i = Rm_functor (Fn_connectDestroyed c) # ms \<longrightarrow>
      (\<exists>tc. conns (ios w i) c = Some tc \<and> tc_state tc = kDisconnected \<and>
         connectDestroyed os app c (ios w i) = Channel_remove (tc_channel tc) (ios w i)))"
proof -
  have ok: "pool_ok v w" by (rule pool_reachable_ok [OF assms(1-3)])
  have io: "io_ok v (base w) i {} (ios w i)" and view: "conn_view v (base w) i {} (ios w i) c" and queue: "queue_ok v (base w) i" for i c
    using ok by (auto elim: pool_okD)
  have "\<exists>c b. f = Fn_removeConnectionInLoop v c \<and> TcpServer_removeConnectionInLoop v c (base w) = Inr b \<and>
      remote b = (remote (base w))(i := remote (base w) i @ [Rm_functor (Fn_connectDestroyed c)])"
    if out: "outbox (ios w i) = f # fs" for i f fs
  proof -
    obtain c where f: "f = Fn_removeConnectionInLoop v c" using io [of i] out by (auto simp: io_ok_def)
    with out have "Fn_removeConnectionInLoop v c \<in> set (outbox (ios w i))" by simp
    with ok show ?thesis by (rule removal_remote) (use f in \<open>simp add: send_remote_def put_server_def\<close>)
  qed
  moreover have "\<exists>tc. conns (ios w i) c = Some tc \<and> tc_state tc = kConnecting"
    if q: "remote (base w) i = Rm_functor (Fn_connectEstablished c) # ms" for i c ms
  proof -
    have "c \<in> starting (remote (base w) i)" "c \<notin> arriving (remote (base w) i)"
      using q queue [of i] by (simp_all add: queue_ok_def fits_def)
    then show ?thesis using view [of i c] by (cases "conns (ios w i) c") (simp_all add: conn_view_def Let_def)
  qed
  moreover have "\<exists>tc. conns (ios w i) c = Some tc \<and> tc_state tc = kDisconnected \<and>
      connectDestroyed os app c (ios w i) = Channel_remove (tc_channel tc) (ios w i)"
    if q: "remote (base w) i = Rm_functor (Fn_connectDestroyed c) # ms" for i c ms
  proof -
    have c: "c \<in> ending (remote (base w) i)" using q by simp
    then obtain tc where tc: "conns (ios w i) c = Some tc" using view [of i c] by (cases "conns (ios w i) c") (simp_all add: conn_view_def Let_def)
    then have "tc_state tc = kDisconnected" using conn_viewD(4) [OF view tc] conn_viewD(7) [OF view tc c] by blast
    then show ?thesis using tc by (simp add: connectDestroyed_def)
  qed
  ultimately show ?thesis by blast
qed

section \<open>Witnesses\<close>

text \<open>
  A server in loop 7 with one thread, whose loop is 5. It accepts the connection 9, which arrives in loop 5, is established, and is
  closed by its peer. (The loop's own two channels are left out.)
\<close>

definition idle_io :: "nat \<Rightarrow> ionet" where
  "idle_io i = (net.extend bare_net \<lparr>outbox = []\<rparr>)\<lparr>chans := Map.empty, channels := Map.empty, epoll_log := [], loop_id := i, threadId := 20 + i\<rparr>"

definition pool_server :: TcpServer where
  "pool_server = sample_server\<lparr>sv_pool := (EventLoopThreadPool_ctor 7 ''s'')\<lparr>pool_loops := [5]\<rparr>\<rparr>"

definition cluster0 :: cluster where
  "cluster0 = \<lparr>base = sample_snet\<lparr>servers := [0 \<mapsto> pool_server]\<rparr>, ios = idle_io, raced = False\<rparr>"

definition still_app :: "app_call \<Rightarrow> ionet \<Rightarrow> api_call list" where
  "still_app call s = []"

lemma cluster0_started: "pool_started_state 0 cluster0"
proof -
  have io: "conns (idle_io i) = Map.empty" "loop_id (idle_io i) = i" "outbox (idle_io i) = []" "conn_log (idle_io i) = []"
    "chans (idle_io i) = Map.empty" "channels (idle_io i) = Map.empty" "epoll_log (idle_io i) = []" for i
    by (simp_all add: idle_io_def bare_net_def net.defs tloop.defs)
  then have "net_wf (idle_io i)" for i by (simp add: net_wf_def loop_wf_def poller_wf_def wanted_def)
  moreover have "conn_home sample_snet c = None" "remote sample_snet i = []" for c i by (simp_all add: sample_snet_def anet.defs)
  ultimately show ?thesis using io
    by (simp add: pool_started_state_def cluster0_def pool_server_def sample_server_def sample_snet_fields EventLoopThreadPool_ctor_def)
qed

definition base1 :: snet where
  "base1 = projr (TcpServer_newConnection sample_os idle_app 9 2 (Inr zero_addr) 0 8 zero_addr (base cluster0))"

definition arrived :: "remote_msg list \<Rightarrow> ionet \<Rightarrow> ionet" where
  "arrived ms s = (case ms of Rm_connection c tc ch # _ \<Rightarrow> put_conn c tc (put_chan (tc_channel tc) ch s) | _ \<Rightarrow> s)"

definition io1 :: ionet where
  "io1 = arrived (remote base1 5) (idle_io 5)"

definition io2 :: ionet where
  "io2 = projr (conn_functor sample_os still_app io_on_close (Fn_connectEstablished 9) io1)"

definition io3 :: ionet where
  "io3 = projr (conn_event sample_os still_app io_on_close (Ev_callback (TcpConnection_handleClose 9)) io2)"

lemma run_results:
  "TcpServer_newConnection sample_os idle_app 9 2 (Inr zero_addr) 0 8 zero_addr (base cluster0) = Inr base1"
  "conn_functor sample_os still_app io_on_close (Fn_connectEstablished 9) io1 = Inr io2"
  "conn_event sample_os still_app io_on_close (Ev_callback (TcpConnection_handleClose 9)) io2 = Inr io3"
proof -
  have "\<not> isl (TcpServer_newConnection sample_os idle_app 9 2 (Inr zero_addr) 0 8 zero_addr (base cluster0))" by code_simp
  then show "TcpServer_newConnection sample_os idle_app 9 2 (Inr zero_addr) 0 8 zero_addr (base cluster0) = Inr base1"
    by (simp add: base1_def sum.collapse(2))
  have "\<not> isl (conn_functor sample_os still_app io_on_close (Fn_connectEstablished 9) io1)" by code_simp
  then show "conn_functor sample_os still_app io_on_close (Fn_connectEstablished 9) io1 = Inr io2"
    by (simp add: io2_def sum.collapse(2))
  have "\<not> isl (conn_event sample_os still_app io_on_close (Ev_callback (TcpConnection_handleClose 9)) io2)" by code_simp
  then show "conn_event sample_os still_app io_on_close (Ev_callback (TcpConnection_handleClose 9)) io2 = Inr io3"
    by (simp add: io3_def sum.collapse(2))
qed

lemma base1_messages:
  obtains tc ch where "remote base1 5 = [Rm_connection 9 tc ch, Rm_functor (Fn_connectEstablished 9)]"
proof -
  have "case remote base1 5 of [Rm_connection c tc ch, m] \<Rightarrow> c = 9 \<and> m = Rm_functor (Fn_connectEstablished 9) | _ \<Rightarrow> False"
    by code_simp
  then show thesis using that by (auto split: list.splits remote_msg.splits)
qed

definition cluster1 :: cluster where
  "cluster1 = \<lparr>base = popped 5 (popped 5 base1), ios = idle_io(5 := io3), raced = False\<rparr>"

lemma cluster1_calm: "\<not> raced cluster1"
  by (simp add: cluster1_def)

lemma cluster1_reachable: "reachable_from (pool_started_state 0) (pool_step sample_os idle_app still_app 0) cluster1"
proof -
  let ?R = "reachable_from (pool_started_state 0) (pool_step sample_os idle_app still_app 0)"
  obtain tc ch where q: "remote base1 5 = [Rm_connection 9 tc ch, Rm_functor (Fn_connectEstablished 9)]" by (rule base1_messages)
  have "?R cluster0" using cluster0_started by (rule reach_init)
  then have r1: "?R (cluster0\<lparr>base := base1\<rparr>)"
  proof (rule reach_step)
    show "pool_step sample_os idle_app still_app 0 cluster0 (cluster0\<lparr>base := base1\<rparr>)"
      by (rule ps_accept [where sv = pool_server, OF _ _ _ run_results(1)])
        (simp_all add: cluster0_def pool_server_def sample_server_def max_conn_id_def sample_snet_def anet.defs)
  qed
  have io1: "io1 = put_conn 9 tc (put_chan (tc_channel tc) ch (idle_io 5))" by (simp add: io1_def arrived_def q)
  have room: "room tc (idle_io 5)" by (simp add: room_def idle_io_def bare_net_def net.defs tloop.defs)
  have "pool_step sample_os idle_app still_app 0 (cluster0\<lparr>base := base1\<rparr>)
      ((cluster0\<lparr>base := base1\<rparr>)\<lparr>base := popped 5 (base (cluster0\<lparr>base := base1\<rparr>)), ios := (ios (cluster0\<lparr>base := base1\<rparr>))(5 := io1)\<rparr>)"
    by (rule ps_arrive [of _ 5 9 tc ch]) (use q io1 room in \<open>simp_all add: cluster0_def\<close>)
  then have "pool_step sample_os idle_app still_app 0 (cluster0\<lparr>base := base1\<rparr>) \<lparr>base = popped 5 base1, ios = idle_io(5 := io1), raced = False\<rparr>"
    by (simp add: cluster0_def)
  with r1 have r2: "?R \<lparr>base = popped 5 base1, ios = idle_io(5 := io1), raced = False\<rparr>" by (rule reach_step)
  let ?w = "\<lparr>base = popped 5 base1, ios = idle_io(5 := io1), raced = False\<rparr>"
  have "pool_step sample_os idle_app still_app 0 ?w (?w\<lparr>base := popped 5 (base ?w), ios := (ios ?w)(5 := io2)\<rparr>)"
    by (rule ps_functor [of _ 5 "Fn_connectEstablished 9" "[]"]) (use q run_results(2) in simp_all)
  then have "pool_step sample_os idle_app still_app 0 ?w \<lparr>base = popped 5 (popped 5 base1), ios = idle_io(5 := io2), raced = False\<rparr>" by simp
  with r2 have r3: "?R \<lparr>base = popped 5 (popped 5 base1), ios = idle_io(5 := io2), raced = False\<rparr>" by (rule reach_step)
  let ?w = "\<lparr>base = popped 5 (popped 5 base1), ios = idle_io(5 := io2), raced = False\<rparr>"
  have "pool_step sample_os idle_app still_app 0 ?w (?w\<lparr>ios := (ios ?w)(5 := io3)\<rparr>)"
    by (rule ps_event [of "Ev_callback (TcpConnection_handleClose 9)"]) (use run_results(3) in simp_all)
  then have "pool_step sample_os idle_app still_app 0 ?w cluster1" by (simp add: cluster1_def)
  with r3 show ?thesis by (rule reach_step)
qed

theorem pool_assertions_witness:
  "os_documented sample_os \<and> reachable_from (pool_started_state 0) (pool_step sample_os idle_app still_app 0) cluster1 \<and> \<not> raced cluster1 \<and>
   outbox (ios cluster1 5) = [Fn_removeConnectionInLoop 0 9] \<and>
   (\<exists>b. TcpServer_removeConnectionInLoop 0 9 (base cluster1) = Inr b \<and> remote b 5 = [Rm_functor (Fn_connectDestroyed 9)])"
proof -
  have out: "outbox (ios cluster1 5) = [Fn_removeConnectionInLoop 0 9]" by code_simp
  have q: "remote (base cluster1) 5 = []" by code_simp
  from pool_assertions [OF sample_os_ok cluster1_reachable cluster1_calm] out
  have "\<exists>c b. Fn_removeConnectionInLoop 0 9 = Fn_removeConnectionInLoop 0 c \<and> TcpServer_removeConnectionInLoop 0 c (base cluster1) = Inr b \<and>
         remote b = (remote (base cluster1))(5 := remote (base cluster1) 5 @ [Rm_functor (Fn_connectDestroyed c)])"
    by blast
  then show ?thesis using out q sample_os_ok cluster1_reachable cluster1_calm by auto
qed

theorem pool_registry_witness:
  "os_documented sample_os \<and> reachable_from (pool_started_state 0) (pool_step sample_os idle_app still_app 0) cluster1 \<and> \<not> raced cluster1 \<and>
   (\<exists>sv tc. servers (base cluster1) 0 = Some sv \<and> conns (ios cluster1 5) 9 = Some tc \<and> tc_state tc = kDisconnected \<and>
      map_of (sv_connections sv) (tc_name tc) = Some 9)"
proof -
  have out: "outbox (ios cluster1 5) = [Fn_removeConnectionInLoop 0 9]" by code_simp
  have ok: "pool_ok 0 cluster1" by (rule pool_reachable_ok [OF sample_os_ok cluster1_reachable cluster1_calm])
  have "Fn_removeConnectionInLoop 0 9 \<in> set (outbox (ios cluster1 5))" by (simp add: out)
  with ok show ?thesis
  proof (rule removal_remote)
    fix sv tc
    assume a: "conns (ios cluster1 5) 9 = Some tc" "tc_state tc = kDisconnected" "servers (base cluster1) 0 = Some sv"
    have "map_of (sv_connections sv) (tc_name tc) = Some 9"
      using pool_registry [OF sample_os_ok cluster1_reachable cluster1_calm a(3)] a(1) out by fastforce
    then show ?thesis using a sample_os_ok cluster1_reachable cluster1_calm by blast
  qed
qed

end
