(* ===== verification/Siren_LoopRuns.thy ===== *)
theory Siren_LoopRuns
  imports Siren_EventLoop
begin

text \<open>
  What the users of a loop have to know of their own invariant so that every iteration of \<open>EventLoop::loop\<close> keeps it, as an interface.

  \<open>inv D\<close> is the invariant while \<open>D\<close> are functors that \<open>doPendingFunctors\<close> has taken from the queue and still holds; it may be that some of them have been run. It must not depend
  on the loop's bookkeeping, nor on the events that were reported for a channel; every callback of a channel keeps it, and so does every functor when its
  turn comes. \<open>loop_iteration\<close> is described in \<open>Siren_EventLoop\<close>.
\<close>

definition loop_book :: "chan list \<Rightarrow> chan option \<Rightarrow> bool \<Rightarrow> int \<Rightarrow> bool \<Rightarrow> nat \<Rightarrow> bool \<Rightarrow> bool \<Rightarrow> 'm loop_scheme \<Rightarrow> 'm loop_scheme" where
  "loop_book active current handling time calling evsize running quitting s =
     s\<lparr>activeChannels := active, currentActiveChannel := current, eventHandling := handling, pollReturnTime := time,
       callingPendingFunctors := calling, events_size := evsize, looping := running, quit := quitting\<rparr>"

locale loop_invariant =
  fixes inv :: "closure option set \<Rightarrow> 'm loop_scheme \<Rightarrow> bool"
    and exec :: "chan_callback \<Rightarrow> 'm loop_scheme \<Rightarrow> 'm loop_scheme result"
    and alive :: "nat \<Rightarrow> 'm loop_scheme \<Rightarrow> bool"
    and run :: "closure \<Rightarrow> 'm loop_scheme \<Rightarrow> 'm loop_scheme result"
  assumes inv_book: "inv D s \<Longrightarrow> inv D (loop_book active current handling time calling evsize running quitting s)"
    and inv_reported: "inv D s \<Longrightarrow> chans s c = Some ch \<Longrightarrow> inv D (put_chan c (ch\<lparr>revents := ev\<rparr>) s)"
    and inv_handling: "inv D s \<Longrightarrow> chans s c = Some ch \<Longrightarrow> inv D (put_chan c (ch\<lparr>ch_eventHandling := b\<rparr>) s)"
    and inv_exec: "inv {} s \<Longrightarrow> exec cb s = Inr t \<Longrightarrow> inv {} t"
    and inv_take: "inv {} s \<Longrightarrow> inv (set (pendingFunctors s)) (s\<lparr>pendingFunctors := []\<rparr>)"
    and inv_run: "inv D s \<Longrightarrow> Some f \<in> D \<Longrightarrow> run f s = Inr t \<Longrightarrow> inv D t"
    and inv_drop: "inv D s \<Longrightarrow> inv {} s"
begin

lemma inv_book_eq:
  assumes "inv D s"
    and "t = loop_book (activeChannels t) (currentActiveChannel t) (eventHandling t) (pollReturnTime t) (callingPendingFunctors t)
      (events_size t) (looping t) (quit t) s"
  shows "inv D t"
  using inv_book [OF assms(1)] by (subst assms(2))

lemma poll_inv:
  assumes "inv D s" and "EPollPoller_poll answer s = Inr (active, t)"
  shows "inv D t"
proof -
  have fill: "inv D u" if "fillActiveChannels evs s = Inr (cs, u)" for evs cs u
    using that assms(1)
  proof (induction evs arbitrary: s cs)
    case Nil
    then show ?case by simp
  next
    case (Cons p evs)
    then show ?case by (cases p) (auto simp: result_simps dest: inv_reported)
  qed
  have size: "inv D (u\<lparr>events_size := n\<rparr>)" if "inv D u" for u n
    using that by (rule inv_book_eq) (simp add: loop_book_def)
  show ?thesis
    using assms fill size by (auto simp: EPollPoller_poll_def result_simps split: sum.splits if_splits)
qed

lemma call_if_inv: "inv {} s \<Longrightarrow> call_if exec happened cb c s = Inr t \<Longrightarrow> inv {} t"
  by (auto simp: call_if_def result_simps intro: inv_exec split: if_splits option.splits)

lemma handleEvent_inv:
  assumes "inv {} s" and "handleEvent exec alive c s = Inr t"
  shows "inv {} t"
proof -
  have guard: "inv {} t" if "handleEventWithGuard exec c s = Inr t"
  proof -
    from that obtain s1 s2 s3 s4 s5 where h: "upd_chan c (\<lambda>ch. ch\<lparr>ch_eventHandling := True\<rparr>) s = Inr s1"
      "call_if exec close_happened closeCallback c s1 = Inr s2" "call_if exec error_happened errorCallback c s2 = Inr s3"
      "call_if exec read_happened readCallback c s3 = Inr s4" "call_if exec write_happened writeCallback c s4 = Inr s5"
      "upd_chan c (\<lambda>ch. ch\<lparr>ch_eventHandling := False\<rparr>) s5 = Inr t"
      by (auto simp: handleEventWithGuard_def rbind_eq_Inr)
    have "inv {} s1" using assms(1) h(1) by (auto simp: result_simps intro: inv_handling)
    then have "inv {} s5" using h(2-5) call_if_inv by blast
    then show ?thesis using h(6) by (auto simp: result_simps intro: inv_handling)
  qed
  then show ?thesis using assms by (auto simp: handleEvent_def result_simps split: if_splits option.splits)
qed

lemma handle_active_inv:
  assumes "inv {} s" and "handle_active exec alive c s = Inr t"
  shows "inv {} t"
proof -
  have "inv {} (s\<lparr>currentActiveChannel := Some c\<rparr>)" using assms(1) by (rule inv_book_eq) (simp add: loop_book_def)
  then show ?thesis using assms(2) by (auto simp: handle_active_def intro: handleEvent_inv)
qed

lemma doPendingFunctors_inv:
  assumes s: "inv {} s" and go: "doPendingFunctors run s = Inr t"
  shows "inv {} t"
proof -
  let ?D = "set (pendingFunctors s)" and ?s = "s\<lparr>callingPendingFunctors := True, pendingFunctors := []\<rparr>"
  from go obtain u where u: "rfold (run_if_set run) (pendingFunctors s) ?s = Inr u" "t = pending_end u"
    by (auto simp: doPendingFunctors_def pending_begin_def rbind_eq_Inr)
  have "inv ?D ?s" using inv_take [OF s] by (rule inv_book_eq) (simp add: loop_book_def)
  have "inv ?D u"
  proof (rule rfold_invariant [where I = "inv ?D" and f = "run_if_set run" and xs = "pendingFunctors s" and s = ?s and t = u, OF _ \<open>inv ?D ?s\<close> u(1)])
    fix f a b
    assume "f \<in> set (pendingFunctors s)" "inv ?D a" "run_if_set run f a = Inr b"
    then show "inv ?D b" using inv_run [of ?D a] by (auto simp: run_if_set_def split: option.splits)
  qed
  then have "inv {} u" by (rule inv_drop)
  then show ?thesis unfolding u(2) pending_end_def by (rule inv_book_eq) (simp add: loop_book_def)
qed

lemma iteration_inv:
  assumes s: "inv {} s" and go: "loop_iteration exec alive run answer s = Inr t"
  shows "inv {} t"
proof -
  from go obtain active s1 s2 where h: "EPollPoller_poll (snd answer) (s\<lparr>activeChannels := []\<rparr>) = Inr (active, s1)"
    "rfold (handle_active exec alive) active (s1\<lparr>activeChannels := active, pollReturnTime := fst answer, eventHandling := True\<rparr>) = Inr s2"
    "doPendingFunctors run (s2\<lparr>currentActiveChannel := None, eventHandling := False\<rparr>) = Inr t"
    by (auto simp: loop_iteration_def rbind_eq_Inr)
  have "inv {} (s\<lparr>activeChannels := []\<rparr>)" using s by (rule inv_book_eq) (simp add: loop_book_def)
  then have "inv {} s1" using h(1) by (rule poll_inv)
  then have "inv {} (s1\<lparr>activeChannels := active, pollReturnTime := fst answer, eventHandling := True\<rparr>)"
    by (rule inv_book_eq) (simp add: loop_book_def)
  from rfold_invariant [where I = "inv {}" and f = "handle_active exec alive", OF _ this h(2)] have "inv {} s2" by (blast intro: handle_active_inv)
  then have "inv {} (s2\<lparr>currentActiveChannel := None, eventHandling := False\<rparr>)" by (rule inv_book_eq) (simp add: loop_book_def)
  then show ?thesis using h(3) by (rule doPendingFunctors_inv)
qed

lemma EventLoop_loop_inv:
  assumes s: "inv {} s" and go: "EventLoop_loop exec alive run answers s = Inr t"
  shows "inv {} t"
proof -
  have iterate: "inv {} u \<Longrightarrow> loop_while (loop_iteration exec alive run) as u = Inr t \<Longrightarrow> inv {} t" for as u
  proof (induction as arbitrary: u)
    case Nil
    have "inv {} (u\<lparr>looping := False\<rparr>)" using Nil.prems(1) by (rule inv_book_eq) (simp add: loop_book_def)
    then show ?case using Nil.prems by (auto split: if_splits)
  next
    case (Cons a as)
    have "inv {} (u\<lparr>looping := False\<rparr>)" using Cons.prems(1) by (rule inv_book_eq) (simp add: loop_book_def)
    then show ?case using Cons by (auto simp: rbind_eq_Inr intro: iteration_inv split: if_splits)
  qed
  have "inv {} (s\<lparr>looping := True, quit := False\<rparr>)" using s by (rule inv_book_eq) (simp add: loop_book_def)
  then show ?thesis using go by (auto simp: EventLoop_loop_def intro: iterate)
qed

end

end
