(* ===== verification/Siren_ServerLoop.thy ===== *)
theory Siren_ServerLoop
  imports Siren_Server Siren_LoopRuns
begin

text \<open>
  A server that is driven by its own event loop: \<open>EventLoop::loop\<close> of \<open>Siren_EventLoop\<close> with the callbacks and functors that the channels and the queue of
  a server without a thread pool have, from the construction of the program \<open>example/pingpong/server.cc\<close> on.

  \<open>server_env\<close> is what the program does not decide: the kernel, user code, the clock, and where new objects are placed, each as a
  function of the state. \<open>operator new\<close> may fail, which is the fault \<open>Bad_alloc\<close>.
\<close>

section \<open>The callbacks and functors of a server's loop\<close>

datatype user_code =
    User_functor nat
  | User_timer nat
  | User_channel nat

record 's server_env =
  env_os :: os
  env_app :: "app_call \<Rightarrow> 's \<Rightarrow> api_call list"
  env_user :: "user_code \<Rightarrow> 's \<Rightarrow> api_call list"
  env_accept :: "'s \<Rightarrow> accept_answers"
  env_sockname :: "'s \<Rightarrow> errno + InetAddress"
  env_new :: "'s \<Rightarrow> (nat \<times> chan) option"
  env_stack :: InetAddress
  env_clock :: "'s \<Rightarrow> int \<times> int"

definition run_user :: "'m snet_scheme server_env \<Rightarrow> user_code \<Rightarrow> 'm snet_scheme \<Rightarrow> 'm snet_scheme result" where
  "run_user env k s = rfold (exec_api (env_os env) (threadId s)) (env_user env k s) s"

fun server_timer :: "'m snet_scheme server_env \<Rightarrow> timer_cb \<Rightarrow> 'm snet_scheme \<Rightarrow> 'm snet_scheme result" where
  "server_timer env (TC_user k) s = run_user env (User_timer k) s"
| "server_timer env cb s = conn_timer cb s"

definition server_accept :: "'m snet_scheme server_env \<Rightarrow> nat \<Rightarrow> fd \<Rightarrow> InetAddress \<Rightarrow> 'm snet_scheme \<Rightarrow> 'm snet_scheme result" where
  "server_accept env v sockfd peer s =
     (case env_new env s of
        None \<Rightarrow> Inl Bad_alloc
      | Some (c, d) \<Rightarrow> TcpServer_newConnection (env_os env) (env_app env) c d (env_sockname env s) v sockfd peer s)"

fun server_callback :: "'m snet_scheme server_env \<Rightarrow> chan_callback \<Rightarrow> 'm snet_scheme \<Rightarrow> 'm snet_scheme result" where
  "server_callback env TimerQueue_handleRead s =
     TimerQueue_handleRead_op (server_timer env) (fst (env_clock env s)) (snd (env_clock env s)) s"
| "server_callback env (Acceptor_handleRead k) s = Acceptor_handleRead_op (server_accept env) (env_stack env) (env_accept env s) k s"
| "server_callback env (User_callback k) s = run_user env (User_channel k) s"
| "server_callback env cb s = conn_callback (env_os env) (env_app env) server_on_close cb s"

text \<open>A string or block of \<open>2\<^sup>6\<^sup>3\<close> bytes cannot exist.\<close>

fun run_functor :: "'m snet_scheme server_env \<Rightarrow> closure \<Rightarrow> 'm snet_scheme \<Rightarrow> 'm snet_scheme result" where
  "run_functor env (Fn_addTimerInLoop t) s = addTimerInLoop (fst (env_clock env s)) t s"
| "run_functor env (Fn_Acceptor_listen k) s = Acceptor_listen k s"
| "run_functor env (Fn_removeConnectionInLoop v c) s = TcpServer_removeConnectionInLoop v c s"
| "run_functor env (Fn_user k) s = run_user env (User_functor k) s"
| "run_functor env f s = conn_functor (env_os env) (env_app env) server_on_close f s"

definition server_functor :: "'m snet_scheme server_env \<Rightarrow> closure \<Rightarrow> 'm snet_scheme \<Rightarrow> 'm snet_scheme result" where
  "server_functor env f s = (if functor_ok f then run_functor env f s else Inl Length_error)"

text \<open>The object a channel is tied to.\<close>

definition server_alive :: "nat \<Rightarrow> 'm snet_scheme \<Rightarrow> bool" where
  "server_alive c s \<longleftrightarrow> conns s c \<noteq> None"

definition server_iteration :: "'m snet_scheme server_env \<Rightarrow> int \<times> (errno + (chan \<times> cint) list) \<Rightarrow> 'm snet_scheme \<Rightarrow> 'm snet_scheme result" where
  "server_iteration env = loop_iteration (server_callback env) server_alive (server_functor env)"

text \<open>
  Documented behaviour: system calls return what they may, \<open>accept\<close> a descriptor that is not in use, and \<open>new\<close> places objects where there is
  none (and, as connections are told apart by their addresses, where no connection was).
\<close>

definition fd_unused :: "fd \<Rightarrow> 'm net_scheme \<Rightarrow> bool" where
  "fd_unused fd s \<longleftrightarrow> channels s fd = None \<and> (\<forall>e te. conns s e = Some te \<longrightarrow> tc_socket te \<noteq> fd)"

definition env_documented :: "'m snet_scheme server_env \<Rightarrow> bool" where
  "env_documented env \<longleftrightarrow> os_documented (env_os env) \<and>
     (\<forall>s fd a. an_accept (env_accept env s) = Inr (fd, a) \<longrightarrow> fd_unused fd s) \<and>
     (\<forall>s c d. env_new env s = Some (c, d) \<longrightarrow> conns s c = None \<and> callbacks s c = [] \<and> chans s d = None)"

section \<open>The invariant inside an iteration\<close>

text \<open>
  While \<open>doPendingFunctors\<close> runs, the functors \<open>D\<close> are in its local vector: what the invariant of the server says of queued functors goes on for
  them. No other call of the server or the acceptor waits, there is no other server in the loop, and the address is so short that no name is cut.
\<close>

definition owed :: "close_cb \<Rightarrow> closure option set \<Rightarrow> nat set \<Rightarrow> 'm net_scheme \<Rightarrow> bool" where
  "owed cb D X s \<longleftrightarrow> (\<forall>c. Some (Fn_connectDestroyed c) \<in> D \<longrightarrow>
     (\<exists>tc. conns s c = Some tc \<and> (tc_closeCallback tc = Some cb \<longrightarrow> tc_state tc = kDisconnected \<and> c \<notin> X)))"

definition only_destroys :: "closure option set \<Rightarrow> bool" where
  "only_destroys D \<longleftrightarrow> (\<forall>f. Some f \<in> D \<longrightarrow> owner_call f \<longrightarrow> (\<exists>c. f = Fn_connectDestroyed c))"

definition sole :: "nat \<Rightarrow> 'm snet_scheme \<Rightarrow> bool" where
  "sole v s \<longleftrightarrow> (\<exists>sv. servers s = [v \<mapsto> sv] \<and> length (sv_ipPort sv) \<le> 51 \<and> sv_nextConnId sv \<le> 2 ^ 31 - 1)"

definition busy :: "nat \<Rightarrow> closure option set \<Rightarrow> nat set \<Rightarrow> 'm snet_scheme \<Rightarrow> bool" where
  "busy v D X s \<longleftrightarrow> server_ok v X s \<and> owed (TcpServer_removeConnection v) D X s \<and> only_destroys (D \<union> set (pendingFunctors s)) \<and> sole v s"

lemma owed_queue: "owed cb (set (pendingFunctors s)) X s \<longleftrightarrow> queued_ok cb X s"
  by (simp add: owed_def queued_ok_def waiting_def)

lemma owed_cong: "owed cb D X s \<Longrightarrow> conns t = conns s \<Longrightarrow> Y \<subseteq> X \<Longrightarrow> owed cb D Y t"
  unfolding owed_def by (metis subset_iff)

lemma owed_frame:
  assumes "owed cb D X s" and "api_frame s t"
  shows "owed cb D X t"
  unfolding owed_def
proof (intro allI impI)
  fix c assume "Some (Fn_connectDestroyed c) \<in> D"
  then obtain tc where tc: "conns s c = Some tc" "tc_closeCallback tc = Some cb \<longrightarrow> tc_state tc = kDisconnected \<and> c \<notin> X"
    using assms(1) by (auto simp: owed_def)
  moreover obtain td where "conns t c = Some td" "conn_frame tc td" using api_frameD(4) [OF assms(2) tc(1)] by blast
  ultimately show "\<exists>tc. conns t c = Some tc \<and> (tc_closeCallback tc = Some cb \<longrightarrow> tc_state tc = kDisconnected \<and> c \<notin> X)"
    by (auto simp: conn_frame_def)
qed

lemma owed_transition:
  assumes "owed cb D {} s" and "conns s c = Some tc" and "tc_state tc \<noteq> kDisconnected" and "conns u = (conns s)(c \<mapsto> setState st tc)" and "X \<subseteq> {c}"
  shows "owed cb D X u"
  using assms by (auto simp: owed_def setState_def)

lemma only_destroys_owner: "only_destroys (D \<union> set (pendingFunctors s)) \<longleftrightarrow> only_destroys (D \<union> set (owner_calls s))"
  by (auto simp: only_destroys_def owner_calls_def)

lemma only_destroys_home: "home t = home s \<Longrightarrow> only_destroys (D \<union> set (pendingFunctors t)) \<longleftrightarrow> only_destroys (D \<union> set (pendingFunctors s))"
  using homeD(4) [of t s] by (simp add: only_destroys_owner)

lemma sole_home: "home t = home s \<Longrightarrow> sole v t \<longleftrightarrow> sole v s"
  using homeD_server(1) [of t s] by (simp add: sole_def)

lemma soleI: "servers s = [v \<mapsto> sv] \<Longrightarrow> length (sv_ipPort sv) \<le> 51 \<Longrightarrow> sv_nextConnId sv \<le> 2 ^ 31 - 1 \<Longrightarrow> sole v s"
  by (auto simp: sole_def)

lemma busyD:
  assumes "busy v D X s"
  shows "server_ok v X s" and "owed (TcpServer_removeConnection v) D X s" and "only_destroys (D \<union> set (pendingFunctors s))" and "sole v s"
    and "net_wf s"
  using assms net_lifeD(1) by (auto simp: busy_def server_ok_def)

lemma busyI:
  "server_ok v X s \<Longrightarrow> owed (TcpServer_removeConnection v) D X s \<Longrightarrow> only_destroys (D \<union> set (pendingFunctors s)) \<Longrightarrow> sole v s \<Longrightarrow> busy v D X s"
  by (simp add: busy_def)

lemma busy_frame:
  assumes b: "busy v D X s" and fr: "api_frame s t"
  shows "busy v D X t"
proof (rule busyI)
  note h = api_frameD(3) [OF fr]
  show "server_ok v X t" using busyD(1) [OF b] fr by (rule server_ok_frame)
  show "owed (TcpServer_removeConnection v) D X t" using busyD(2) [OF b] fr by (rule owed_frame)
  show "only_destroys (D \<union> set (pendingFunctors t))" using busyD(3) [OF b] only_destroys_home [OF h] by simp
  show "sole v t" using busyD(4) [OF b] sole_home [OF h] by simp
qed

lemma busy_transition:
  assumes b: "busy v D {} s" and tc: "conns s c = Some tc" "tc_state tc \<noteq> kDisconnected" and u: "conns u = (conns s)(c \<mapsto> setState st tc)" "home u = home s"
    and ok: "server_ok v X u" and X: "X \<subseteq> {c}"
  shows "busy v D X u"
proof (rule busyI [OF ok])
  show "owed (TcpServer_removeConnection v) D X u" using busyD(2) [OF b] tc u(1) X by (rule owed_transition)
  show "only_destroys (D \<union> set (pendingFunctors u))" using busyD(3) [OF b] only_destroys_home [OF u(2)] by simp
  show "sole v u" using busyD(4) [OF b] sole_home [OF u(2)] by simp
qed

text \<open>The closing callback: only that of the one server there is can return.\<close>

lemma busy_close:
  assumes b: "busy v D {c} s" and run: "server_on_close cb c s = Inr t" and ok: "server_ok v {} t"
  shows "busy v D {} t"
proof -
  have same: "conns t = conns s" using run busyD(5) [OF b] server_keeps_conns by (auto simp: keeps_conns_def)
  have owed: "owed (TcpServer_removeConnection v) D {} t" using busyD(2) [OF b] same by (rule owed_cong) simp
  show ?thesis
  proof (cases cb)
    case (TcpServer_removeConnection w)
    obtain sv where sv: "servers s = [v \<mapsto> sv]" "length (sv_ipPort sv) \<le> 51" "sv_nextConnId sv \<le> 2 ^ 31 - 1"
      using busyD(4) [OF b] by (auto simp: sole_def)
    from run [unfolded TcpServer_removeConnection] have "TcpServer_removeConnectionInLoop w c s = Inr t"
      by (simp add: TcpServer_removeConnection_op_def runInLoop_def isInLoopThread_def)
    then have "sole v t \<and> (pendingFunctors t = pendingFunctors s \<or> pendingFunctors t = pendingFunctors s @ [Some (Fn_connectDestroyed c)])"
      using sv by (auto simp: TcpServer_removeConnectionInLoop_def with_server_def send_remote_def Let_def
          intro!: soleI split: option.splits if_splits)
    then show ?thesis using ok owed busyD(3) [OF b] by (intro busyI) (auto simp: only_destroys_def)
  qed (use b run ok owed in \<open>auto simp: busy_def\<close>)
qed

interpretation busy_conns: conn_invariant "busy v D" server_on_close "removed v" "\<lambda>c. True" for v D
proof
  show "net_wf s" if "busy v D X s" for X and s :: "'m snet_scheme" using that by (rule busyD)
  show "busy v D X t" if "busy v D X s" "api_frame s t" for X and s t :: "'m snet_scheme" using that by (rule busy_frame)
  show "busy v D {} u" if "busy v D {} s" "conns s c = Some tc" "tc_state tc = kConnecting" "net_wf u"
    "conns u = (conns s)(c \<mapsto> setState kConnected tc)" "conn_log u = conn_log s @ [(c, True)]" "home u = home s"
    for s u :: "'m snet_scheme" and c tc
    using that server_conns.inv_up [OF busyD(1) [OF that(1)] _ that(2-7)] by (intro busy_transition [OF that(1,2) _ that(5,7)]) simp_all
  show "busy v D {c} u" if "busy v D {} s" "conns s c = Some tc" "tc_state tc = kConnected \<or> tc_state tc = kDisconnecting" "net_wf u"
    "conns u = (conns s)(c \<mapsto> setState kDisconnected tc)" "conn_log u = conn_log s @ [(c, False)]" "home u = home s"
    for s u :: "'m snet_scheme" and c tc
    using that server_conns.inv_down [OF busyD(1) [OF that(1)] that(2-7)] by (intro busy_transition [OF that(1,2) _ that(5,7)]) auto
  show "busy v D {} t" if "busy v D {c} s" "conns s c = Some tc" "tc_state tc = kDisconnected" "tc_closeCallback tc = Some cb"
    "server_on_close cb c s = Inr t" for s t :: "'m snet_scheme" and c tc cb
    using that(1,5) server_conns.inv_close [OF busyD(1) [OF that(1)] that(2-5)] by (rule busy_close)
  show "busy v D {} s" if "busy v D {c} s" "conns s c = Some tc" "removed v s c" for s :: "'m snet_scheme" and c tc
    using server_conns.inv_destroy [OF busyD(1) [OF that(1)] that(2,3)] busyD(2-4) [OF that(1)] by (auto simp: busy_def intro: owed_cong)
  show "removed v u c" if "removed v s c" "conns s c = Some tc" "conns u c = Some (setState kDisconnected tc)" "home u = home s"
    for s u :: "'m snet_scheme" and c tc
    using that by (rule server_conns.may_frame)
qed

section \<open>Every callback and functor keeps the invariant\<close>

text \<open>Timers and user code change nothing the server knows of, except through the operations of connections.\<close>

lemma frame_same:
  assumes "net_wf s" and "chans t = chans s" "channels t = channels s" "epoll_log t = epoll_log s" "loop_id t = loop_id s" "conns t = conns s"
    and "conn_log t = conn_log s" "home t = home s"
  shows "api_frame s t"
  using assms by (intro api_frame_same) (simp_all add: net_wf_cong [OF assms(2-6)])

lemma home_timers [simp]:
  "home (s\<lparr>timers := ts\<rparr>) = home s" "home (s\<lparr>timer_mem := m\<rparr>) = home s" "home (s\<lparr>s_numCreated := n\<rparr>) = home s"
  "home (s\<lparr>callingExpiredTimers := b\<rparr>) = home s" "home (s\<lparr>armed := a\<rparr>) = home s"
  by (simp_all add: home_def owner_calls_def)

lemma insert_timer_frame:
  assumes "net_wf s" and "insert_timer t s = Inr (b, u)"
  shows "api_frame s u"
  using assms by (intro frame_same) (auto simp: insert_timer_def Let_def split: if_splits)

lemma addTimerInLoop_frame:
  assumes "net_wf s" and "addTimerInLoop now t s = Inr u"
  shows "api_frame s u"
proof -
  from assms(2) obtain b w where w: "insert_timer t s = Inr (b, w)" "u = w \<or> (\<exists>a. u = w\<lparr>armed := a\<rparr>)"
    by (auto simp: addTimerInLoop_def resetTimerfd_def result_simps split: if_splits)
  have "api_frame s w" using assms(1) w(1) by (rule insert_timer_frame)
  moreover from this have "api_frame w u" using w(2) by (intro frame_same) (auto dest: api_frameD(1))
  ultimately show ?thesis by (rule api_frame_trans)
qed

lemma reset_one_frame:
  assumes "net_wf s" and "reset_one now t s = Inr u"
  shows "api_frame s u"
proof -
  have mem: "api_frame s (s\<lparr>timer_mem := m\<rparr>)" for m using assms(1) by (intro frame_same) simp_all
  show ?thesis
    using assms mem api_frame_trans [OF mem insert_timer_frame [OF api_frameD(1) [OF mem]]]
    by (auto simp: reset_one_def result_simps split: option.splits if_splits)
qed

lemma reset_timers_frame:
  assumes "net_wf s" and "reset_timers now now' expired s = Inr u"
  shows "api_frame s u"
proof -
  from assms(2) obtain w where w: "rfold (reset_one now) expired s = Inr w" "u = w \<or> (\<exists>a. u = w\<lparr>armed := a\<rparr>)"
    by (auto simp: reset_timers_def resetTimerfd_def result_simps split: if_splits)
  have "api_frame s w" using reset_one_frame assms(1) w(1) by (rule rfold_api_frame)
  moreover from this have "api_frame w u" using w(2) by (intro frame_same) (auto dest: api_frameD(1))
  ultimately show ?thesis by (rule api_frame_trans)
qed

lemma run_user_frame:
  assumes "net_wf s" and "os_documented (env_os env)" and "run_user env k s = Inr t"
  shows "api_frame s t"
  using exec_api_frame assms(1) assms(3) [unfolded run_user_def] by (rule rfold_api_frame) (use assms(2) in simp_all)

lemma server_timer_frame:
  assumes "net_wf s" and "os_documented (env_os env)" and "server_timer env cb s = Inr t"
  shows "api_frame s t"
  using assms run_user_frame [OF assms(1,2)] api_frame_refl [OF assms(1)] forceClose_frame [OF assms(1)]
  by (cases cb) (auto split: if_splits)

lemma timers_frame:
  assumes wf: "net_wf s" and os: "os_documented (env_os env)" and run: "TimerQueue_handleRead_op (server_timer env) now now' s = Inr t"
  shows "api_frame s t"
proof -
  obtain expired s1 where e: "getExpired now s = (expired, s1)" by (cases "getExpired now s")
  with run obtain s2 where s2: "rfold (run_timer (server_timer env)) expired (s1\<lparr>callingExpiredTimers := True\<rparr>) = Inr s2"
    "reset_timers now now' expired (s2\<lparr>callingExpiredTimers := False\<rparr>) = Inr t"
    by (auto simp: TimerQueue_handleRead_op_def rbind_eq_Inr)
  have f1: "api_frame s (s1\<lparr>callingExpiredTimers := True\<rparr>)" using wf e by (intro frame_same) (auto simp: getExpired_def split: if_splits)
  have "api_frame u w" if "net_wf u" "run_timer (server_timer env) t u = Inr w" for t u w
    using that server_timer_frame [OF that(1) os] by (auto simp: run_timer_def split: option.splits)
  then have f2: "api_frame (s1\<lparr>callingExpiredTimers := True\<rparr>) s2" using api_frameD(1) [OF f1] s2(1) by (rule rfold_api_frame)
  then have f3: "api_frame s2 (s2\<lparr>callingExpiredTimers := False\<rparr>)" by (intro frame_same) (auto dest: api_frameD(1))
  have "api_frame (s2\<lparr>callingExpiredTimers := False\<rparr>) t" using api_frameD(1) [OF f3] s2(2) by (rule reset_timers_frame)
  with f1 f2 f3 show ?thesis by (blast intro: api_frame_trans)
qed

text \<open>A name is \<open>-\<close>, at most 51 characters, \<open>#\<close> and at most ten digits, which is what \<open>char buf[64]\<close> can hold: no name is given twice before the number overflows.\<close>

lemma conn_suffix_short:
  assumes "length ipPort \<le> 51" and "0 \<le> n" and "n \<le> 2 ^ 31 - 1"
  shows "conn_suffix ipPort n = ''-'' @ ipPort @ ''#'' @ show_nat (nat n)"
proof -
  have "nat n < 10 ^ 10" using assms by simp
  then have "length (show_nat (nat n)) \<le> 10" by (rule show_nat_length) simp
  then show ?thesis using assms by (simp add: conn_suffix_def show_int_pos)
qed

lemma next_name_unused:
  assumes "settings_ok lid sv" and "length (sv_ipPort sv) \<le> 51" and "sv_nextConnId sv \<le> 2 ^ 31 - 1"
  shows "map_of (sv_connections sv) (next_name sv) = None"
proof (rule ccontr)
  assume "map_of (sv_connections sv) (next_name sv) \<noteq> None"
  with assms(1) obtain n where "1 \<le> n" "n < sv_nextConnId sv" "next_name sv = sv_name sv @ conn_suffix (sv_ipPort sv) n" by (rule settings_names)
  then have n: "1 \<le> n" "n < sv_nextConnId sv" "conn_suffix (sv_ipPort sv) (sv_nextConnId sv) = conn_suffix (sv_ipPort sv) n"
    by (simp_all add: next_name_def)
  then have "show_nat (nat (sv_nextConnId sv)) = show_nat (nat n)"
    using conn_suffix_short [OF assms(2), of n] conn_suffix_short [OF assms(2), of "sv_nextConnId sv"] assms(3) by simp
  then show False using n by (auto dest!: show_nat_inject)
qed

lemma server_accept_busy:
  assumes b: "busy v {} {} s" and env: "env_documented env" and fd: "fd_unused sockfd s" and run: "server_accept env w sockfd peer s = Inr t"
  shows "busy v {} {} t"
proof -
  obtain c d where new: "env_new env s = Some (c, d)"
    and go: "TcpServer_newConnection (env_os env) (env_app env) c d (env_sockname env s) w sockfd peer s = Inr t"
    using run by (auto simp: server_accept_def split: option.splits)
  obtain sv where sv: "servers s = [v \<mapsto> sv]" "length (sv_ipPort sv) \<le> 51" "sv_nextConnId sv \<le> 2 ^ 31 - 1"
    using busyD(4) [OF b] by (auto simp: sole_def)
  from go have w: "w = v" by (auto simp: TcpServer_newConnection_def with_server_def sv(1) split: if_splits)
  have v: "servers s v = Some sv" by (simp add: sv(1))
  have id: "sv_nextConnId sv \<noteq> 2 ^ 31 - 1"
    using go by (auto simp: TcpServer_newConnection_def w v rbind_eq_Inr Let_def split: if_splits)
  have "settings_ok (loop_id s) sv" using busyD(1) [OF b] v by (simp add: server_ok_def)
  then have name: "map_of (sv_connections sv) (next_name sv) = None" using sv(2,3) by (rule next_name_unused)
  have fresh: "fresh_conn c d sockfd s" using env new fd by (auto simp: env_documented_def fresh_conn_def fd_unused_def)
  obtain u where u: "connectEstablished (env_os env) (env_app env) c u = Inr t" "server_ok v {} u"
    "servers u = (servers s)(v \<mapsto> register (next_name sv) c sv)" "pendingFunctors u = pendingFunctors s"
    by (rule newConnection_registers [OF busyD(1) [OF b] v fresh name id, of "env_os env" "env_app env" "env_sockname env s" peer])
      (use go w in simp)
  have "sole v u" using u(3) sv id by (intro soleI [of _ _ "register (next_name sv) c sv"]) (simp_all add: register_def)
  then have "busy v {} {} u" using u(2,4) busyD(3) [OF b] by (simp add: busy_def owed_def)
  then show ?thesis using env u(1) by (intro busy_conns.connectEstablished_inv [of v "{}" u "env_os env" "env_app env" c t]) (simp_all add: env_documented_def)
qed

lemma busy_cong:
  assumes b: "busy v D X s" and t: "chans t = chans s" "channels t = channels s" "epoll_log t = epoll_log s" "loop_id t = loop_id s" "conns t = conns s"
    "conn_log t = conn_log s" "servers t = servers s" "conn_home t = conn_home s" "pendingFunctors t = pendingFunctors s"
  shows "busy v D X t"
proof (rule busyI)
  have ok: "server_ok v X s" by (rule busyD(1) [OF b])
  have "net_life s" "queued_ok (TcpServer_removeConnection v) X s" using ok by (auto simp: server_ok_def)
  then have "net_life t" "queued_ok (TcpServer_removeConnection v) X t"
    using t net_wf_cong [OF t(1-5)] queued_sameI [of "TcpServer_removeConnection v" X s t] waiting_queued [OF t(9)] by (simp_all add: net_life_def callbacks_def)
  then show "server_ok v X t" using t by (intro server_ok_cong [OF _ _ _ _ _ ok]) simp_all
  show "owed (TcpServer_removeConnection v) D X t" using busyD(2) [OF b] t(5) by (rule owed_cong) simp
  show "only_destroys (D \<union> set (pendingFunctors t))" using busyD(3) [OF b] t by simp
  show "sole v t" using busyD(4) [OF b] t by (simp add: sole_def)
qed

lemma acceptor_busy:
  assumes b: "busy v {} {} s" and env: "env_documented env"
    and run: "Acceptor_handleRead_op (server_accept env) old (env_accept env s) k s = Inr t"
  shows "busy v {} {} t"
proof -
  let ?q = "env_accept env s"
  obtain a where a: "acceptors s k = Some a" using run by (auto simp: Acceptor_handleRead_op_def with_acceptor_def split: option.splits)
  define s1 where "s1 = s\<lparr>sys := sys s @ [Sys_accept (acceptSocket a) (map_sum id fst (an_accept ?q))]\<rparr>"
  have sys: "busy v {} {} (s\<lparr>sys := tr\<rparr>)" for tr by (rule busy_frame [OF b frame_same [OF busyD(5) [OF b]]]) simp_all
  then have s1: "busy v {} {} s1" by (simp add: s1_def)
  show ?thesis
  proof (cases "an_accept ?q")
    case (Inl e)
    have "busy v {} {} (put_acceptor k a' (s\<lparr>sys := tr\<rparr>))" for a' tr using sys [of tr] by (rule busy_cong) (simp_all add: put_acceptor_def)
    with Inl run a s1 show ?thesis
      by (auto simp: Acceptor_handleRead_op_def Socket_accept_def s1_def Let_def split: if_splits)
  next
    case (Inr p)
    obtain fd peer where p: "p = (fd, peer)" by (cases p)
    have "fd_unused fd s" using env Inr p by (auto simp: env_documented_def)
    then have "fd_unused fd s1" by (simp add: fd_unused_def s1_def)
    then show ?thesis using run a Inr p s1 sys server_accept_busy [OF s1 env]
      by (auto simp: Acceptor_handleRead_op_def Socket_accept_def s1_def Let_def split: if_splits option.splits)
  qed
qed

lemma server_callback_busy:
  assumes b: "busy v {} {} s" and env: "env_documented env" and run: "server_callback env cb s = Inr t"
  shows "busy v {} {} t"
proof -
  have os: "os_documented (env_os env)" using env by (simp add: env_documented_def)
  show ?thesis
    using run busy_conns.conn_callback_inv [OF b os, of "env_app env" cb t] busy_frame [OF b timers_frame [OF busyD(5) [OF b] os]]
      busy_frame [OF b run_user_frame [OF busyD(5) [OF b] os]] acceptor_busy [OF b env]
    by (cases cb) simp_all
qed

lemma owed_removed:
  assumes b: "busy v D {} s" and c: "Some (Fn_connectDestroyed c) \<in> D"
  shows "removed v s c"
  using busyD(1,2) [OF b] c by (auto simp: server_ok_def removed_def registry_ok_def mine_def owed_def)

lemma server_functor_busy:
  assumes b: "busy v D {} s" and env: "env_documented env" and f: "Some f \<in> D" and run: "server_functor env f s = Inr t"
  shows "busy v D {} t"
proof -
  have os: "os_documented (env_os env)" using env by (simp add: env_documented_def)
  have ok: "functor_ok f" and go: "run_functor env f s = Inr t" using run by (auto simp: server_functor_def split: if_splits)
  have only: "owner_call f \<Longrightarrow> \<exists>c. f = Fn_connectDestroyed c" using busyD(3) [OF b] f by (auto simp: only_destroys_def)
  have conn: "busy v D {} t" if "conn_functor (env_os env) (env_app env) server_on_close f s = Inr t"
    using b os ok _ _ that by (rule busy_conns.conn_functor_inv) (use owed_removed [OF b] f in simp_all)
  show ?thesis
    using go only conn busy_frame [OF b addTimerInLoop_frame [OF busyD(5) [OF b]]] busy_frame [OF b run_user_frame [OF busyD(5) [OF b] os]]
    by (cases f) simp_all
qed

section \<open>Every iteration keeps the invariant\<close>

lemma busy_take:
  assumes b: "busy v {} {} s"
  shows "busy v (set (pendingFunctors s)) {} (s\<lparr>pendingFunctors := []\<rparr>)"
proof (rule busyI)
  let ?t = "s\<lparr>pendingFunctors := []\<rparr>"
  have ok: "server_ok v {} s" by (rule busyD(1) [OF b])
  have life: "net_life s" and q: "queued_ok (TcpServer_removeConnection v) {} s" using ok by (auto simp: server_ok_def)
  have "queued_ok (TcpServer_removeConnection v) {} ?t" by (simp add: queued_ok_def waiting_def)
  then show "server_ok v {} ?t" by (intro server_ok_cong [OF _ _ _ _ _ ok]) (use life in simp_all)
  show "owed (TcpServer_removeConnection v) (set (pendingFunctors s)) {} ?t" using q [folded owed_queue] by (rule owed_cong) simp_all
  show "only_destroys (set (pendingFunctors s) \<union> set (pendingFunctors ?t))" using busyD(3) [OF b] by simp
  show "sole v ?t" using busyD(4) [OF b] by (simp add: sole_def)
qed

interpretation server_loop: loop_invariant "\<lambda>D s. env_documented env \<longrightarrow> busy v D {} s" "server_callback env" server_alive "server_functor env" for env v
proof (unfold_locales; intro impI)
  fix s :: "'a snet_scheme" and D
  assume env: "env_documented env" and "env_documented env \<longrightarrow> busy v D {} s"
  then have b: "busy v D {} s" by blast
  note wf = busyD(5) [OF b]
  show "busy v D {} (loop_book active current handling time calling evsize running quitting s)"
    for active current handling time calling evsize running quitting
    by (rule busy_frame [OF b frame_same [OF wf]]) (simp_all add: loop_book_def home_def owner_calls_def)
  show "busy v D {} (put_chan c (ch\<lparr>revents := ev\<rparr>) s)" if "chans s c = Some ch" for c ch ev
    by (rule busy_frame [OF b api_frame_same [OF put_chan_net_wf [OF wf that]]]) (simp_all add: same_registration_def)
  show "busy v D {} (put_chan c (ch\<lparr>ch_eventHandling := h\<rparr>) s)" if "chans s c = Some ch" for c ch h
    by (rule busy_frame [OF b api_frame_same [OF put_chan_net_wf [OF wf that]]]) (simp_all add: same_registration_def)
  show "busy v D {} t" if "Some f \<in> D" "server_functor env f s = Inr t" for f t using b env that by (rule server_functor_busy)
  show "busy v {} {} s" using b by (auto simp: busy_def owed_def only_destroys_def)
next
  fix s :: "'a snet_scheme"
  assume env: "env_documented env" and "env_documented env \<longrightarrow> busy v {} {} s"
  then have b: "busy v {} {} s" by blast
  show "busy v {} {} t" if "server_callback env cb s = Inr t" for cb t using b env that by (rule server_callback_busy)
  show "busy v (set (pendingFunctors s)) {} (s\<lparr>pendingFunctors := []\<rparr>)" using b by (rule busy_take)
qed

section \<open>Runs of the loop\<close>

text \<open>
  What happens to the server: iterations of its loop, whatever \<open>epoll_wait\<close> reports; between them, calls of public operations from other threads, and the destruction
  of connections to which neither the server nor a queued functor has a pointer.
\<close>

inductive server_loop_step :: "'m snet_scheme server_env \<Rightarrow> nat \<Rightarrow> 'm snet_scheme \<Rightarrow> 'm snet_scheme \<Rightarrow> bool"
  for env :: "'m snet_scheme server_env" and v :: nat where
  sl_iteration: "server_iteration env answer s = Inr t \<Longrightarrow> server_loop_step env v s t"
| sl_call: "exec_api (env_os env) tid call s = Inr t \<Longrightarrow> server_loop_step env v s t"
| sl_destroy: "removed v s c \<Longrightarrow> \<not> waiting s c \<Longrightarrow> TcpConnection_dtor (threadId s) c s = Inr t \<Longrightarrow> server_loop_step env v s t"

definition server_loop_start :: "nat \<Rightarrow> 'm snet_scheme \<Rightarrow> bool" where
  "server_loop_start v s \<longleftrightarrow> server_start v s \<and> sole v s \<and> only_destroys (set (pendingFunctors s))"

lemma server_loop_start_busy: "server_loop_start v s \<Longrightarrow> busy v {} {} s"
  by (simp add: server_loop_start_def busy_def server_start_ok owed_def)

lemma destroy_busy:
  assumes b: "busy v {} {} s" and out: "removed v s c" "\<not> waiting s c" and run: "TcpConnection_dtor (threadId s) c s = Inr t"
  shows "busy v {} {} t"
proof (rule busyI)
  show "server_ok v {} t" using busyD(1) [OF b] out run by (rule dtor_server_ok)
  have "net_life s" using busyD(1) [OF b] by (simp add: server_ok_def)
  then have h: "home t = home s" using run by (rule dtor_life)
  show "only_destroys ({} \<union> set (pendingFunctors t))" using busyD(3) [OF b] only_destroys_home [OF h, of "{}"] by simp
  show "sole v t" using busyD(4) [OF b] sole_home [OF h] by simp
qed (simp add: owed_def)

lemma server_loop_step_busy:
  assumes env: "env_documented env" and step: "server_loop_step env v s t" and b: "busy v {} {} s"
  shows "busy v {} {} t"
  using step
proof cases
  case (sl_iteration answer)
  have "env_documented env \<longrightarrow> busy v {} {} t"
    by (rule server_loop.iteration_inv) (use b sl_iteration in \<open>simp_all only: server_iteration_def, simp\<close>)
  with env show ?thesis by blast
next
  case (sl_call tid call)
  have "os_documented (env_os env)" using env by (simp add: env_documented_def)
  then show ?thesis using sl_call by (intro busy_frame [OF b] exec_api_frame [OF busyD(5) [OF b]])
next
  case (sl_destroy c)
  with b show ?thesis by (rule destroy_busy)
qed

lemma server_loop_runs:
  "env_documented env \<Longrightarrow> inductive_invariant (server_loop_start v) (server_loop_step env v) (busy v {} {})"
  by unfold_locales (rule server_loop_start_busy server_loop_step_busy; assumption)+

section \<open>A client connects\<close>

text \<open>
  An iteration in which \<open>epoll_wait\<close> reports the listening socket and \<open>accept\<close> succeeds, with the callbacks of the pingpong server: the connection is up and registered
  when it ends. The answers of the environment are those in states with the same connections and channels.
\<close>

definition same_world :: "'m net_scheme \<Rightarrow> 'm net_scheme \<Rightarrow> bool" where
  "same_world s x \<longleftrightarrow> conns x = conns s \<and> conn_log x = conn_log s \<and> channels x = channels s \<and> dom (chans x) = dom (chans s)"

lemma newConnection_up:
  assumes b: "busy v {} {} s" and sv: "servers s v = Some sv" and id: "sv_nextConnId sv \<noteq> 2 ^ 31 - 1"
    and cb: "sv_connectionCallback sv = Some (User_connection k)" and fresh: "fresh_conn c d sockfd s"
  obtains t tc where "TcpServer_newConnection os pingpong_server c d sockname v sockfd peer s = Inr t" "conns t c = Some tc"
    "tc_state tc = kConnected" "mine v tc" "tc_name tc = next_name sv" "tc_socket tc = sockfd" "pendingFunctors t = pendingFunctors s"
    "\<forall>e. e \<noteq> d \<longrightarrow> chans t e = chans s e"
proof -
  have set: "settings_ok (loop_id s) sv" using busyD(1) [OF b] sv by (simp add: server_ok_def)
  have "length (sv_ipPort sv) \<le> 51" "sv_nextConnId sv \<le> 2 ^ 31 - 1" using busyD(4) [OF b] sv by (auto simp: sole_def)
  with set have name: "map_of (sv_connections sv) (next_name sv) = None" by (rule next_name_unused)
  obtain u tc where u: "TcpServer_newConnection os pingpong_server c d sockname v sockfd peer s = connectEstablished os pingpong_server c u"
    "server_ok v {} u" "conns u = (conns s)(c \<mapsto> tc)" "pendingFunctors u = pendingFunctors s" "\<forall>e. e \<noteq> d \<longrightarrow> chans u e = chans s e"
    and tc: "tc_state tc = kConnecting" "mine v tc" "tc_name tc = next_name sv" "connectionCallback tc = Some (User_connection k)" "tc_channel tc = d"
    "tc_socket tc = sockfd"
    by (rule newConnection_registers [OF busyD(1) [OF b] sv fresh name id, of os pingpong_server sockname peer]) (use cb in simp)
  have at: "conns u c = Some tc" using u(3) by simp
  obtain w where w: "connectEstablished os pingpong_server c u = call_connectionCallback os pingpong_server c w"
    "conns w = (conns u)(c \<mapsto> setState kConnected tc)" "pendingFunctors w = pendingFunctors u" "\<forall>e. e \<noteq> tc_channel tc \<longrightarrow> chans w e = chans u e"
    by (rule connectEstablished_eq [OF server_conns.inv_wf [OF u(2)] at tc(1), of os pingpong_server])
  let ?t = "w\<lparr>conn_log := conn_log w @ [(c, True)], sys := Socket_setTcpNoDelay sockfd True (sys w)\<rparr>"
  have "call_connectionCallback os pingpong_server c w = Inr ?t"
    using w(2) tc(4,6) by (simp add: call_connectionCallback_def setState_def connected_def run_app_def TcpConnection_setTcpNoDelay_def Let_def)
  then show thesis using u w tc by (intro that [of ?t "setState kConnected tc"]) (simp_all add: setState_def mine_def)
qed

lemma accept_iteration:
  assumes b: "busy v {} {} s" and sv: "servers s v = Some sv" and id: "sv_nextConnId sv \<noteq> 2 ^ 31 - 1"
    and cb: "sv_connectionCallback sv = Some (User_connection j)" and env: "env_documented env" "env_app env = pingpong_server"
    and a: "acceptors s k = Some a" "acceptorCallback a = Some v" and q: "pendingFunctors s = []"
    and ch: "chans s d0 = Some ch" "readCallback ch = Some (Acceptor_handleRead k)" "\<not> tied ch"
    and acc: "\<And>x. same_world s x \<Longrightarrow> an_accept (env_accept env x) = Inr (sockfd, peer)" "0 \<le> sockfd"
    and new: "\<And>x. same_world s x \<Longrightarrow> env_new env x = Some (c, d)"
  shows "\<exists>t tc. server_iteration env (now, Inr [(d0, POLLIN)]) s = Inr t \<and> conns t c = Some tc \<and> tc_state tc = kConnected \<and> mine v tc \<and>
    tc_name tc = next_name sv \<and> tc_socket tc = sockfd"
proof -
  let ?ch = "ch\<lparr>revents := POLLIN, ch_eventHandling := True\<rparr>" and ?s0 = "s\<lparr>activeChannels := []\<rparr>"
  obtain n where poll: "EPollPoller_poll (Inr [(d0, POLLIN)]) ?s0 = Inr ([d0], (put_chan d0 (ch\<lparr>revents := POLLIN\<rparr>) ?s0)\<lparr>events_size := n\<rparr>)"
  proof (cases "events_size s = 1")
    case True
    then show thesis using ch(1) by (intro that [of 2]) (simp add: EPollPoller_poll_def upd_chan_def put_chan_def)
  next
    case False
    have "(put_chan d0 y ?s0)\<lparr>events_size := events_size s\<rparr> = put_chan d0 y ?s0" for y by (rule snet.equality) (simp_all add: put_chan_def)
    moreover have "events_size (put_chan d0 y ?s0) = events_size s" for y by (simp add: put_chan_def)
    ultimately show thesis using ch(1) False by (intro that [of "events_size s"]) (simp add: EPollPoller_poll_def upd_chan_def)
  qed
  define p where "p = (put_chan d0 (ch\<lparr>revents := POLLIN\<rparr>) ?s0)\<lparr>events_size := n, activeChannels := [d0], pollReturnTime := now, eventHandling := True,
    currentActiveChannel := Some d0\<rparr>"
  define x where "x = (put_chan d0 ?ch p)\<lparr>sys := sys s @ [Sys_accept (acceptSocket a) (Inr sockfd)]\<rparr>"
  have p: "chans p d0 = Some (ch\<lparr>revents := POLLIN\<rparr>)" by (simp add: p_def put_chan_def)
  have x: "conns x = conns s" "servers x = servers s" "pendingFunctors x = []" "chans x = (chans s)(d0 \<mapsto> ?ch)"
    using q by (simp_all add: x_def p_def put_chan_def)
  have world: "same_world s (put_chan d0 ?ch p)" "same_world s x" using ch(1) by (auto simp: same_world_def x_def p_def put_chan_def)
  have bx: "busy v {} {} x"
  proof -
    have "busy v {} {} (put_chan d0 (ch\<lparr>revents := POLLIN\<rparr>) s)"
      by (rule busy_frame [OF b api_frame_same [OF put_chan_net_wf [OF busyD(5) [OF b] ch(1)]]]) (simp_all add: same_registration_def)
    then have bp: "busy v {} {} p" by (rule busy_cong) (simp_all add: p_def put_chan_def)
    have "busy v {} {} (put_chan d0 ?ch p)"
      by (rule busy_frame [OF bp api_frame_same [OF put_chan_net_wf [OF busyD(5) [OF bp] p]]]) (simp_all add: same_registration_def)
    then show ?thesis by (rule busy_cong) (simp_all add: x_def put_chan_def)
  qed
  have "fd_unused sockfd x" using env(1) acc(1) [OF world(2)] by (auto simp: env_documented_def)
  then have fresh: "fresh_conn c d sockfd x" using env(1) new [OF world(2)] by (auto simp: env_documented_def fresh_conn_def fd_unused_def)
  have sx: "servers x v = Some sv" using sv x(2) by simp
  obtain t tc where t: "TcpServer_newConnection (env_os env) pingpong_server c d (env_sockname env x) v sockfd peer x = Inr t" "conns t c = Some tc"
    "tc_state tc = kConnected" "mine v tc" "tc_name tc = next_name sv" "tc_socket tc = sockfd" "pendingFunctors t = pendingFunctors x"
    "\<forall>e. e \<noteq> d \<longrightarrow> chans t e = chans x e"
    by (rule newConnection_up [OF bx sx id cb fresh])
  have "server_accept env v sockfd peer x = Inr t" using new [OF world(2)] env(2) t(1) by (simp add: server_accept_def)
  moreover have "acceptors (put_chan d0 ?ch p) k = Some a" "sys (put_chan d0 ?ch p) = sys s" using a by (simp_all add: p_def put_chan_def)
  ultimately have acp: "server_callback env (Acceptor_handleRead k) (put_chan d0 ?ch p) = Inr t"
    using a acc(2) acc(1) [OF world(1)] by (simp add: Acceptor_handleRead_op_def Socket_accept_def x_def)
  have "d0 \<noteq> d" using fresh x(4) by (auto simp: fresh_conn_def)
  then have td: "chans t d0 = Some ?ch" using t(8) x(4) by simp
  have ev: "\<not> close_happened POLLIN" "\<not> error_happened POLLIN" "read_happened POLLIN" "\<not> write_happened POLLIN" by code_simp+
  let ?t = "put_chan d0 (?ch\<lparr>ch_eventHandling := False\<rparr>) t"
  have "handleEventWithGuard (server_callback env) d0 p = Inr ?t"
    using p td ev ch(2) acp by (simp add: handleEventWithGuard_def upd_chan_def call_if_def)
  then have "handleEvent (server_callback env) server_alive d0 p = Inr ?t" using p ch(3) by (simp add: handleEvent_def)
  then have act: "rfold (handle_active (server_callback env) server_alive) [d0]
      ((put_chan d0 (ch\<lparr>revents := POLLIN\<rparr>) ?s0)\<lparr>events_size := n, activeChannels := [d0], pollReturnTime := now, eventHandling := True\<rparr>) = Inr ?t"
    by (simp add: handle_active_def p_def)
  have "doPendingFunctors (server_functor env) (?t\<lparr>currentActiveChannel := None, eventHandling := False\<rparr>) =
      Inr (pending_end (snd (pending_begin (?t\<lparr>currentActiveChannel := None, eventHandling := False\<rparr>))))"
    using t(7) x(3) by (simp add: doPendingFunctors_def pending_begin_def put_chan_def)
  then have "server_iteration env (now, Inr [(d0, POLLIN)]) s =
      Inr (pending_end (snd (pending_begin (?t\<lparr>currentActiveChannel := None, eventHandling := False\<rparr>))))"
    using poll act by (simp add: server_iteration_def loop_iteration_def)
  then show ?thesis using t(2-6) by (simp add: pending_end_def pending_begin_def)
qed

section \<open>The program of the pingpong server\<close>

text \<open>
  \<open>main\<close> of \<open>example/pingpong/server.cc\<close> up to \<open>loop.loop()\<close>. \<open>server_boot\<close> has what the kernel and the memory give it: the thread, the descriptors of the timer, the event
  descriptor, the listening socket and the reserve, the uninitialised \<open>started_\<close> and the stack memory of the address. Without enough
  arguments it only prints its usage. A number for \<open>atoi\<close> that is no \<open>int\<close> is undefined behaviour.
\<close>

fun digits_value :: "int \<Rightarrow> string \<Rightarrow> int" where
  "digits_value n [] = n"
| "digits_value n (c # cs) = (if is_digit c then digits_value (10 * n + int (of_char c - 48)) cs else n)"

definition is_space :: "char \<Rightarrow> bool" where
  "is_space c \<longleftrightarrow> c = CHR '' '' \<or> (9 \<le> (of_char c :: nat) \<and> (of_char c :: nat) \<le> 13)"

definition atoi :: "string \<Rightarrow> int result" where
  "atoi str =
     (let str1 = dropWhile is_space str;
          n = (case str1 of c # cs \<Rightarrow> if c = CHR ''-'' then - digits_value 0 cs else if c = CHR ''+'' then digits_value 0 cs else digits_value 0 str1
               | [] \<Rightarrow> 0)
      in if - (2 ^ 31) \<le> n \<and> n < 2 ^ 31 then Inr n else Inl Signed_overflow)"

record server_boot =
  bt_tid :: nat
  bt_timerfd :: fd
  bt_eventfd :: fd
  bt_sockfd :: fd
  bt_idle :: fd
  bt_started :: cint
  bt_stack :: InetAddress

definition program_state :: "fd \<Rightarrow> loop \<Rightarrow> snet" where
  "program_state tfd l =
     loop.extend l
       \<lparr>timer_mem = Map.empty, timers = [], s_numCreated = 0, callingExpiredTimers = False, timerfd = tfd, armed = [],
        conns = Map.empty, sys = [], caller_mem = Map.empty, conn_log = [], acceptors = Map.empty,
        servers = Map.empty, conn_home = Map.empty, remote = (\<lambda>_. [])\<rparr>"

definition server_main :: "(string \<Rightarrow> byte list option) \<Rightarrow> (byte list \<Rightarrow> string) \<Rightarrow> (nat \<Rightarrow> nat) \<Rightarrow> server_boot \<Rightarrow> string list \<Rightarrow>
    snet option result" where
  "server_main pton6 ntop6 loop_of bt argv =
     (if length argv < 4 then Inr None
      else
        rbind (atoi (argv ! 2)) (\<lambda>port.
        rbind (atoi (argv ! 3)) (\<lambda>threadCount.
        let listenAddr = InetAddress_of_ip pton6 (bt_stack bt) (argv ! 1) (word_of_int port) False in
        rbind (EventLoop_ctor 0 (bt_tid bt) (bt_timerfd bt) (bt_eventfd bt)) (\<lambda>l.
        rbind (TcpServer_ctor ntop6 0 0 2 (bt_sockfd bt) (bt_idle bt) (bt_started bt) listenAddr ''PingPong'' False
                 (program_state (bt_timerfd bt) l)) (\<lambda>s1.
        with_server 0 s1 (\<lambda>sv.
        let s2 = put_server 0 (TcpServer_setMessageCallback (Some (User_message 0))
                   (TcpServer_setConnectionCallback (Some (User_connection 0)) sv)) s1 in
        rbind (if 1 < threadCount then TcpServer_setThreadNum 0 threadCount s2 else Inr s2) (\<lambda>s3.
        rbind (TcpServer_start loop_of (bt_tid bt) 0 s3) (\<lambda>s4. Inr (Some s4)))))))))"

lemma ipv4_text:
  assumes "sin_family a = AF_INET"
  obtains str1 where "InetAddress_toIpPort ntop6 a = Inr str1" "length str1 \<le> 21"
  using assms show_nat_port [of "networkToHost16 (sin_port a)"] inet_ntop4_length [of "sin_addr a"]
  by (auto simp: InetAddress_toIpPort_def toIpPort_def toIp_def snprintf_at_def AF_INET_def AF_INET6_def INET_ADDRSTRLEN_def)

lemma ipv4_family: "CHR '':'' \<notin> set ip \<Longrightarrow> sin_family (InetAddress_of_ip pton6 old ip port False) = AF_INET"
  by (simp add: InetAddress_of_ip_def fromIpPort4_def Let_def split: option.splits)

text \<open>The constructor of a server, and \<open>start()\<close> in the thread of the loop and without a thread pool.\<close>

lemma TcpServer_ctor_eq:
  fixes s :: "'m snet_scheme"
  assumes "InetAddress_toIpPort ntop6 addr = Inr ipPort" and "0 \<le> idle"
  shows "TcpServer_ctor ntop6 v k d sockfd idle started0 addr name reuse s =
    Inr (put_acceptor k \<lparr>acceptSocket = sockfd, acceptChannel = d, acceptorCallback = Some v, listening = False, idleFd = idle\<rparr>
     (put_server v \<lparr>sv_ipPort = ipPort, sv_name = name, sv_acceptor = k, sv_pool = EventLoopThreadPool_ctor (loop_id s) name,
        sv_connectionCallback = Some defaultConnectionCallback, sv_messageCallback = Some defaultMessageCallback,
        sv_writeCompleteCallback = None, sv_threadInitCallback = False, sv_started = started0, sv_nextConnId = 1, sv_connections = []\<rparr>
      (put_chan d (setReadCallback (Some (Acceptor_handleRead k)) (Channel_ctor (loop_id s) sockfd))
       (s\<lparr>sys := Socket_bindAddress sockfd addr (Socket_setReusePort sockfd reuse
          (Socket_setReuseAddr sockfd True (sys s @ [Sys_socket (sin_family addr), Sys_open_null idle])))\<rparr>))))"
proof -
  have "put_acceptor k a (put_server v sv (put_acceptor k b x)) = put_acceptor k a (put_server v sv x)" for a b sv and x :: "'m snet_scheme"
    by (rule snet.equality) (simp_all add: put_acceptor_def put_server_def)
  moreover have "with_acceptor k (put_acceptor k b x) f = f b" for b and f :: "Acceptor \<Rightarrow> 'm snet_scheme result" and x :: "'m snet_scheme" by (simp add: with_acceptor_def put_acceptor_def)
  moreover have "loop_id (put_acceptor k b (put_chan d ch (s\<lparr>sys := tr\<rparr>))) = loop_id s" for b ch tr by (simp add: put_acceptor_def put_chan_def)
  ultimately show ?thesis
    using assms
    by (simp add: TcpServer_ctor_def Acceptor_ctor_def sockets_createNonblockingOrDie_def Acceptor_setNewConnectionCallback_def Let_def)
qed

lemma TcpServer_start_eq:
  assumes "servers s v = Some sv" and "sv_started sv = 0" and "sv_acceptor sv = k" and "sv_pool sv = p" and "\<not> pool_started p" and "numThreads p = 0"
    and "acceptors s k = Some a" and "\<not> listening a" and "acceptSocket a = sockfd" and "acceptChannel a = d"
  shows "TcpServer_start loop_of (threadId s) v s =
    enableReading d (put_acceptor k (a\<lparr>listening := True\<rparr>) ((put_server v (sv\<lparr>sv_started := 1, sv_pool := p\<lparr>pool_started := True\<rparr>\<rparr>) s)
      \<lparr>sys := Socket_listen sockfd (sys s)\<rparr>))"
proof -
  have "acceptors (put_server v x s) = acceptors s" "isInLoopThread (threadId s) (put_server v x s)" for x
    by (simp_all add: put_server_def isInLoopThread_def)
  then show ?thesis using assms by (simp add: TcpServer_start_def pool_start_def runInLoop_def Acceptor_listen_def Let_def)
qed

text \<open>The state in which \<open>main\<close> enters the loop, on an IPv4 address and without a thread pool: the server is set up and listens.\<close>

lemma server_main_starts:
  assumes argv: "4 \<le> length argv" "atoi (argv ! 2) = Inr port" "atoi (argv ! 3) = Inr n" "n \<le> 1" "CHR '':'' \<notin> set (argv ! 1)"
    and bt: "bt_started bt = 0" "distinct [bt_timerfd bt, bt_eventfd bt, bt_sockfd bt]" "0 \<le> bt_eventfd bt" "0 \<le> bt_idle bt"
  obtains s sv where "server_main pton6 ntop6 loop_of bt argv = Inr (Some s)" "server_loop_start 0 s" "servers s 0 = Some sv"
    "sv_connectionCallback sv = Some (User_connection 0)" "sv_messageCallback sv = Some (User_message 0)"
    "registered (epoll_log s) (bt_sockfd bt) = Some (kReadEvent, 2)" "\<exists>ch. chans s 2 = Some ch \<and> readCallback ch = Some (Acceptor_handleRead 0) \<and> \<not> tied ch"
    "\<exists>a. acceptors s 0 = Some a \<and> listening a \<and> acceptorCallback a = Some 0" "Sys_listen (bt_sockfd bt) \<in> set (sys s)"
    "pendingFunctors s = []" "conn_log s = []" "dom (chans s) = {0, 1, 2}" "dom (channels s) = {bt_timerfd bt, bt_eventfd bt, bt_sockfd bt}" "sv_nextConnId sv = 1"
    "sv_name sv = ''PingPong''" "InetAddress_toIpPort ntop6 (InetAddress_of_ip pton6 (bt_stack bt) (argv ! 1) (word_of_int port) False) = Inr (sv_ipPort sv)"
proof -
  define addr where "addr = InetAddress_of_ip pton6 (bt_stack bt) (argv ! 1) (word_of_int port) False"
  obtain str1 where str1: "InetAddress_toIpPort ntop6 addr = Inr str1" "length str1 \<le> 21"
    unfolding addr_def by (rule ipv4_text [OF ipv4_family [OF argv(5)]])
  obtain l where l: "EventLoop_ctor 0 (bt_tid bt) (bt_timerfd bt) (bt_eventfd bt) = Inr l" "loop_wf l" "pendingFunctors l = []" "loop_id l = 0"
    "threadId l = bt_tid bt" "dom (chans l) = {0, 1}" "channels l = [bt_timerfd bt \<mapsto> 0, bt_eventfd bt \<mapsto> 1]"
    using EventLoop_ctor_eq [of "bt_timerfd bt" "bt_eventfd bt" 0 "bt_tid bt"] bt(2,3) by auto
  define ps where "ps = program_state (bt_timerfd bt) l"
  have ps: "chans ps = chans l" "channels ps = channels l" "epoll_log ps = epoll_log l" "loop_id ps = 0" "threadId ps = bt_tid bt"
    "pendingFunctors ps = []" "conns ps = Map.empty" "conn_log ps = []" "servers ps = Map.empty"
    using l(3-5) by (simp_all add: ps_def program_state_def loop.defs)
  define ch where "ch = setReadCallback (Some (Acceptor_handleRead 0)) (Channel_ctor 0 (bt_sockfd bt))"
  define a where "a = \<lparr>acceptSocket = bt_sockfd bt, acceptChannel = 2, acceptorCallback = Some 0, listening = False, idleFd = bt_idle bt\<rparr>"
  define sv0 where "sv0 = \<lparr>sv_ipPort = str1, sv_name = ''PingPong'', sv_acceptor = 0, sv_pool = EventLoopThreadPool_ctor 0 ''PingPong'',
     sv_connectionCallback = Some defaultConnectionCallback, sv_messageCallback = Some defaultMessageCallback, sv_writeCompleteCallback = None,
     sv_threadInitCallback = False, sv_started = 0, sv_nextConnId = 1, sv_connections = []\<rparr>"
  define sv1 where "sv1 = TcpServer_setMessageCallback (Some (User_message 0)) (TcpServer_setConnectionCallback (Some (User_connection 0)) sv0)"
  define sv where "sv = sv1\<lparr>sv_started := 1, sv_pool := (EventLoopThreadPool_ctor 0 ''PingPong'')\<lparr>pool_started := True\<rparr>\<rparr>"
  obtain tr where ctor: "TcpServer_ctor ntop6 0 0 2 (bt_sockfd bt) (bt_idle bt) (bt_started bt) addr ''PingPong'' False ps =
      Inr (put_acceptor 0 a (put_server 0 sv0 (put_chan 2 ch (ps\<lparr>sys := tr\<rparr>))))"
    unfolding a_def sv0_def ch_def TcpServer_ctor_eq [OF str1(1) bt(4)] bt(1) ps(4) by blast
  define s2 where "s2 = put_server 0 sv1 (put_acceptor 0 a (put_server 0 sv0 (put_chan 2 ch (ps\<lparr>sys := tr\<rparr>))))"
  define u where "u = put_acceptor 0 (a\<lparr>listening := True\<rparr>) ((put_server 0 sv s2)\<lparr>sys := Socket_listen (bt_sockfd bt) tr\<rparr>)"
  have s2: "servers s2 0 = Some sv1" "acceptors s2 0 = Some a" "threadId s2 = bt_tid bt" "sys s2 = tr"
    using ps(5) by (simp_all add: s2_def put_acceptor_def put_server_def put_chan_def)
  have sv1: "sv_started sv1 = 0" "sv_acceptor sv1 = 0" "sv_pool sv1 = EventLoopThreadPool_ctor 0 ''PingPong''"
    by (simp_all add: sv1_def sv0_def TcpServer_setMessageCallback_def TcpServer_setConnectionCallback_def)
  have start: "TcpServer_start loop_of (bt_tid bt) 0 s2 = enableReading 2 u"
    using TcpServer_start_eq [OF s2(1) sv1 _ _ s2(2), of "bt_sockfd bt" 2 loop_of] s2(3,4)
    by (simp add: u_def sv_def a_def EventLoopThreadPool_ctor_def)
  have "servers (put_acceptor 0 a (put_server 0 sv0 (put_chan 2 ch (ps\<lparr>sys := tr\<rparr>)))) 0 = Some sv0" by (simp add: put_acceptor_def put_server_def)
  then have run: "server_main pton6 ntop6 loop_of bt argv = rbind (enableReading 2 u) (\<lambda>s. Inr (Some s))"
    using argv(1-4) l(1) ctor start by (simp add: server_main_def addr_def ps_def s2_def sv1_def Let_def)
  have u: "chans u = (chans l)(2 \<mapsto> ch)" "channels u = channels l" "epoll_log u = epoll_log l" "loop_id u = 0" "threadId u = bt_tid bt"
    "pendingFunctors u = []" "conns u = Map.empty" "conn_log u = []" "servers u = [0 \<mapsto> sv]" "acceptors u 0 = Some (a\<lparr>listening := True\<rparr>)"
    "Sys_listen (bt_sockfd bt) \<in> set (sys u)"
    using ps by (simp_all add: u_def s2_def put_acceptor_def put_server_def put_chan_def Socket_listen_def sockets_listenOrDie_def)
  have ch: "index ch = kNew" "isNoneEvent ch" "ownerLoop ch = loop_id l" "events ch = 0" "ch_fd ch = bt_sockfd bt" "readCallback ch = Some (Acceptor_handleRead 0)" "\<not> tied ch"
    using l(4) by (simp_all add: ch_def Channel_ctor_def setReadCallback_def kNew_def isNoneEvent_def kNoneEvent_def)
  have "2 \<notin> dom (chans l)" unfolding l(6) by simp
  then have "chans l 2 = None" by blast
  with l(2) have "loop_wf (put_chan 2 ch l)" using ch(1-3) by (rule put_new_chan_wf)
  then have wf: "loop_wf u" using loop_wf_transfer [of u "put_chan 2 ch l"] u(1-4) l(4) by (simp add: put_chan_def)
  have free: "fd_free u ch" using u(2) l(7) bt(2) ch(1,5) by (simp add: fd_free_def)
  have at: "chans u 2 = Some ch" using u(1) by simp
  define t where "t = after_update 2 ch kReadEvent u"
  have main: "server_main pton6 ntop6 loop_of bt argv = Inr (Some t)" using run channel_op_eq [OF wf at free, of EnableReading] ch(4) by (simp add: t_def)
  have t: "conns t = Map.empty" "pendingFunctors t = []" "servers t = [0 \<mapsto> sv]" "loop_id t = 0" "loop_wf t" "acceptors t = acceptors u"
    "chans t 2 = Some (ch\<lparr>events := kReadEvent, addedToLoop := True, index := next_index ch kReadEvent\<rparr>)" "sys t = sys u" "conn_log t = []"
    using u after_update_loop_wf [OF wf at free] by (simp_all add: t_def after_update_def)
  have sv: "sv_connections sv = []" "sv_nextConnId sv = 1" "sv_ipPort sv = str1" "pool_loops (sv_pool sv) = []" "baseLoop (sv_pool sv) = 0"
    "sv_connectionCallback sv = Some (User_connection 0)" "sv_messageCallback sv = Some (User_message 0)" "sv_name sv = ''PingPong''"
    by (simp_all add: sv_def sv1_def sv0_def TcpServer_setMessageCallback_def TcpServer_setConnectionCallback_def EventLoopThreadPool_ctor_def)
  have "net_wf t" using t(1,5) by (simp add: net_wf_def)
  then have "server_start 0 t" using t(1-4) sv(1-5) str1(2) by (simp add: server_start_def waiting_def)
  moreover have "sole 0 t" using t(3) by (rule soleI) (use sv(2,3) str1(2) in simp_all)
  ultimately have "server_loop_start 0 t" using t(2) by (simp add: server_loop_start_def only_destroys_def)
  moreover have "registered (epoll_log t) (bt_sockfd bt) = Some (kReadEvent, 2)"
    using ch(1,5) by (simp add: t_def after_update_def next_op_def index_defs kNoneEvent_def)
  moreover have "dom (chans t) = {0, 1, 2}" using u(1) l(6) by (auto simp: t_def after_update_def)
  moreover have "dom (channels t) = {bt_timerfd bt, bt_eventfd bt, bt_sockfd bt}" using u(2) l(7) ch(5) by (auto simp: t_def after_update_def)
  ultimately show thesis using main t sv u(10,11) ch(6,7) str1(1) by (intro that [of t sv]) (simp_all add: a_def addr_def)
qed

section \<open>Property\<close>

text \<open>
  C7. The pingpong server as a program. Given an IPv4 address, a port and at most one thread, \<open>main\<close> sets the server up without a fault and enters the loop with its
  socket listening and registered. From then on, whatever \<open>epoll_wait\<close> reports in each iteration, whatever clients do, whatever other threads call
  between iterations, and whichever finished connections are destroyed: after every iteration \<open>connections_\<close> has exactly the connections that are not closed, each under
  its own name, every connection has told the user what its state says, and a connection whose \<open>connectDestroyed\<close> waits in the queue still exists and is closed.
\<close>

theorem pingpong_server_program:
  assumes "4 \<le> length argv" and "atoi (argv ! 2) = Inr port" and "atoi (argv ! 3) = Inr n" and "n \<le> 1" and "CHR '':'' \<notin> set (argv ! 1)"
    and "bt_started bt = 0" and "distinct [bt_timerfd bt, bt_eventfd bt, bt_sockfd bt]" and "0 \<le> bt_eventfd bt" and "0 \<le> bt_idle bt"
    and env: "env_documented env"
  shows "\<exists>s. server_main pton6 ntop6 loop_of bt argv = Inr (Some s) \<and> registered (epoll_log s) (bt_sockfd bt) = Some (kReadEvent, 2) \<and>
    Sys_listen (bt_sockfd bt) \<in> set (sys s) \<and>
    (\<forall>t. reachable_from (\<lambda>x. x = s) (server_loop_step env 0) t \<longrightarrow> net_life t \<and> (\<exists>sv. servers t 0 = Some sv \<and>
       (\<forall>name c. map_of (sv_connections sv) name = Some c \<longleftrightarrow>
          (\<exists>tc. conns t c = Some tc \<and> tc_name tc = name \<and> mine 0 tc \<and> tc_state tc \<noteq> kDisconnected)) \<and>
       (\<forall>c. waiting t c \<longrightarrow> (\<exists>tc. conns t c = Some tc \<and> (mine 0 tc \<longrightarrow> tc_state tc = kDisconnected)))))"
  using assms(1-9)
proof (rule server_main_starts [where ?pton6.0 = pton6 and ?ntop6.0 = ntop6 and loop_of = loop_of])
  fix s sv
  assume s: "server_main pton6 ntop6 loop_of bt argv = Inr (Some s)" "server_loop_start 0 s"
    "registered (epoll_log s) (bt_sockfd bt) = Some (kReadEvent, 2)" "Sys_listen (bt_sockfd bt) \<in> set (sys s)"
  have "inductive_invariant (\<lambda>x. x = s) (server_loop_step env 0) (busy 0 {} {})"
    by unfold_locales (simp add: server_loop_start_busy [OF s(2)], rule server_loop_step_busy [OF env])
  then have "busy 0 {} {} t" if "reachable_from (\<lambda>x. x = s) (server_loop_step env 0) t" for t
    using that by (rule inductive_invariant.reachable_inv)
  note ok = busyD(1) [OF this]
  show ?thesis
  proof (intro exI [of _ s] conjI allI impI s)
    fix t assume "reachable_from (\<lambda>x. x = s) (server_loop_step env 0) t"
    from ok [OF this] show "net_life t" "\<exists>sv. servers t 0 = Some sv \<and>
       (\<forall>name c. map_of (sv_connections sv) name = Some c \<longleftrightarrow>
          (\<exists>tc. conns t c = Some tc \<and> tc_name tc = name \<and> mine 0 tc \<and> tc_state tc \<noteq> kDisconnected)) \<and>
       (\<forall>c. waiting t c \<longrightarrow> (\<exists>tc. conns t c = Some tc \<and> (mine 0 tc \<longrightarrow> tc_state tc = kDisconnected)))"
      by (auto simp: server_ok_def registry_ok_def queued_ok_def mine_def)
  qed
qed

section \<open>Witness\<close>

definition eager_env :: "snet server_env" where
  "eager_env = \<lparr>env_os = sample_os, env_app = pingpong_server, env_user = (\<lambda>k s. []),
     env_accept = (\<lambda>s. \<lparr>an_accept = Inr (8, zero_addr), an_logged = 0, an_relogged = id, an_retry = Inl EMFILE, an_null = 7\<rparr>),
     env_sockname = (\<lambda>s. Inr zero_addr), env_new = (\<lambda>s. Some (9, 3)), env_stack = zero_addr, env_clock = (\<lambda>s. (0, 0))\<rparr>"

text \<open>The same, with errors where the descriptor or the addresses are in use.\<close>

definition sample_env :: "snet server_env" where
  "sample_env = eager_env\<lparr>
     env_accept := (\<lambda>s. if fd_unused 8 s then env_accept eager_env s else (env_accept eager_env s)\<lparr>an_accept := Inl EAGAIN\<rparr>),
     env_new := (\<lambda>s. if conns s 9 = None \<and> callbacks s 9 = [] \<and> chans s 3 = None then Some (9, 3) else None)\<rparr>"

definition sample_boot :: server_boot where
  "sample_boot = \<lparr>bt_tid = 3, bt_timerfd = 4, bt_eventfd = 5, bt_sockfd = 6, bt_idle = 7, bt_started = 0, bt_stack = zero_addr\<rparr>"

abbreviation sample_argv :: "string list" where
  "sample_argv \<equiv> [''server'', ''127.0.0.1'', ''80'', ''1'']"

lemma sample_env_documented: "env_documented sample_env"
  using sample_os_ok by (auto simp: env_documented_def sample_env_def eager_env_def split: if_splits)

lemma sample_first_client:
  obtains s t tc where "server_main (\<lambda>_. None) (\<lambda>_. []) id sample_boot sample_argv = Inr (Some s)"
    "server_iteration sample_env (1, Inr [(2, POLLIN)]) s = Inr t" "conns t 9 = Some tc" "tc_state tc = kConnected" "mine 0 tc"
    "tc_name tc = ''PingPong-127.0.0.1:80#1''"
proof -
  have argv: "atoi (sample_argv ! 2) = Inr 80" "atoi (sample_argv ! 3) = Inr 1" "CHR '':'' \<notin> set (sample_argv ! 1)" by code_simp+
  obtain s sv where s: "server_main (\<lambda>_. None) (\<lambda>_. []) id sample_boot sample_argv = Inr (Some s)" "server_loop_start 0 s" "servers s 0 = Some sv"
    "\<exists>ch. chans s 2 = Some ch \<and> readCallback ch = Some (Acceptor_handleRead 0) \<and> \<not> tied ch"
    "\<exists>a. acceptors s 0 = Some a \<and> listening a \<and> acceptorCallback a = Some 0" "pendingFunctors s = []" "conn_log s = []" "dom (chans s) = {0, 1, 2}"
    "dom (channels s) = {bt_timerfd sample_boot, bt_eventfd sample_boot, bt_sockfd sample_boot}"
    and sv: "sv_connectionCallback sv = Some (User_connection 0)" "sv_nextConnId sv = 1" "sv_name sv = ''PingPong''"
    "InetAddress_toIpPort (\<lambda>_. []) (InetAddress_of_ip (\<lambda>_. None) (bt_stack sample_boot) (sample_argv ! 1) (word_of_int 80) False) = Inr (sv_ipPort sv)"
    by (rule server_main_starts [OF _ argv(1,2) _ argv(3), of sample_boot "\<lambda>_. None" "\<lambda>_. []" id]) (simp_all add: sample_boot_def)
  have "InetAddress_toIpPort (\<lambda>_. []) (InetAddress_of_ip (\<lambda>_. None) (bt_stack sample_boot) (sample_argv ! 1) (word_of_int 80) False) = Inr ''127.0.0.1:80''"
    by code_simp
  then have "sv_ipPort sv = ''127.0.0.1:80''" using sv(4) by simp
  then have name: "next_name sv = ''PingPong-127.0.0.1:80#1''"
    using sv(2,3) by (simp add: next_name_def conn_suffix_def show_int_def show_nat.simps)
  have none: "conns s = Map.empty" using s(2) by (simp add: server_loop_start_def server_start_def fun_eq_iff)
  have "3 \<notin> dom (chans s)" "8 \<notin> dom (channels s)" using s(8,9) by (simp_all add: sample_boot_def)
  then have free: "fd_unused 8 x" "conns x 9 = None" "callbacks x 9 = []" "chans x 3 = None" if "same_world s x" for x
    using that none s(7) by (auto simp: same_world_def fd_unused_def callbacks_def)
  obtain ch where ch: "chans s 2 = Some ch" "readCallback ch = Some (Acceptor_handleRead 0)" "\<not> tied ch" using s(4) by blast
  obtain a where a: "acceptors s 0 = Some a" "acceptorCallback a = Some 0" using s(5) by blast
  have id: "sv_nextConnId sv \<noteq> 2 ^ 31 - 1" using sv(2) by simp
  have "env_app sample_env = pingpong_server" by (simp add: sample_env_def eager_env_def)
  then obtain t tc where "server_iteration sample_env (1, Inr [(2, POLLIN)]) s = Inr t" "conns t 9 = Some tc" "tc_state tc = kConnected" "mine 0 tc"
    "tc_name tc = next_name sv"
    using accept_iteration [OF server_loop_start_busy [OF s(2)] s(3) id sv(1) sample_env_documented _ a s(6) ch, of 8 zero_addr 9 3 1] free
    by (auto simp: sample_env_def eager_env_def)
  with s(1) name show thesis by (intro that) simp_all
qed

theorem pingpong_server_program_witness:
  "env_documented sample_env \<and>
   (\<exists>s t sv. server_main (\<lambda>_. None) (\<lambda>_. []) id sample_boot sample_argv = Inr (Some s) \<and>
      server_iteration sample_env (1, Inr [(2, POLLIN)]) s = Inr t \<and> servers t 0 = Some sv \<and>
      map_of (sv_connections sv) ''PingPong-127.0.0.1:80#1'' = Some 9)"
proof (rule sample_first_client)
  fix s t tc
  assume s: "server_main (\<lambda>_. None) (\<lambda>_. []) id sample_boot sample_argv = Inr (Some s)"
    and t: "server_iteration sample_env (1, Inr [(2, POLLIN)]) s = Inr t"
    and tc: "conns t 9 = Some tc" "tc_state tc = kConnected" "mine 0 tc" "tc_name tc = ''PingPong-127.0.0.1:80#1''"
  have argv: "atoi (sample_argv ! 2) = Inr 80" "atoi (sample_argv ! 3) = Inr 1" "CHR '':'' \<notin> set (sample_argv ! 1)" by code_simp+
  have "\<exists>s'. server_main (\<lambda>_. None) (\<lambda>_. []) id sample_boot sample_argv = Inr (Some s') \<and>
      registered (epoll_log s') (bt_sockfd sample_boot) = Some (kReadEvent, 2) \<and> Sys_listen (bt_sockfd sample_boot) \<in> set (sys s') \<and>
    (\<forall>t. reachable_from (\<lambda>x. x = s') (server_loop_step sample_env 0) t \<longrightarrow> net_life t \<and> (\<exists>sv. servers t 0 = Some sv \<and>
       (\<forall>name c. map_of (sv_connections sv) name = Some c \<longleftrightarrow>
          (\<exists>tc. conns t c = Some tc \<and> tc_name tc = name \<and> mine 0 tc \<and> tc_state tc \<noteq> kDisconnected)) \<and>
       (\<forall>c. waiting t c \<longrightarrow> (\<exists>tc. conns t c = Some tc \<and> (mine 0 tc \<longrightarrow> tc_state tc = kDisconnected)))))"
    by (rule pingpong_server_program [OF _ argv(1,2) _ argv(3)]) (simp_all add: sample_boot_def sample_env_documented)
  moreover have "reachable_from (\<lambda>x. x = s) (server_loop_step sample_env 0) t"
    using reach_init [of "\<lambda>x. x = s", OF refl] server_loop_step.sl_iteration [OF t] by (rule reach_step)
  ultimately obtain sv where "servers t 0 = Some sv" "map_of (sv_connections sv) ''PingPong-127.0.0.1:80#1'' = Some 9"
    using s tc by fastforce
  with s t sample_env_documented show ?thesis by blast
qed

end
