(* ===== verification/Siren_ServerEnd.thy ===== *)
theory Siren_ServerEnd
  imports Siren_ServerLoop
begin

text \<open>
  The end of a server without a thread pool: \<open>TcpServer::~TcpServer\<close> of \<open>src/net/TcpServer.cpp\<close>, called in the thread of the loop and outside of it, runs
  \<open>TcpConnection::connectDestroyed\<close> on the connections of \<open>connections_\<close> one after the other; then the acceptor is destroyed (\<open>src/net/Acceptor.cpp\<close>). The definitions are
  those of \<open>Siren_Server\<close>, \<open>Siren_TcpConnection\<close> and \<open>Siren_Acceptor\<close>.
\<close>

section \<open>One connection\<close>

text \<open>User code that does nothing when it is told that a connection is down, as that of the pingpong server.\<close>

definition quiet_down :: "(app_call \<Rightarrow> 'm net_scheme \<Rightarrow> api_call list) \<Rightarrow> bool" where
  "quiet_down app \<longleftrightarrow> (\<forall>k c s tc. conns s c = Some tc \<longrightarrow> tc_state tc = kDisconnected \<longrightarrow> app (App_connection k c) s = [])"

lemma callback_down:
  assumes tc: "conns s c = Some tc" "tc_state tc = kDisconnected" "connectionCallback tc \<noteq> None" and app: "quiet_down app"
  shows "call_connectionCallback os app c s = Inr (s\<lparr>conn_log := conn_log s @ [(c, False)]\<rparr>)"
proof (cases "connectionCallback tc")
  case (Some cb)
  let ?u = "s\<lparr>conn_log := conn_log s @ [(c, False)]\<rparr>"
  have "conns ?u c = Some tc" using tc(1) by simp
  then have "app (App_connection k c) ?u = []" for k using app tc(2) unfolding quiet_down_def by blast
  then show ?thesis using tc Some by (cases cb) (simp_all add: call_connectionCallback_def connected_def run_app_def)
qed (use tc in simp)

lemma connectDestroyed_up:
  fixes s :: "'m net_scheme"
  assumes wf: "net_wf s" and tc: "conns s c = Some tc" "tc_state tc = kConnected" "connectionCallback tc \<noteq> None"
    and out: "\<not> eventHandling s" and app: "quiet_down app"
  obtains t ch l where "connectDestroyed os app c s = Inr t" "net_wf t"
    "t = s\<lparr>conns := (conns s)(c \<mapsto> setState kDisconnected tc), conn_log := conn_log s @ [(c, False)], chans := (chans s)(tc_channel tc \<mapsto> ch),
       channels := (channels s)(tc_socket tc := None), epoll_log := l\<rparr>"
proof -
  let ?tc = "setState kDisconnected tc" and ?d = "tc_channel tc"
  from wf tc(1) obtain ch where ch: "chans s ?d = Some ch" "ch_fd ch = tc_socket tc" and bw: "buf_wf (inputBuffer tc)" "buf_wf (outputBuffer tc)"
    by (rule net_wfD)
  define u where "u = after_update ?d ch (interest DisableAll (events ch)) (put_conn c ?tc s)"
  define w where "w = u\<lparr>conn_log := conn_log u @ [(c, False)]\<rparr>"
  let ?ch = "ch\<lparr>events := kNoneEvent, addedToLoop := True, index := next_index ch kNoneEvent\<rparr>"
  have u: "disableAll ?d (put_conn c ?tc s) = Inr u" "net_wf u"
    using conn_interest [OF wf tc(1) ch(1), of ?tc DisableAll] bw
    by (simp_all add: u_def setState_def write_inv_def isWriting_bit)
  have cu: "conns u c = Some ?tc" by (simp add: u_def)
  have call: "call_connectionCallback os app c u = Inr w" unfolding w_def
    using cu _ _ app by (rule callback_down) (use tc in \<open>simp_all add: setState_def\<close>)
  have wfw: "net_wf w" using u(2) by (simp add: w_def)
  have w: "chans w ?d = Some ?ch" "conns w c = Some ?tc" "\<not> eventHandling w" "index ?ch \<noteq> kNew" "isNoneEvent ?ch"
    using cu out by (simp_all add: w_def u_def after_update_def put_conn_def isNoneEvent_def next_index_def)
  let ?t = "after_remove ?d (?ch\<lparr>addedToLoop := False\<rparr>) w"
  have rem: "Channel_remove ?d w = Inr ?t"
    using wfw w by (intro Channel_remove_eq) (simp_all add: net_wf_def)
  have "connectDestroyed os app c s = Inr ?t" using tc u(1) call rem by (simp add: connectDestroyed_def)
  moreover have "net_wf ?t" using wfw w(2) by (rule Channel_remove_frame) (use rem in \<open>simp add: setState_def\<close>)
  moreover have "?t = s\<lparr>conns := (conns s)(c \<mapsto> ?tc), conn_log := conn_log s @ [(c, False)], chans := (chans s)(?d \<mapsto> ?ch\<lparr>addedToLoop := False, index := kNew\<rparr>),
       channels := (channels s)(tc_socket tc := None), epoll_log := epoll_log ?t\<rparr>"
    by (simp add: after_remove_def w_def u_def after_update_def put_conn_def ch(2))
  ultimately show thesis by (rule that)
qed

text \<open>The code disables the events of a connection in state \<open>kConnected\<close> only.\<close>

lemma connectDestroyed_disconnecting:
  assumes "conns s c = Some tc" and "tc_state tc \<noteq> kConnected" and "chans s (tc_channel tc) = Some ch" and "\<not> isNoneEvent ch"
  shows "connectDestroyed os app c s = Inl (Assert_failed ''isNoneEvent()'')"
  using assms by (simp add: connectDestroyed_def Channel_remove_def)

section \<open>All connections\<close>

definition goes_down :: "'m snet_scheme \<Rightarrow> nat \<Rightarrow> bool" where
  "goes_down s c \<longleftrightarrow> (\<exists>tc name. conns s c = Some tc \<and> tc_state tc = kConnected \<and> connectionCallback tc \<noteq> None \<and> conn_home s c = Some (loop_id s, name))"

definition sockets_of :: "'m net_scheme \<Rightarrow> nat set \<Rightarrow> fd set" where
  "sockets_of s A = {tc_socket tc | c tc. c \<in> A \<and> conns s c = Some tc}"

definition channels_of :: "'m net_scheme \<Rightarrow> nat set \<Rightarrow> chan set" where
  "channels_of s A = {tc_channel tc | c tc. c \<in> A \<and> conns s c = Some tc}"

definition closed_conns :: "'m net_scheme \<Rightarrow> nat set \<Rightarrow> nat \<Rightarrow> TcpConnection option" where
  "closed_conns s A c = (if c \<in> A then map_option (setState kDisconnected) (conns s c) else conns s c)"

lemma destroy_connection_here:
  fixes s :: "'m snet_scheme"
  assumes "conn_home s c = Some (loop_id s, name)"
  shows "destroy_connection os app (n, c) s = connectDestroyed os app c s"
  using assms by (simp add: destroy_connection_def runInLoop_def isInLoopThread_def)

lemma destroy_connections_ok:
  fixes s :: "'m snet_scheme"
  assumes "net_life s" and "\<not> eventHandling s" and "quiet_down app" and "distinct (map snd xs)" and "\<forall>c \<in> snd ` set xs. goes_down s c"
  obtains t C l where "rfold (destroy_connection os app) xs s = Inr t" "net_life t"
    "t = s\<lparr>conns := closed_conns s (snd ` set xs), conn_log := conn_log s @ map (\<lambda>i. (snd i, False)) xs, chans := C,
       channels := channels s |` (- sockets_of s (snd ` set xs)), epoll_log := l\<rparr>"
    "\<forall>d. d \<notin> channels_of s (snd ` set xs) \<longrightarrow> C d = chans s d"
  using assms
proof (induction xs arbitrary: s thesis)
  case Nil
  have "s = s\<lparr>conns := closed_conns s {}, conn_log := conn_log s, chans := chans s, channels := channels s |` (- sockets_of s {}), epoll_log := epoll_log s\<rparr>"
    by (rule snet.equality) (simp_all add: closed_conns_def sockets_of_def fun_eq_iff)
  with Nil.prems(2) show ?case by (intro Nil.prems(1) [of s "epoll_log s" "chans s"]) simp_all
next
  case (Cons i xs)
  obtain n c where i: "i = (n, c)" by (cases i)
  obtain tc name where tc: "conns s c = Some tc" "tc_state tc = kConnected" "connectionCallback tc \<noteq> None" "conn_home s c = Some (loop_id s, name)"
    using Cons.prems(6) i by (auto simp: goes_down_def)
  from net_lifeD(1) [OF Cons.prems(2)] tc(1-3) Cons.prems(3,4) obtain u ch l where
    u: "connectDestroyed os app c s = Inr u" "net_wf u"
    "u = s\<lparr>conns := (conns s)(c \<mapsto> setState kDisconnected tc), conn_log := conn_log s @ [(c, False)], chans := (chans s)(tc_channel tc \<mapsto> ch),
       channels := (channels s)(tc_socket tc := None), epoll_log := l\<rparr>"
    by (rule connectDestroyed_up [where os = os])
  have fields: "conns u = (conns s)(c \<mapsto> setState kDisconnected tc)" "conn_log u = conn_log s @ [(c, False)]" "\<not> eventHandling u"
    "chans u = (chans s)(tc_channel tc \<mapsto> ch)" "channels u = (channels s)(tc_socket tc := None)" "conn_home u = conn_home s" "loop_id u = loop_id s"
    using Cons.prems(3) by (simp_all add: u(3))
  have life: "net_life u" using Cons.prems(2) tc(1) u(2) fields(1)
    by (rule transition_life) (use fields(2) tc(2) in \<open>simp_all add: seen_def\<close>)
  have c: "c \<notin> snd ` set xs" "distinct (map snd xs)" using Cons.prems(5) i by auto
  have down: "\<forall>e \<in> snd ` set xs. goes_down u e" using Cons.prems(6) c(1) fields i by (auto simp: goes_down_def)
  have ne: "tc_socket td \<noteq> tc_socket tc" if "conns s e = Some td" "e \<noteq> c" for e td
    using net_lifeD(1) [OF Cons.prems(2)] that tc(1) unfolding net_wf_def by metis
  let ?A = "snd ` set xs"
  have sock: "sockets_of u ?A = sockets_of s ?A" "channels_of u ?A = channels_of s ?A"
    using c(1) fields(1) unfolding sockets_of_def channels_of_def by (metis fun_upd_apply)+
  have all: "sockets_of s (insert c ?A) = insert (tc_socket tc) (sockets_of s ?A)" "channels_of s (insert c ?A) = insert (tc_channel tc) (channels_of s ?A)"
    "closed_conns u ?A = closed_conns s (insert c ?A)"
    using tc(1) c(1) fields(1) by (auto simp: sockets_of_def channels_of_def closed_conns_def fun_eq_iff)
  obtain t C l' where t: "rfold (destroy_connection os app) xs u = Inr t" "net_life t"
    "t = u\<lparr>conns := closed_conns u ?A, conn_log := conn_log u @ map (\<lambda>i. (snd i, False)) xs, chans := C, channels := channels u |` (- sockets_of u ?A), epoll_log := l'\<rparr>"
    "\<forall>d. d \<notin> channels_of u ?A \<longrightarrow> C d = chans u d"
    using life fields(3) Cons.prems(4) c(2) down by (rule Cons.IH [rotated])
  have run: "rfold (destroy_connection os app) (i # xs) s = Inr t" using u(1) t(1) destroy_connection_here [OF tc(4)] i by simp
  have ch: "channels u |` (- sockets_of u ?A) = channels s |` (- sockets_of s (snd ` set (i # xs)))"
    using sock(1) all(1) i by (auto simp: fields(5) restrict_map_def fun_eq_iff)
  have t': "t = s\<lparr>conns := closed_conns s (snd ` set (i # xs)), conn_log := conn_log s @ map (\<lambda>i. (snd i, False)) (i # xs), chans := C,
      channels := channels s |` (- sockets_of s (snd ` set (i # xs))), epoll_log := l'\<rparr>"
    unfolding t(3) ch using all(3) i by (simp add: u(3))
  have "\<forall>d. d \<notin> channels_of s (snd ` set (i # xs)) \<longrightarrow> C d = chans s d"
    using t(4) sock(2) all(2) i by (simp add: fields(4))
  with run t(2) t' show ?case by (rule Cons.prems(1))
qed

text \<open>A connection that is not connected, and has something enabled, stops the destructor.\<close>

lemma destroy_stops:
  fixes s :: "'m snet_scheme"
  assumes "net_life s" and "\<not> eventHandling s" and "quiet_down app" and "distinct (map snd (xs @ (n, c) # ys))" and "\<forall>e \<in> snd ` set xs. goes_down s e"
    and tc: "conns s c = Some tc" "tc_state tc \<noteq> kConnected" "conn_home s c = Some (loop_id s, name)"
    and ch: "chans s (tc_channel tc) = Some ch" "\<not> isNoneEvent ch"
  shows "rfold (destroy_connection os app) (xs @ (n, c) # ys) s = Inl (Assert_failed ''isNoneEvent()'')"
proof -
  from assms(4) have xs: "distinct (map snd xs)" "c \<notin> snd ` set xs" by auto
  from assms(1-3) xs(1) assms(5) obtain t C l where t: "rfold (destroy_connection os app) xs s = Inr t"
    "t = s\<lparr>conns := closed_conns s (snd ` set xs), conn_log := conn_log s @ map (\<lambda>i. (snd i, False)) xs, chans := C,
       channels := channels s |` (- sockets_of s (snd ` set xs)), epoll_log := l\<rparr>"
    "\<forall>d. d \<notin> channels_of s (snd ` set xs) \<longrightarrow> C d = chans s d"
    by (rule destroy_connections_ok)
  have "tc_channel tc \<notin> channels_of s (snd ` set xs)"
    using net_lifeD(1) [OF assms(1)] tc(1) xs(2) unfolding net_wf_def channels_of_def by blast
  then have "conns t c = Some tc" "chans t (tc_channel tc) = Some ch" "conn_home t c = Some (loop_id t, name)"
    using t(3) tc ch xs(2) by (simp_all add: t(2) closed_conns_def)
  then have "destroy_connection os app (n, c) t = Inl (Assert_failed ''isNoneEvent()'')"
    using destroy_connection_here [of t c name] connectDestroyed_disconnecting [OF _ tc(2) _ ch(2)] by simp
  then show ?thesis using t(1) by (simp add: rfold_append)
qed

section \<open>The acceptor\<close>

text \<open>The acceptor listens: its channel is in the poller. The channel belongs to no connection.\<close>

definition acceptor_listens :: "'m anet_scheme \<Rightarrow> nat \<Rightarrow> Acceptor \<Rightarrow> bool" where
  "acceptor_listens s k a \<longleftrightarrow> acceptors s k = Some a \<and>
     (\<exists>ch. chans s (acceptChannel a) = Some ch \<and> index ch \<noteq> kNew \<and> ch_fd ch = acceptSocket a) \<and>
     (\<forall>c tc. conns s c = Some tc \<longrightarrow> tc_channel tc \<noteq> acceptChannel a)"

lemma acceptor_socket:
  assumes wf: "net_wf s" and a: "acceptor_listens s k a" and tc: "conns s c = Some tc"
  shows "tc_socket tc \<noteq> acceptSocket a"
proof
  assume same: "tc_socket tc = acceptSocket a"
  obtain ch where ch: "chans s (acceptChannel a) = Some ch" "index ch \<noteq> kNew" "ch_fd ch = acceptSocket a" and ne: "tc_channel tc \<noteq> acceptChannel a"
    using a tc by (auto simp: acceptor_listens_def)
  from wf tc obtain x where x: "chans s (tc_channel tc) = Some x" "ch_fd x = tc_socket tc" "fd_free s x" and lwf: "loop_wf s" by (rule net_wfD)
  have pwf: "poller_wf s" using lwf by (simp add: loop_wf_def)
  have "channels s (ch_fd ch) = Some (acceptChannel a)" using poller_wfD(2) [OF pwf ch(1)] ch(2) by (simp add: channel_entry_ok_def)
  then show False using poller_wfD(2) [OF pwf x(1)] x(2,3) ch(3) ne same by (auto simp: channel_entry_ok_def fd_free_def split: if_splits)
qed

lemma Acceptor_dtor_ok:
  fixes s :: "'m anet_scheme"
  assumes wf: "net_wf s" and a: "acceptor_listens s k a" and out: "\<not> eventHandling s"
  obtains t l where "Acceptor_dtor (threadId s) k s = Inr t" "net_wf t"
    "t = s\<lparr>chans := (chans s)(acceptChannel a := None), channels := (channels s)(acceptSocket a := None), epoll_log := l,
       sys := sys s @ [Sys_close (idleFd a), Sys_close (acceptSocket a)], acceptors := (acceptors s)(k := None)\<rparr>"
proof -
  let ?d = "acceptChannel a"
  obtain ch where ch: "chans s ?d = Some ch" "index ch \<noteq> kNew" "ch_fd ch = acceptSocket a" using a by (auto simp: acceptor_listens_def)
  have lwf: "loop_wf s" using wf by (simp add: net_wf_def)
  from unregister_ok [OF lwf ch(1,2) out] obtain u ch' l where u: "rbind (disableAll ?d s) (Channel_remove ?d) = Inr u" "loop_wf u" "ch_fd ch' = ch_fd ch"
    "u = s\<lparr>chans := (chans s)(?d \<mapsto> ch'), channels := (channels s)(ch_fd ch := None), epoll_log := l\<rparr>" by blast
  let ?u = "u\<lparr>sys := sys u @ [Sys_close (idleFd a)]\<rparr>"
  let ?v = "?u\<lparr>chans := (chans u)(?d := None)\<rparr>"
  let ?t = "?v\<lparr>sys := Socket_dtor (acceptSocket a) (sys ?v), acceptors := (acceptors ?v)(k := None)\<rparr>"
  have at: "chans u ?d = Some ch'" "channels u (ch_fd ch') \<noteq> Some ?d" "threadId u = threadId s" "loop_id u = loop_id s" using u(3,4) by simp_all
  have "ownerLoop ch' = loop_id s" using u(2) at(1,4) by (auto simp: loop_wf_def)
  then have drop: "Channel_dtor (threadId s) ?d ?u = Inr ?v"
    using at by (simp add: Channel_dtor_def isInLoopThread_def EventLoop_hasChannel_def hasChannel_def)
  obtain s1 where s1: "disableAll ?d s = Inr s1" "Channel_remove ?d s1 = Inr u" using u(1) by (auto simp: rbind_eq_Inr)
  have "acceptors s k = Some a" using a by (simp add: acceptor_listens_def)
  then have run: "Acceptor_dtor (threadId s) k s = Inr ?t"
    using s1 drop by (simp add: Acceptor_dtor_def with_acceptor_def)
  have t: "?t = s\<lparr>chans := (chans s)(?d := None), channels := (channels s)(acceptSocket a := None), epoll_log := l,
       sys := sys s @ [Sys_close (idleFd a), Sys_close (acceptSocket a)], acceptors := (acceptors s)(k := None)\<rparr>"
    by (simp add: u(4) ch(3) Socket_dtor_def sockets_close_def)
  have "loop_wf (u\<lparr>chans := (chans u)(?d := None)\<rparr>)" using u(2) at(1,2) by (rule loop_wf_drop_chan)
  then have "loop_wf ?t" using loop_wf_transfer [of ?t "u\<lparr>chans := (chans u)(?d := None)\<rparr>"] by simp
  with wf have "net_wf ?t"
    by (rule foreign_net_wf) (use a acceptor_socket [OF wf a] ch(3) in \<open>auto simp: u(4) acceptor_listens_def\<close>)
  with run show thesis using t by (rule that)
qed

section \<open>The server\<close>

text \<open>The connections of the map: those of the server that are open, each once.\<close>

lemma map_connections:
  assumes set: "settings_ok lid sv" and reg: "registry_ok v {} s sv"
  shows "snd ` set (sv_connections sv) = {c. \<exists>tc. conns s c = Some tc \<and> mine v tc \<and> tc_state tc \<noteq> kDisconnected}"
    and "distinct (map snd (sv_connections sv))"
proof -
  let ?m = "sv_connections sv"
  have dis: "distinct (map fst ?m)" using set by (simp add: settings_ok_def)
  have item: "(name, c) \<in> set ?m \<longleftrightarrow> (\<exists>tc. conns s c = Some tc \<and> tc_name tc = name \<and> mine v tc \<and> tc_state tc \<noteq> kDisconnected)" for name c
    using reg map_of_eq_Some_iff [OF dis, of name c] by (simp add: registry_ok_def)
  show "snd ` set ?m = {c. \<exists>tc. conns s c = Some tc \<and> mine v tc \<and> tc_state tc \<noteq> kDisconnected}"
    using item by (force simp: image_iff)
  have "inj_on snd (set ?m)" using item by (auto intro!: inj_onI)
  then show "distinct (map snd ?m)" using dis by (simp add: distinct_map)
qed


text \<open>
  The destructor does not provide for a connection that the server has shut down and whose peer has not yet closed: \<open>connectDestroyed\<close> leaves its events enabled
  and the assertion of \<open>Channel::remove\<close> fails.
\<close>

lemma server_dtor_half_closed:
  fixes s :: "'m snet_scheme"
  assumes ok: "server_ok v {} s" and sv: "servers s v = Some sv" and out: "\<not> eventHandling s" and app: "quiet_down app"
    and tc: "conns s c = Some tc" "mine v tc" "tc_state tc = kDisconnecting" "chans s (tc_channel tc) = Some ch" "isReading ch"
    and up: "\<And>e te. conns s e = Some te \<Longrightarrow> mine v te \<Longrightarrow> tc_state te \<noteq> kDisconnected \<Longrightarrow> e \<noteq> c \<Longrightarrow>
       tc_state te = kConnected \<and> connectionCallback te \<noteq> None"
  shows "TcpServer_dtor os app v s = Inl (Assert_failed ''isNoneEvent()'')"
proof -
  let ?m = "sv_connections sv"
  have life: "net_life s" and set: "settings_ok (loop_id s) sv" and reg: "registry_ok v {} s sv" using ok sv by (auto simp: server_ok_def)
  note m = map_connections [OF set reg]
  have "c \<in> snd ` set ?m" unfolding m(1) using tc(1-3) by simp
  then obtain n where "(n, c) \<in> set ?m" by force
  then obtain xs ys where split: "?m = xs @ (n, c) # ys" by (auto dest: split_list)
  have dis: "distinct (map snd (xs @ (n, c) # ys))" using m(2) by (simp only: split)
  have "goes_down s e" if "e \<in> snd ` set xs" for e
  proof -
    have ne: "e \<noteq> c" and "e \<in> snd ` set ?m" using dis that split by auto
    then obtain te where te: "conns s e = Some te" "mine v te" "tc_state te \<noteq> kDisconnected" unfolding m(1) by blast
    then show ?thesis using up [OF te ne] reg by (simp add: goes_down_def registry_ok_def)
  qed
  moreover have "conn_home s c = Some (loop_id s, tc_name tc)" using reg tc(1,2) by (simp add: registry_ok_def)
  moreover have "\<not> isNoneEvent ch" using tc(5) by (auto simp: isReading_def isNoneEvent_def kNoneEvent_def has_flag_def)
  ultimately have "rfold (destroy_connection os app) ?m s = Inl (Assert_failed ''isNoneEvent()'')"
    unfolding split using tc(1,3,4) by (intro destroy_stops [OF life out app dis, where tc = tc and ch = ch and name = "tc_name tc"]) simp_all
  then show ?thesis using sv by (simp add: TcpServer_dtor_def)
qed

section \<open>Witness\<close>

text \<open>A server whose acceptor listens with the channel 3 on the descriptor 6 gets the connection 9 and is destroyed.\<close>

definition end_start :: snet where
  "end_start = projr (rbind (Acceptor_ctor 0 3 6 7 zero_addr False sample_snet) (Acceptor_listen 0))"

lemma end_start_ok:
  "server_start 0 end_start" "servers end_start 0 = Some sample_server" "conn_log end_start = []"
  "chans end_start 2 = None" "channels end_start 8 = None"
proof -
  let ?ch = "setReadCallback (Some (Acceptor_handleRead 0)) (Channel_ctor 7 6)"
  let ?a = "\<lparr>acceptSocket = 6, acceptChannel = 3, acceptorCallback = None, listening = False, idleFd = 7\<rparr>"
  obtain tr where ctor: "Acceptor_ctor 0 3 6 7 zero_addr False sample_snet = Inr (put_acceptor 0 ?a (put_chan 3 ?ch (sample_snet\<lparr>sys := tr\<rparr>)))"
    by (simp add: Acceptor_ctor_def sockets_createNonblockingOrDie_def sample_snet_fields Let_def)
  define u where "u = put_acceptor 0 (?a\<lparr>listening := True\<rparr>)
    ((put_acceptor 0 ?a (put_chan 3 ?ch (sample_snet\<lparr>sys := tr\<rparr>)))\<lparr>sys := Socket_listen 6 tr\<rparr>)"
  have listen: "Acceptor_listen 0 (put_acceptor 0 ?a (put_chan 3 ?ch (sample_snet\<lparr>sys := tr\<rparr>))) = enableReading 3 u"
    by (simp add: Acceptor_listen_def put_acceptor_def put_chan_def u_def)
  have u: "chans u = (chans sample_loop)(3 \<mapsto> ?ch)" "channels u = channels sample_loop" "epoll_log u = epoll_log sample_loop" "loop_id u = 7"
    "pendingFunctors u = []" "conns u = Map.empty" "conn_log u = []" "servers u = [0 \<mapsto> sample_server]"
    by (simp_all add: u_def put_acceptor_def put_chan_def sample_snet_fields)
  have ch: "index ?ch = kNew" "isNoneEvent ?ch" "ownerLoop ?ch = 7" "events ?ch = 0" "ch_fd ?ch = 6"
    by (simp_all add: Channel_ctor_def setReadCallback_def kNew_def isNoneEvent_def kNoneEvent_def)
  have free3: "chans sample_loop 3 = None" "chans sample_loop 2 = None" "channels sample_loop 6 = None" "channels sample_loop 8 = None" "loop_id sample_loop = 7"
    by (simp_all add: sample_loop_eq)
  have "loop_wf (put_chan 3 ?ch sample_loop)"
    by (rule put_new_chan_wf [OF sample_loop_wf]) (use ch free3 in simp_all)
  then have wf: "loop_wf u" using loop_wf_transfer [of u "put_chan 3 ?ch sample_loop"] u(1-4) free3(5) by (simp add: put_chan_def)
  have free: "fd_free u ?ch" using u(2) free3(3) ch(1,5) by (simp add: fd_free_def)
  have at: "chans u 3 = Some ?ch" using u(1) by simp
  have e: "end_start = after_update 3 ?ch kReadEvent u"
    using ctor listen channel_op_eq [OF wf at free, of EnableReading] ch(4) by (simp add: end_start_def)
  have t: "conns end_start = Map.empty" "pendingFunctors end_start = []" "servers end_start = [0 \<mapsto> sample_server]" "loop_id end_start = 7"
    "loop_wf end_start"
    using u after_update_loop_wf [OF wf at free] by (simp_all add: e after_update_def)
  then show "server_start 0 end_start"
    by (simp add: server_start_def net_wf_def waiting_def sample_server_def EventLoopThreadPool_ctor_def)
  show "servers end_start 0 = Some sample_server" "conn_log end_start = []" "chans end_start 2 = None" "channels end_start 8 = None"
    using t(3) u free3 ch(5) by (simp_all add: e after_update_def)
qed

lemma end_run:
  "case TcpServer_newConnection sample_os pingpong_server 9 2 (Inr zero_addr) 0 8 zero_addr end_start of
     Inl e \<Rightarrow> False
   | Inr t \<Rightarrow> \<not> eventHandling t \<and> map_option sv_acceptor (servers t 0) = Some 0 \<and>
       map_option (\<lambda>a. (acceptChannel a, acceptSocket a)) (acceptors t 0) = Some (3, 6) \<and>
       map_option (\<lambda>ch. (index ch = kNew, ch_fd ch)) (chans t 3) = Some (False, 6) \<and>
       map_option (\<lambda>tc. (tc_channel tc, tc_state tc, connectionCallback tc, mine 0 tc)) (conns t 9) =
         Some (2, kConnected, Some defaultConnectionCallback, True)"
  by code_simp

lemma pingpong_quiet_down: "quiet_down pingpong_server"
  by (simp add: quiet_down_def connected_def)


end
