(* ===== verification/Siren_Connector.thy ===== *)
theory Siren_Connector
  imports Siren_TcpConnection
begin

text \<open>
  The connector of a client: \<open>include/siren/net/Connector.h\<close> and \<open>src/net/Connector.cpp\<close>.

  \<open>cnet\<close> extends the state of a loop by its connectors. What the kernel answers to one
  attempt to connect is an \<open>attempt\<close>: the new descriptor, the error of \<open>connect\<close> (0 for success), the address of the channel that
  \<open>new Channel\<close> would return, and the readings of the clock. \<open>newConnectionCallback_\<close>, which the client
  installs, is the parameter \<open>new_conn\<close>.
\<close>

section \<open>Data\<close>

datatype Connector_States = Cs_Disconnected | Cs_Connecting | Cs_Connected

record Connector =
  serverAddr :: InetAddress
  c_connect :: bool
  c_state :: Connector_States
  c_channel :: "chan option"
  newConnectionCallback :: "nat option"
  retryDelayMs :: int

record cnet = net +
  connectors :: "nat \<rightharpoonup> Connector"

record attempt =
  at_sockfd :: fd
  at_error :: errno
  at_chan :: chan
  at_now :: int
  at_now2 :: int

definition kMaxRetryDelayMs :: int where "kMaxRetryDelayMs = 30 * 1000"
definition kInitRetryDelayMs :: int where "kInitRetryDelayMs = 500"

definition with_connector :: "nat \<Rightarrow> 'm cnet_scheme \<Rightarrow> (Connector \<Rightarrow> 'a result) \<Rightarrow> 'a result" where
  "with_connector k s f = (case connectors s k of None \<Rightarrow> Inl Bad_pointer | Some cn \<Rightarrow> f cn)"

definition put_connector :: "nat \<Rightarrow> Connector \<Rightarrow> 'm cnet_scheme \<Rightarrow> 'm cnet_scheme" where
  "put_connector k cn s = s\<lparr>connectors := (connectors s)(k \<mapsto> cn)\<rparr>"

section \<open>Operations\<close>

definition Connector_ctor :: "InetAddress \<Rightarrow> Connector" where
  "Connector_ctor addr =
     \<lparr>serverAddr = addr, c_connect = False, c_state = Cs_Disconnected, c_channel = None,
      newConnectionCallback = None, retryDelayMs = kInitRetryDelayMs\<rparr>"

definition Connector_dtor :: "nat \<Rightarrow> 'm cnet_scheme \<Rightarrow> 'm cnet_scheme result" where
  "Connector_dtor k s =
     with_connector k s (\<lambda>cn.
       if c_channel cn \<noteq> None then Inl (Assert_failed ''!channel_'')
       else Inr (s\<lparr>connectors := (connectors s)(k := None)\<rparr>))"

text \<open>\<open>retry\<close>: the descriptor is closed; the next attempt is scheduled and the delay doubled.\<close>

definition Connector_retry :: "int \<Rightarrow> int \<Rightarrow> nat \<Rightarrow> fd \<Rightarrow> 'm cnet_scheme \<Rightarrow> 'm cnet_scheme result" where
  "Connector_retry now now' k sockfd s =
     with_connector k s (\<lambda>cn.
       let s1 = put_connector k (cn\<lparr>c_state := Cs_Disconnected\<rparr>) (s\<lparr>sys := sys s @ [Sys_close sockfd]\<rparr>)
       in if c_connect cn
          then rbind (runAfter now now' (threadId s) (of_int (retryDelayMs cn) / 1000) (Some (TC_Connector_startInLoop k)) s1)
                 (\<lambda>(timerId, s2).
                   Inr (put_connector k (cn\<lparr>c_state := Cs_Disconnected,
                          retryDelayMs := min (retryDelayMs cn * 2) kMaxRetryDelayMs\<rparr>) s2))
          else Inr s1)"

definition Connector_connecting :: "nat \<Rightarrow> fd \<Rightarrow> chan \<Rightarrow> 'm cnet_scheme \<Rightarrow> 'm cnet_scheme result" where
  "Connector_connecting k sockfd d s =
     with_connector k s (\<lambda>cn.
       if c_channel cn \<noteq> None then Inl (Assert_failed ''!channel_'')
       else
         enableWriting d
           (put_chan d (setErrorCallback (Some (Connector_handleError k))
                         (setWriteCallback (Some (Connector_handleWrite k)) (Channel_ctor (loop_id s) sockfd)))
             (put_connector k (cn\<lparr>c_state := Cs_Connecting, c_channel := Some d\<rparr>) s)))"

definition connect_pending :: "errno \<Rightarrow> bool" where
  "connect_pending err \<longleftrightarrow> err \<in> {0, EINPROGRESS, EINTR, EISCONN}"

definition connect_retryable :: "errno \<Rightarrow> bool" where
  "connect_retryable err \<longleftrightarrow> err \<in> {EAGAIN, EADDRINUSE, EADDRNOTAVAIL, ECONNREFUSED, ENETUNREACH}"

definition Connector_connect :: "nat \<Rightarrow> attempt \<Rightarrow> 'm cnet_scheme \<Rightarrow> 'm cnet_scheme result" where
  "Connector_connect k a s =
     with_connector k s (\<lambda>cn.
       let s1 = s\<lparr>sys := sys s @ [Sys_socket (sin_family (serverAddr cn)), Sys_connect (at_sockfd a) (serverAddr cn)]\<rparr>
       in if connect_pending (at_error a) then Connector_connecting k (at_sockfd a) (at_chan a) s1
          else if connect_retryable (at_error a) then Connector_retry (at_now a) (at_now2 a) k (at_sockfd a) s1
          else Inr (s1\<lparr>sys := sys s1 @ [Sys_close (at_sockfd a)]\<rparr>))"

definition Connector_startInLoop_op :: "nat \<Rightarrow> attempt \<Rightarrow> 'm cnet_scheme \<Rightarrow> 'm cnet_scheme result" where
  "Connector_startInLoop_op k a s =
     with_connector k s (\<lambda>cn.
       if c_state cn \<noteq> Cs_Disconnected then Inl (Assert_failed ''state_ == kDisconnected'')
       else if c_connect cn then Connector_connect k a s else Inr s)"

definition Connector_start :: "nat \<Rightarrow> nat \<Rightarrow> attempt \<Rightarrow> 'm cnet_scheme \<Rightarrow> 'm cnet_scheme result" where
  "Connector_start tid k a s =
     with_connector k s (\<lambda>cn.
       runInLoop (\<lambda>f. Connector_startInLoop_op k a) tid (Some (Fn_Connector_startInLoop k))
         (put_connector k (cn\<lparr>c_connect := True\<rparr>) s))"

definition Connector_restart :: "nat \<Rightarrow> attempt \<Rightarrow> 'm cnet_scheme \<Rightarrow> 'm cnet_scheme result" where
  "Connector_restart k a s =
     with_connector k s (\<lambda>cn.
       Connector_startInLoop_op k a
         (put_connector k (cn\<lparr>c_state := Cs_Disconnected, retryDelayMs := kInitRetryDelayMs, c_connect := True\<rparr>) s))"

definition Connector_removeAndResetChannel :: "nat \<Rightarrow> 'm cnet_scheme \<Rightarrow> (fd \<times> 'm cnet_scheme) result" where
  "Connector_removeAndResetChannel k s =
     with_connector k s (\<lambda>cn.
       case c_channel cn of
         None \<Rightarrow> Inl Bad_pointer
       | Some d \<Rightarrow>
           rbind (disableAll d s) (\<lambda>s1.
           rbind (Channel_remove d s1) (\<lambda>s2.
           with_chan d s2 (\<lambda>ch.
             Inr (ch_fd ch, queueInLoop (threadId s2) (Some (Fn_Connector_resetChannel k)) s2)))))"

definition Connector_resetChannel_op :: "nat \<Rightarrow> 'm cnet_scheme \<Rightarrow> 'm cnet_scheme result" where
  "Connector_resetChannel_op k s =
     with_connector k s (\<lambda>cn.
       case c_channel cn of
         None \<Rightarrow> Inr s
       | Some d \<Rightarrow> rbind (Channel_dtor (threadId s) d s) (\<lambda>s1. Inr (put_connector k (cn\<lparr>c_channel := None\<rparr>) s1)))"

definition Connector_stop :: "nat \<Rightarrow> nat \<Rightarrow> 'm cnet_scheme \<Rightarrow> 'm cnet_scheme result" where
  "Connector_stop tid k s =
     with_connector k s (\<lambda>cn.
       Inr (queueInLoop tid (Some (Fn_Connector_stopInLoop k)) (put_connector k (cn\<lparr>c_connect := False\<rparr>) s)))"

definition Connector_stopInLoop_op :: "int \<Rightarrow> int \<Rightarrow> nat \<Rightarrow> 'm cnet_scheme \<Rightarrow> 'm cnet_scheme result" where
  "Connector_stopInLoop_op now now' k s =
     with_connector k s (\<lambda>cn.
       if c_state cn = Cs_Connecting
       then rbind (Connector_removeAndResetChannel k (put_connector k (cn\<lparr>c_state := Cs_Disconnected\<rparr>) s)) (\<lambda>(sockfd, s1).
              Connector_retry now now' k sockfd s1)
       else Inr s)"

text \<open>
  \<open>handleWrite\<close>, with the answers to \<open>getsockopt(SO_ERROR)\<close>, \<open>getsockname\<close> and \<open>getpeername\<close>.
\<close>

definition Connector_handleWrite_op :: "(nat \<Rightarrow> fd \<Rightarrow> 'm cnet_scheme \<Rightarrow> 'm cnet_scheme result) \<Rightarrow>
    errno + int \<Rightarrow> errno + InetAddress \<Rightarrow> errno + InetAddress \<Rightarrow> int \<Rightarrow> int \<Rightarrow> nat \<Rightarrow> 'm cnet_scheme \<Rightarrow> 'm cnet_scheme result" where
  "Connector_handleWrite_op new_conn so_error sockname peername now now' k s =
     with_connector k s (\<lambda>cn.
       if c_state cn = Cs_Connecting
       then rbind (Connector_removeAndResetChannel k s) (\<lambda>(sockfd, s1).
              if getSocketError so_error \<noteq> 0 then Connector_retry now now' k sockfd s1
              else if isSelfConnect sockname peername then Connector_retry now now' k sockfd s1
              else
                let s2 = put_connector k (cn\<lparr>c_state := Cs_Connected\<rparr>) s1
                in if c_connect cn
                   then (case newConnectionCallback cn of None \<Rightarrow> Inl Bad_function_call | Some cb \<Rightarrow> new_conn cb sockfd s2)
                   else Inr (s2\<lparr>sys := sys s2 @ [Sys_close sockfd]\<rparr>))
       else if c_state cn = Cs_Disconnected then Inr s
       else Inl (Assert_failed ''state_ == kDisconnected''))"

definition Connector_handleError_op :: "int \<Rightarrow> int \<Rightarrow> nat \<Rightarrow> 'm cnet_scheme \<Rightarrow> 'm cnet_scheme result" where
  "Connector_handleError_op now now' k s =
     with_connector k s (\<lambda>cn.
       if c_state cn = Cs_Connecting
       then rbind (Connector_removeAndResetChannel k s) (\<lambda>(sockfd, s1). Connector_retry now now' k sockfd s1)
       else Inr s)"

section \<open>Lemmas\<close>

lemma with_connector_simps [simp]:
  "connectors s k = Some cn \<Longrightarrow> with_connector k s f = f cn"
  by (simp add: with_connector_def)

lemma with_connector_eq_Inr [result_simps]:
  "with_connector k s f = Inr y \<longleftrightarrow> (\<exists>cn. connectors s k = Some cn \<and> f cn = Inr y)"
  by (auto simp: with_connector_def split: option.splits)

lemma put_connector_fields [simp]:
  "connectors (put_connector k cn s) = (connectors s)(k \<mapsto> cn)" "sys (put_connector k cn s) = sys s"
  "chans (put_connector k cn s) = chans s" "channels (put_connector k cn s) = channels s"
  "epoll_log (put_connector k cn s) = epoll_log s" "loop_id (put_connector k cn s) = loop_id s"
  "threadId (put_connector k cn s) = threadId s" "timers (put_connector k cn s) = timers s"
  "timer_mem (put_connector k cn s) = timer_mem s" "s_numCreated (put_connector k cn s) = s_numCreated s"
  "eventHandling (put_connector k cn s) = eventHandling s" "activeChannels (put_connector k cn s) = activeChannels s"
  "currentActiveChannel (put_connector k cn s) = currentActiveChannel s"
  "pendingFunctors (put_connector k cn s) = pendingFunctors s"
  by (simp_all add: put_connector_def)

lemma loop_wf_connector [simp]:
  "loop_wf (put_connector k cn s) = loop_wf s" "loop_wf (s\<lparr>sys := tr\<rparr>) = loop_wf s"
  "loop_wf (queueInLoop tid cb s) = loop_wf s"
  using poller_wf_cong [of "put_connector k cn s" s] poller_wf_cong [of "s\<lparr>sys := tr\<rparr>" s]
    poller_wf_cong [of "queueInLoop tid cb s" s]
  by (simp_all add: loop_wf_def) (simp_all add: queueInLoop_def queue_wake_def queue_push_def wakeup_def)

lemma timers_ok_connector [simp]:
  "timers_ok (put_connector k cn s) = timers_ok s" "timers_ok (s\<lparr>sys := tr\<rparr>) = timers_ok s"
  by (simp_all add: timers_ok_def timer_alive_def expir_def list_all_iff)

lemma new_timer_keeps_ok:
  assumes ok: "timers_ok s"
  shows "timers_ok (s\<lparr>timer_mem := (timer_mem s)(s_numCreated s \<mapsto> x), s_numCreated := s_numCreated s + 1\<rparr>)"
proof -
  let ?s = "s\<lparr>timer_mem := (timer_mem s)(s_numCreated s \<mapsto> x), s_numCreated := s_numCreated s + 1\<rparr>"
  have same: "expir ?s u = expir s u" "timer_alive ?s u = timer_alive s u" if "u \<noteq> s_numCreated s" for u
    using that by (simp_all add: expir_def timer_alive_def)
  have old: "expir ?s u = expir s u \<and> timer_alive ?s u" if "u \<in> set (timers s)" for u
    using same [of u] timers_okD(1) [OF ok that] timers_okD(4) [OF ok, of u] by auto
  have "u < s_numCreated s + 1" if "timer_alive ?s u" for u
    using same [of u] timers_okD(4) [OF ok, of u] that by (cases "u = s_numCreated s") auto
  with old show ?thesis
    using timers_okD(3) [OF ok] unfolding timers_ok_def
    by (auto simp: list_all_iff elim!: sorted_wrt_mono_rel [rotated])
qed

text \<open>\<open>runAfter\<close> in the thread of the loop: the timer exists afterwards, the rest of the loop is as it was.\<close>

lemma runAfter_in_loop:
  assumes ok: "timers_ok s" and "isInLoopThread tid s"
  obtains r t where "runAfter now now' tid delay cb s = Inr (r, t)"
    "timer_mem t (s_numCreated s) = Some (Timer_ctor cb (now + trunc (delay * 1000) * ns_per_ms) 0 (s_numCreated s))"
    "connectors t = connectors s" "sys t = sys s" "chans t = chans s" "channels t = channels s"
    "epoll_log t = epoll_log s" "loop_id t = loop_id s" "timers_ok t"
proof -
  let ?due = "now + trunc (delay * 1000) * ns_per_ms"
  let ?s1 = "s\<lparr>timer_mem := (timer_mem s)(s_numCreated s \<mapsto> Timer_ctor cb ?due 0 (s_numCreated s)),
    s_numCreated := s_numCreated s + 1\<rparr>"
  have ok1: "timers_ok ?s1" using ok by (rule new_timer_keeps_ok)
  have "timer_alive ?s1 (s_numCreated s)" by (simp add: timer_alive_def)
  note ins = insert_timer_ok [OF ok1 this]
  then obtain t where t: "addTimerInLoop now' (s_numCreated s) ?s1 = Inr t" "timer_mem t = timer_mem ?s1"
    "connectors t = connectors s" "sys t = sys s" "chans t = chans s" "channels t = channels s"
    "epoll_log t = epoll_log s" "loop_id t = loop_id s" "timers_ok t"
    by (auto simp: addTimerInLoop_def resetTimerfd_def)
  moreover have "isInLoopThread tid ?s1" using assms(2) by (simp add: isInLoopThread_def)
  ultimately have "runAfter now now' tid delay cb s =
      Inr (\<lparr>timer_ptr = s_numCreated s, timer_seq = int (s_numCreated s)\<rparr>, t)"
    by (simp add: runAfter_def runAt_def addTimer_def new_timer_def runInLoop_def)
  with t show thesis
    by (intro that [of "\<lparr>timer_ptr = s_numCreated s, timer_seq = int (s_numCreated s)\<rparr>" t]) simp_all
qed

lemma trunc_of_int: "trunc (of_int d) = d"
  by (simp add: trunc_def)

lemma retry_cases:
  assumes ok: "timers_ok s" and cn: "connectors s k = Some cn"
  obtains t where "Connector_retry now now' k sockfd s = Inr t"
    "sys t = sys s @ [Sys_close sockfd]"
    "connectors t = (connectors s)(k \<mapsto> cn\<lparr>c_state := Cs_Disconnected,
       retryDelayMs := if c_connect cn then min (retryDelayMs cn * 2) kMaxRetryDelayMs else retryDelayMs cn\<rparr>)"
    "c_connect cn \<Longrightarrow> timer_mem t (s_numCreated s) = Some (Timer_ctor (Some (TC_Connector_startInLoop k))
       (now + retryDelayMs cn * ns_per_ms) 0 (s_numCreated s))"
    "\<not> c_connect cn \<Longrightarrow> timer_mem t = timer_mem s"
    "chans t = chans s" "channels t = channels s" "epoll_log t = epoll_log s" "loop_id t = loop_id s" "timers_ok t"
proof -
  let ?s1 = "put_connector k (cn\<lparr>c_state := Cs_Disconnected\<rparr>) (s\<lparr>sys := sys s @ [Sys_close sockfd]\<rparr>)"
  show thesis
  proof (cases "c_connect cn")
    case False
    then show thesis using cn ok by (intro that [of ?s1]) (simp_all add: Connector_retry_def Let_def)
  next
    case True
    have "timers_ok ?s1" "isInLoopThread (threadId s) ?s1" using ok by (simp_all add: isInLoopThread_def)
    then obtain r u where "runAfter now now' (threadId s) (of_int (retryDelayMs cn) / 1000) (Some (TC_Connector_startInLoop k)) ?s1
        = Inr (r, u)"
      "timer_mem u (s_numCreated ?s1) = Some (Timer_ctor (Some (TC_Connector_startInLoop k))
        (now + trunc (of_int (retryDelayMs cn) / 1000 * 1000) * ns_per_ms) 0 (s_numCreated ?s1))"
      "connectors u = connectors ?s1" "sys u = sys ?s1" "chans u = chans ?s1" "channels u = channels ?s1"
      "epoll_log u = epoll_log ?s1" "loop_id u = loop_id ?s1" "timers_ok u"
      by (rule runAfter_in_loop)
    with True cn show thesis
      by (intro that [of "put_connector k (cn\<lparr>c_state := Cs_Disconnected,
            retryDelayMs := min (retryDelayMs cn * 2) kMaxRetryDelayMs\<rparr>) u"])
        (simp_all add: Connector_retry_def Let_def trunc_of_int)
  qed
qed

text \<open>A channel of a connector that is being waited on, and its removal.\<close>

definition connecting_on :: "'m cnet_scheme \<Rightarrow> Connector \<Rightarrow> fd \<Rightarrow> bool" where
  "connecting_on s cn fd \<longleftrightarrow> c_state cn = Cs_Connecting \<and>
     (\<exists>d ch. c_channel cn = Some d \<and> chans s d = Some ch \<and> ch_fd ch = fd \<and> index ch = kAdded \<and> isWriting ch)"

definition may_remove :: "'m loop_scheme \<Rightarrow> chan option \<Rightarrow> bool" where
  "may_remove s d \<longleftrightarrow> (eventHandling s \<longrightarrow> currentActiveChannel s = d \<or> the d \<notin> set (activeChannels s))"

lemma connecting_ok:
  assumes wf: "loop_wf s" and cn: "connectors s k = Some cn" "c_channel cn = None"
    and fresh: "chans s d = None" "channels s sockfd = None"
  obtains t where "Connector_connecting k sockfd d s = Inr t" "loop_wf t"
    "connectors t = (connectors s)(k \<mapsto> cn\<lparr>c_state := Cs_Connecting, c_channel := Some d\<rparr>)"
    "connecting_on t (cn\<lparr>c_state := Cs_Connecting, c_channel := Some d\<rparr>) sockfd" "sys t = sys s"
    "conns t = conns s" "conn_log t = conn_log s" "threadId t = threadId s" "cnet.more t = cnet.more s"
    "\<forall>e. e \<noteq> d \<longrightarrow> chans t e = chans s e" "\<forall>f. f \<noteq> sockfd \<longrightarrow> channels t f = channels s f"
    "pendingFunctors t = pendingFunctors s"
proof -
  let ?ch = "setErrorCallback (Some (Connector_handleError k))
    (setWriteCallback (Some (Connector_handleWrite k)) (Channel_ctor (loop_id s) sockfd))"
  let ?cn = "cn\<lparr>c_state := Cs_Connecting, c_channel := Some d\<rparr>"
  let ?s1 = "put_chan d ?ch (put_connector k ?cn s)"
  let ?t = "after_update d ?ch (interest EnableWriting (events ?ch)) ?s1"
  have ch: "index ?ch = kNew" "isNoneEvent ?ch" "ownerLoop ?ch = loop_id s" "ch_fd ?ch = sockfd" "events ?ch = 0"
    by (simp_all add: callback_setter_defs Channel_ctor_def kNew_def isNoneEvent_def kNoneEvent_def)
  have wf1: "loop_wf ?s1" using wf fresh(1) ch by (intro put_new_chan_wf) simp_all
  have free: "fd_free ?s1 ?ch" using fresh(2) ch by (simp add: fd_free_def put_chan_def)
  have at: "chans ?s1 d = Some ?ch" by simp
  have "Connector_connecting k sockfd d s = Inr ?t"
    using channel_op_eq [OF wf1 at free, of EnableWriting] cn by (simp add: Connector_connecting_def)
  moreover have "loop_wf ?t" using wf1 at free by (rule after_update_loop_wf)
  moreover have "connecting_on ?t ?cn sockfd"
    using ch by (auto simp: connecting_on_def isWriting_bit next_index_def bit_kReadEvent)
  moreover have "connectors ?t = (connectors s)(k \<mapsto> ?cn)" "sys ?t = sys s" "conns ?t = conns s" "conn_log ?t = conn_log s"
    "threadId ?t = threadId s" "cnet.more ?t = cnet.more s" "pendingFunctors ?t = pendingFunctors s"
    "\<forall>e. e \<noteq> d \<longrightarrow> chans ?t e = chans s e" "\<forall>f. f \<noteq> sockfd \<longrightarrow> channels ?t f = channels s f"
    using ch(4) by (simp_all add: after_update_def put_chan_def put_connector_def)
  ultimately show thesis by (intro that [of ?t]) blast+
qed

lemma removeAndResetChannel_eq:
  assumes wf: "loop_wf s" and cn: "connectors s k = Some cn" and ch: "c_channel cn = Some d" "chans s d = Some ch"
    and free: "fd_free s ch" and may: "may_remove s (c_channel cn)"
  obtains t where "Connector_removeAndResetChannel k s = Inr (ch_fd ch, t)" "loop_wf t" "connectors t = connectors s"
    "sys t = sys s" "registered (epoll_log t) (ch_fd ch) = None" "channels t (ch_fd ch) = None"
    "pendingFunctors t = pendingFunctors s @ [Some (Fn_Connector_resetChannel k)]"
    "timers_ok s \<longrightarrow> timers_ok t" "conns t = conns s" "conn_log t = conn_log s" "home t = home s"
    "\<forall>e. e \<noteq> d \<longrightarrow> chans t e = chans s e" "\<forall>f. f \<noteq> ch_fd ch \<longrightarrow> channels t f = channels s f"
proof -
  let ?s1 = "after_update d ch kNoneEvent s"
  let ?ch1 = "ch\<lparr>events := kNoneEvent, addedToLoop := True, index := next_index ch kNoneEvent\<rparr>"
  let ?s2 = "after_remove d (?ch1\<lparr>addedToLoop := False\<rparr>) ?s1"
  let ?t = "queueInLoop (threadId ?s2) (Some (Fn_Connector_resetChannel k)) ?s2"
  have d1: "disableAll d s = Inr ?s1" using channel_op_eq [OF wf ch(2) free, of DisableAll] by simp
  have wf1: "loop_wf ?s1" using wf ch(2) free by (rule after_update_loop_wf)
  have ch1: "chans ?s1 d = Some ?ch1" "index ?ch1 \<noteq> kNew" "isNoneEvent ?ch1"
    by (simp_all add: next_index_def isNoneEvent_def)
  have "eventHandling ?s1 \<longrightarrow> currentActiveChannel ?s1 = Some d \<or> d \<notin> set (activeChannels ?s1)"
    using may ch(1) by (simp add: may_remove_def after_update_def)
  then have d2: "Channel_remove d ?s1 = Inr ?s2" by (rule Channel_remove_eq [OF wf1 ch1])
  have wf2: "loop_wf ?s2" using wf1 ch1 by (rule after_remove_loop_wf)
  have run: "Connector_removeAndResetChannel k s = Inr (ch_fd ch, ?t)"
    using cn ch d1 d2 by (simp add: Connector_removeAndResetChannel_def after_remove_def)
  have wf3: "loop_wf ?t" using wf2 by simp
  have out: "channels ?t (ch_fd ch) = None"
    by (simp add: queueInLoop_def queue_wake_def queue_push_def wakeup_def after_remove_def)
  have reg: "registered (epoll_log ?t) (ch_fd ch) = None" using wf3 out by (rule loop_wf_registered)
  have "timers_ok s \<longrightarrow> timers_ok ?t" "connectors ?t = connectors s" "sys ?t = sys s"
    "pendingFunctors ?t = pendingFunctors s @ [Some (Fn_Connector_resetChannel k)]"
    "conns ?t = conns s" "conn_log ?t = conn_log s" "home ?t = home s"
    "\<forall>e. e \<noteq> d \<longrightarrow> chans ?t e = chans s e" "\<forall>f. f \<noteq> ch_fd ch \<longrightarrow> channels ?t f = channels s f"
    by (simp_all add: queueInLoop_def queue_wake_def queue_push_def wakeup_def timers_ok_def timer_alive_def
        expir_def list_all_iff after_remove_def after_update_def home_def owner_calls_def)
  with run out wf3 reg show thesis by (intro that [of ?t]) blast+
qed

text \<open>When the removal succeeds its conditions held: the poller and the loop have asserted them.\<close>

lemma disableAll_fd_free:
  assumes "loop_wf s" and "chans s d = Some ch" and "disableAll d s = Inr t"
  shows "fd_free s ch"
  using assms
  by (auto simp: fd_free_def loop_wf_def disableAll_def upd_chan_def put_chan_def Channel_update_def EventLoop_updateChannel_def
      EPollPoller_updateChannel_def Let_def split: if_splits)

lemma removeAndResetChannel_Inr:
  assumes wf: "loop_wf s" and run: "Connector_removeAndResetChannel k s = Inr (fd, t)"
  obtains cn d ch where "connectors s k = Some cn" "c_channel cn = Some d" "chans s d = Some ch" "fd = ch_fd ch"
    "loop_wf t" "channels t fd = None" "connectors t = connectors s" "conns t = conns s" "conn_log t = conn_log s" "home t = home s"
    "\<forall>e. e \<noteq> d \<longrightarrow> chans t e = chans s e" "\<forall>f. f \<noteq> fd \<longrightarrow> channels t f = channels s f"
proof -
  obtain cn d ch s1 where cn: "connectors s k = Some cn" "c_channel cn = Some d" and ch: "chans s d = Some ch"
    and d1: "disableAll d s = Inr s1" and d2: "\<exists>s2. Channel_remove d s1 = Inr s2"
    using run by (auto simp: Connector_removeAndResetChannel_def disableAll_def upd_chan_def result_simps split: option.splits)
  have free: "fd_free s ch" using wf ch d1 by (rule disableAll_fd_free)
  have "s1 = after_update d ch kNoneEvent s" using channel_op_eq [OF wf ch free, of DisableAll] d1 by simp
  then have "may_remove s (c_channel cn)"
    using d2 cn(2) by (auto simp: may_remove_def Channel_remove_def EventLoop_removeChannel_def upd_chan_def put_chan_def
        after_update_def result_simps split: if_splits)
  with wf cn ch free obtain u where u: "Connector_removeAndResetChannel k s = Inr (ch_fd ch, u)" "loop_wf u"
    "connectors u = connectors s" "channels u (ch_fd ch) = None" "conns u = conns s" "conn_log u = conn_log s" "home u = home s"
    and frame: "\<forall>e. e \<noteq> d \<longrightarrow> chans u e = chans s e" "\<forall>f. f \<noteq> ch_fd ch \<longrightarrow> channels u f = channels s f"
    by (rule removeAndResetChannel_eq)
  moreover have "fd = ch_fd ch" "u = t" using run u(1) by simp_all
  ultimately show thesis using cn ch by (intro that [of cn d ch]) simp_all
qed

lemma removeAndResetChannel_ok:
  assumes wf: "loop_wf s" and cn: "connectors s k = Some cn" and on: "connecting_on s cn fd"
    and may: "may_remove s (c_channel cn)"
  obtains t where "Connector_removeAndResetChannel k s = Inr (fd, t)" "loop_wf t" "connectors t = connectors s"
    "sys t = sys s" "registered (epoll_log t) fd = None" "channels t fd = None"
    "pendingFunctors t = pendingFunctors s @ [Some (Fn_Connector_resetChannel k)]" "timers_ok s \<Longrightarrow> timers_ok t"
proof -
  obtain d ch where ch: "c_channel cn = Some d" "chans s d = Some ch" "ch_fd ch = fd" "index ch = kAdded"
    using on by (auto simp: connecting_on_def)
  then have "fd_free s ch" by (simp add: fd_free_def)
  with wf cn ch(1,2) show thesis using may by (rule removeAndResetChannel_eq) (use that ch(3) in blast)
qed

section \<open>Properties\<close>


lemma capped_doubling:
  fixes m d :: int
  assumes "0 \<le> m"
  shows "min (min (d * 2) m * 2 ^ n) m = min (d * 2 ^ Suc n) m"
proof (cases "d * 2 \<le> m")
  case True
  then show ?thesis by (simp add: min_def mult.assoc)
next
  case False
  then have m: "min (d * 2) m = m" by simp
  have "m * 1 \<le> m * 2 ^ n" using assms by (intro mult_left_mono) simp_all
  then have 1: "m \<le> m * 2 ^ n" by simp
  have "m * 2 ^ n \<le> (d * 2) * 2 ^ n" using False by (intro mult_right_mono) simp_all
  also have "(d * 2) * 2 ^ n = d * 2 ^ Suc n" by (simp add: mult.assoc)
  finally have "m \<le> d * 2 ^ Suc n" using 1 by (rule order.trans [rotated])
  with 1 show ?thesis unfolding m by (simp only: min_absorb2)
qed

text \<open>
  C27. The back-off of a connector: every retry returns, and after \<open>n\<close> failed attempts in a row, starting from the initial 500
  ms, the delay before the next attempt is 500 ms times \<open>2 ^ n\<close>, but at most 30 s.
\<close>

theorem retry_backoff:
  assumes "timers_ok s" and "connectors s k = Some cn" and "c_connect cn" and "retryDelayMs cn = kInitRetryDelayMs"
  shows "\<exists>t cn'. rfold (\<lambda>(now, now', sockfd). Connector_retry now now' k sockfd) fails s = Inr t \<and>
    connectors t k = Some cn' \<and> c_connect cn' \<and>
    retryDelayMs cn' = min (kInitRetryDelayMs * 2 ^ length fails) kMaxRetryDelayMs"
proof -
  have "\<exists>t cn'. rfold (\<lambda>(now, now', sockfd). Connector_retry now now' k sockfd) fails s = Inr t \<and>
      connectors t k = Some cn' \<and> c_connect cn' \<and> retryDelayMs cn' = min (retryDelayMs cn * 2 ^ length fails) kMaxRetryDelayMs"
    if "timers_ok s" "connectors s k = Some cn" "c_connect cn" "0 \<le> retryDelayMs cn" "retryDelayMs cn \<le> kMaxRetryDelayMs" for s cn
    using that
  proof (induction fails arbitrary: s cn)
    case Nil
    then show ?case by simp
  next
    case (Cons f fails)
    obtain now now' fd where f: "f = (now, now', fd)" by (cases f)
    let ?cn = "cn\<lparr>c_state := Cs_Disconnected, retryDelayMs := min (retryDelayMs cn * 2) kMaxRetryDelayMs\<rparr>"
    from Cons.prems(1,2) obtain u where u: "Connector_retry now now' k fd s = Inr u" "connectors u k = Some ?cn" "timers_ok u"
      by (rule retry_cases [where now = now and now' = now' and sockfd = fd]) (use Cons.prems(3) in simp)
    moreover have "0 \<le> retryDelayMs ?cn" "retryDelayMs ?cn \<le> kMaxRetryDelayMs" "c_connect ?cn"
      using Cons.prems by (simp_all add: kMaxRetryDelayMs_def)
    ultimately obtain t cn' where "rfold (\<lambda>(now, now', sockfd). Connector_retry now now' k sockfd) fails u = Inr t"
      "connectors t k = Some cn'" "c_connect cn'"
      "retryDelayMs cn' = min (retryDelayMs ?cn * 2 ^ length fails) kMaxRetryDelayMs"
      using Cons.IH [of u ?cn] by blast
    then show ?case
      using u(1) f capped_doubling [of kMaxRetryDelayMs "retryDelayMs cn" "length fails"] by (simp add: kMaxRetryDelayMs_def)
  qed
  from this [OF assms(1-3)] assms(4) show ?thesis
    by (simp add: kInitRetryDelayMs_def kMaxRetryDelayMs_def)
qed


text \<open>
  A connector that already waits for a connection cannot be started again: a second \<open>start()\<close>, or a
  retry timer that is still pending when \<open>stop()\<close> and \<open>start()\<close> began a new attempt, fails the assertion of \<open>startInLoop\<close>.
\<close>

theorem start_while_connecting_aborts:
  assumes "connectors s k = Some cn" and "c_state cn = Cs_Connecting" and "isInLoopThread tid s"
  shows "Connector_start tid k a s = Inl (Assert_failed ''state_ == kDisconnected'') \<and>
    Connector_startInLoop_op k a s = Inl (Assert_failed ''state_ == kDisconnected'')"
  using assms by (simp add: Connector_start_def runInLoop_def Connector_startInLoop_op_def isInLoopThread_def)

section \<open>Witnesses\<close>

definition sample_connector :: Connector where
  "sample_connector = (Connector_ctor sample_addr)\<lparr>c_connect := True, newConnectionCallback := Some 1\<rparr>"

definition sample_cnet :: cnet where
  "sample_cnet = net.extend (tloop.extend sample_timers
       \<lparr>conns = Map.empty, sys = [], caller_mem = Map.empty, conn_log = []\<rparr>)
     \<lparr>connectors = [0 \<mapsto> sample_connector]\<rparr>"

definition sample_attempt :: "errno \<Rightarrow> attempt" where
  "sample_attempt err = \<lparr>at_sockfd = 8, at_error = err, at_chan = 2, at_now = 1000, at_now2 = 1001\<rparr>"

lemma sample_cnet_fields:
  "chans sample_cnet = chans sample_loop" "channels sample_cnet = channels sample_loop"
  "epoll_log sample_cnet = epoll_log sample_loop" "loop_id sample_cnet = loop_id sample_loop" "sys sample_cnet = []"
  "timers sample_cnet = timers sample_timers" "timer_mem sample_cnet = timer_mem sample_timers"
  "s_numCreated sample_cnet = s_numCreated sample_timers" "connectors sample_cnet = [0 \<mapsto> sample_connector]"
  "threadId sample_cnet = 3" "eventHandling sample_cnet = False"
  by (simp_all add: sample_cnet_def net.defs tloop.defs sample_timers_def loop.defs sample_loop_eq)

lemma sample_cnet_ok: "loop_wf sample_cnet" "timers_ok sample_cnet"
proof -
  show "loop_wf sample_cnet"
    using sample_loop_wf poller_wf_cong [of sample_cnet sample_loop] by (simp add: loop_wf_def sample_cnet_fields)
  show "timers_ok sample_cnet"
    using sample_timers_ok by (simp add: timers_ok_def timer_alive_def expir_def list_all_iff sample_cnet_fields)
qed

lemma sample_connector_fields:
  "c_state sample_connector = Cs_Disconnected" "c_connect sample_connector" "c_channel sample_connector = None"
  "retryDelayMs sample_connector = kInitRetryDelayMs" "newConnectionCallback sample_connector = Some 1"
  by (simp_all add: sample_connector_def Connector_ctor_def)


theorem retry_backoff_witness:
  "timers_ok sample_cnet \<and> c_connect sample_connector \<and> retryDelayMs sample_connector = kInitRetryDelayMs \<and>
   (\<exists>t cn'. rfold (\<lambda>(now, now', sockfd). Connector_retry now now' 0 sockfd) [(1000, 1001, 8), (2000, 2001, 9)] sample_cnet = Inr t \<and>
      connectors t 0 = Some cn' \<and> retryDelayMs cn' = 2000)"
  using retry_backoff [OF sample_cnet_ok(2) _ sample_connector_fields(2,4), of 0 "[(1000, 1001, 8), (2000, 2001, 9)]"]
    sample_cnet_ok(2) sample_connector_fields(2,4)
  by (fastforce simp: sample_cnet_fields kInitRetryDelayMs_def kMaxRetryDelayMs_def)

lemma sample_connecting:
  obtains t cn where "Connector_connecting 0 8 2 sample_cnet = Inr t" "loop_wf t" "timers_ok t" "connectors t 0 = Some cn"
    "connecting_on t cn 8" "newConnectionCallback cn = Some 1" "c_connect cn" "\<not> eventHandling t" "sys t = []" "threadId t = 3"
proof -
  have pre: "connectors sample_cnet 0 = Some sample_connector" "chans sample_cnet 2 = None" "channels sample_cnet 8 = None"
    by (simp_all add: sample_cnet_fields sample_loop_eq)
  from sample_cnet_ok(1) pre(1) sample_connector_fields(3) pre(2,3) obtain t where
    t: "Connector_connecting 0 8 2 sample_cnet = Inr t" "loop_wf t"
      "connectors t = (connectors sample_cnet)(0 \<mapsto> sample_connector\<lparr>c_state := Cs_Connecting, c_channel := Some 2\<rparr>)"
      "connecting_on t (sample_connector\<lparr>c_state := Cs_Connecting, c_channel := Some 2\<rparr>) 8" "sys t = sys sample_cnet"
    by (rule connecting_ok)
  have same: "timers t = timers sample_cnet \<and> timer_mem t = timer_mem sample_cnet \<and> s_numCreated t = s_numCreated sample_cnet \<and>
      eventHandling t = eventHandling sample_cnet \<and> threadId t = threadId sample_cnet"
    using t(1) pre(1)
    by (auto simp: Connector_connecting_def sample_connector_fields enableWriting_def Channel_update_def upd_chan_def put_chan_def
        EventLoop_updateChannel_def EPollPoller_updateChannel_def set_index_def poller_update_def callback_setter_defs
        Channel_ctor_def Let_def index_defs result_simps split: if_splits)
  then have "timers_ok t" using sample_cnet_ok(2) by (simp add: timers_ok_def timer_alive_def expir_def list_all_iff)
  with t same show thesis
    by (intro that [of t "sample_connector\<lparr>c_state := Cs_Connecting, c_channel := Some 2\<rparr>"])
      (simp_all add: sample_cnet_fields sample_connector_fields)
qed


theorem start_while_connecting_aborts_witness:
  "\<exists>s cn. connectors s 0 = Some cn \<and> c_state cn = Cs_Connecting \<and> isInLoopThread 3 s \<and>
     Connector_start 3 0 (sample_attempt 0) (s :: cnet) = Inl (Assert_failed ''state_ == kDisconnected'')"
proof (rule sample_connecting)
  fix s :: cnet and cn
  assume h: "connectors s 0 = Some cn" "connecting_on s cn 8" "threadId s = 3"
  then have "c_state cn = Cs_Connecting" "isInLoopThread 3 s" by (simp_all add: connecting_on_def isInLoopThread_def)
  with start_while_connecting_aborts [OF h(1) this, of "sample_attempt 0"] h(1) show ?thesis by blast
qed

end
