(* ===== verification/Siren_Client.thy ===== *)
theory Siren_Client
  imports Siren_Connector Siren_Connection
begin

text \<open>
  The client: \<open>include/siren/net/TcpClient.h\<close> and \<open>src/net/TcpClient.cpp\<close>.

  \<open>clnet\<close> adds the clients of a loop to its connectors and connections. A client has one connector and at most one
  connection, \<open>connection_\<close>. Every operation of a client but \<open>connect\<close>, \<open>disconnect\<close>, \<open>stop\<close> and the destructor runs in the thread of the
  loop, so the mutex around \<open>connection_\<close> only orders single accesses. An \<open>attempt\<close> has the kernel's answers of a
  connection attempt, as in \<open>Siren_Connector\<close>.
\<close>

section \<open>Data\<close>

record TcpClient =
  cl_connector :: nat
  cl_name :: string
  cl_connectionCallback :: "conn_cb option"
  cl_messageCallback :: "msg_cb option"
  cl_writeCompleteCallback :: "nat option"
  cl_retry :: bool
  cl_connect :: bool
  cl_nextConnId :: int
  cl_connection :: "nat option"

record clnet = cnet +
  clients :: "nat \<rightharpoonup> TcpClient"

definition with_client :: "nat \<Rightarrow> 'm clnet_scheme \<Rightarrow> (TcpClient \<Rightarrow> 'a result) \<Rightarrow> 'a result" where
  "with_client v s f = (case clients s v of None \<Rightarrow> Inl Bad_pointer | Some cl \<Rightarrow> f cl)"

definition put_client :: "nat \<Rightarrow> TcpClient \<Rightarrow> 'm clnet_scheme \<Rightarrow> 'm clnet_scheme" where
  "put_client v cl s = s\<lparr>clients := (clients s)(v \<mapsto> cl)\<rparr>"

section \<open>Operations\<close>

definition TcpClient_ctor :: "nat \<Rightarrow> nat \<Rightarrow> InetAddress \<Rightarrow> string \<Rightarrow> 'm clnet_scheme \<Rightarrow> 'm clnet_scheme" where
  "TcpClient_ctor v k addr nameArg s =
     put_connector k ((Connector_ctor addr)\<lparr>newConnectionCallback := Some v\<rparr>)
       (put_client v
         \<lparr>cl_connector = k, cl_name = nameArg, cl_connectionCallback = Some defaultConnectionCallback,
          cl_messageCallback = Some defaultMessageCallback, cl_writeCompleteCallback = None, cl_retry = False,
          cl_connect = True, cl_nextConnId = 1, cl_connection = None\<rparr> s)"

definition TcpClient_enableRetry :: "TcpClient \<Rightarrow> TcpClient" where
  "TcpClient_enableRetry cl = cl\<lparr>cl_retry := True\<rparr>"

definition TcpClient_setConnectionCallback :: "conn_cb option \<Rightarrow> TcpClient \<Rightarrow> TcpClient" where
  "TcpClient_setConnectionCallback cb cl = cl\<lparr>cl_connectionCallback := cb\<rparr>"

definition TcpClient_setMessageCallback :: "msg_cb option \<Rightarrow> TcpClient \<Rightarrow> TcpClient" where
  "TcpClient_setMessageCallback cb cl = cl\<lparr>cl_messageCallback := cb\<rparr>"

definition TcpClient_setWriteCompleteCallback :: "nat option \<Rightarrow> TcpClient \<Rightarrow> TcpClient" where
  "TcpClient_setWriteCompleteCallback cb cl = cl\<lparr>cl_writeCompleteCallback := cb\<rparr>"

definition TcpClient_connection :: "TcpClient \<Rightarrow> nat option" where
  "TcpClient_connection cl = cl_connection cl"

definition TcpClient_connect :: "nat \<Rightarrow> nat \<Rightarrow> attempt \<Rightarrow> 'm clnet_scheme \<Rightarrow> 'm clnet_scheme result" where
  "TcpClient_connect tid v a s =
     with_client v s (\<lambda>cl. Connector_start tid (cl_connector cl) a (put_client v (cl\<lparr>cl_connect := True\<rparr>) s))"

definition TcpClient_disconnect :: "nat \<Rightarrow> nat \<Rightarrow> 'm clnet_scheme \<Rightarrow> 'm clnet_scheme result" where
  "TcpClient_disconnect tid v s =
     with_client v s (\<lambda>cl.
       let s1 = put_client v (cl\<lparr>cl_connect := False\<rparr>) s
       in case cl_connection cl of None \<Rightarrow> Inr s1 | Some c \<Rightarrow> shutdown tid c s1)"

definition TcpClient_stop :: "nat \<Rightarrow> nat \<Rightarrow> 'm clnet_scheme \<Rightarrow> 'm clnet_scheme result" where
  "TcpClient_stop tid v s =
     with_client v s (\<lambda>cl. Connector_stop tid (cl_connector cl) (put_client v (cl\<lparr>cl_connect := False\<rparr>) s))"

text \<open>\<open>snprintf(buf, sizeof buf, ":%s#%d", ...)\<close> with \<open>char buf[32]\<close>.\<close>

definition client_suffix :: "string \<Rightarrow> int \<Rightarrow> string" where
  "client_suffix peer n = take 31 ('':'' @ peer @ ''#'' @ show_int n)"

definition client_callbacks :: "nat \<Rightarrow> TcpClient \<Rightarrow> TcpConnection \<Rightarrow> TcpConnection" where
  "client_callbacks v cl tc =
     TcpConnection_setCloseCallback (Some (TcpClient_removeConnection v))
      (TcpConnection_setWriteCompleteCallback (cl_writeCompleteCallback cl)
       (TcpConnection_setMessageCallback (cl_messageCallback cl)
        (TcpConnection_setConnectionCallback (cl_connectionCallback cl) tc)))"

definition TcpClient_newConnection :: "(byte list \<Rightarrow> string) \<Rightarrow> os \<Rightarrow> (app_call \<Rightarrow> 'm clnet_scheme \<Rightarrow> api_call list) \<Rightarrow> nat \<Rightarrow> chan \<Rightarrow>
    errno + InetAddress \<Rightarrow> errno + InetAddress \<Rightarrow> nat \<Rightarrow> fd \<Rightarrow> 'm clnet_scheme \<Rightarrow> 'm clnet_scheme result" where
  "TcpClient_newConnection ntop6 os app c d peername sockname v sockfd s =
     with_client v s (\<lambda>cl.
     rbind (InetAddress_toIpPort ntop6 (getPeerAddr peername)) (\<lambda>peer.
       if cl_nextConnId cl = 2 ^ 31 - 1 then Inl Signed_overflow
       else
         let connName = cl_name cl @ client_suffix peer (cl_nextConnId cl);
             cl1 = cl\<lparr>cl_nextConnId := cl_nextConnId cl + 1\<rparr>
         in rbind (TcpConnection_ctor c d connName sockfd (getLocalAddr sockname) (getPeerAddr peername) (put_client v cl1 s)) (\<lambda>s1.
            with_conn c s1 (\<lambda>tc.
              connectEstablished os app c
                (put_client v (cl1\<lparr>cl_connection := Some c\<rparr>) (put_conn c (client_callbacks v cl1 tc) s1))))))"

definition TcpClient_removeConnection_op :: "attempt \<Rightarrow> nat \<Rightarrow> nat \<Rightarrow> 'm clnet_scheme \<Rightarrow> 'm clnet_scheme result" where
  "TcpClient_removeConnection_op a v c s =
     with_client v s (\<lambda>cl.
       if cl_connection cl \<noteq> Some c then Inl (Assert_failed ''connection_ == conn'')
       else
         let s1 = queueInLoop (threadId s) (Some (Fn_connectDestroyed c)) (put_client v (cl\<lparr>cl_connection := None\<rparr>) s)
         in if cl_retry cl \<and> cl_connect cl then Connector_restart (cl_connector cl) a s1 else Inr s1)"

text \<open>\<open>detail::removeConnection\<close>, the closing callback of a connection that outlives its client.\<close>

definition detail_removeConnection_op :: "nat \<Rightarrow> 'm clnet_scheme \<Rightarrow> 'm clnet_scheme" where
  "detail_removeConnection_op c s = queueInLoop (threadId s) (Some (Fn_connectDestroyed c)) s"

definition detail_removeConnector :: "nat \<Rightarrow> 'm clnet_scheme \<Rightarrow> 'm clnet_scheme" where
  "detail_removeConnector k s = s"

text \<open>The closing callbacks; \<open>kern\<close> answers the attempt to connect that a restart makes at once.\<close>

fun client_on_close :: "('m clnet_scheme \<Rightarrow> attempt) \<Rightarrow> close_cb \<Rightarrow> nat \<Rightarrow> 'm clnet_scheme \<Rightarrow> 'm clnet_scheme result" where
  "client_on_close kern (TcpClient_removeConnection v) c s = TcpClient_removeConnection_op (kern s) v c s"
| "client_on_close kern (detail_removeConnection l) c s = Inr (detail_removeConnection_op c s)"
| "client_on_close kern _ c s = Inr s"

text \<open>The functor \<open>setCloseCallback(conn, cb)\<close> that the destructor runs in the loop.\<close>

definition set_detail_callback :: "nat \<Rightarrow> 'm clnet_scheme \<Rightarrow> 'm clnet_scheme result" where
  "set_detail_callback c s =
     with_conn c s (\<lambda>tc.
       Inr (put_conn c (TcpConnection_setCloseCallback (Some (detail_removeConnection (loop_id s))) tc) s))"

text \<open>
  The destructor; \<open>unique\<close> is \<open>connection_.unique()\<close>, that is, whether user code has no other pointer to the connection.
\<close>

definition TcpClient_dtor :: "int \<Rightarrow> int \<Rightarrow> nat \<Rightarrow> bool \<Rightarrow> nat \<Rightarrow> 'm clnet_scheme \<Rightarrow> 'm clnet_scheme result" where
  "TcpClient_dtor now now' tid unique v s =
     with_client v s (\<lambda>cl.
       rbind (case cl_connection cl of
                Some c \<Rightarrow>
                  rbind (runInLoop (\<lambda>f. set_detail_callback c) tid (Some (Fn_setCloseCallback c)) s) (\<lambda>s1.
                    if unique then forceClose tid c s1 else Inr s1)
              | None \<Rightarrow>
                  rbind (Connector_stop tid (cl_connector cl) s) (\<lambda>s1.
                  rbind (runAfter now now' tid 1 (Some (TC_removeConnector (cl_connector cl))) s1) (\<lambda>(timerId, s2). Inr s2))) (\<lambda>s3.
       Inr (s3\<lparr>clients := (clients s3)(v := None)\<rparr>)))"

section \<open>Lemmas\<close>

lemma with_client_simps [simp]: "clients s v = Some cl \<Longrightarrow> with_client v s f = f cl"
  by (simp add: with_client_def)

lemma with_client_eq_Inr [result_simps]:
  "with_client v s f = Inr y \<longleftrightarrow> (\<exists>cl. clients s v = Some cl \<and> f cl = Inr y)"
  by (auto simp: with_client_def split: option.splits)

lemma put_client_fields [simp]:
  "clients (put_client v cl s) = (clients s)(v \<mapsto> cl)" "connectors (put_client v cl s) = connectors s"
  "conns (put_client v cl s) = conns s" "threadId (put_client v cl s) = threadId s" "loop_id (put_client v cl s) = loop_id s"
  "chans (put_client v cl s) = chans s" "channels (put_client v cl s) = channels s" "sys (put_client v cl s) = sys s"
  "epoll_log (put_client v cl s) = epoll_log s" "pendingFunctors (put_client v cl s) = pendingFunctors s"
  by (simp_all add: put_client_def)

lemma put_connector_client [simp]:
  "clients (put_connector k cn s) = clients s" "conns (put_connector k cn s) = conns s"
  by (simp_all add: put_connector_def)

lemma client_queue_fields [simp]:
  "clients (queueInLoop tid cb s) = clients s" "connectors (queueInLoop tid cb s) = connectors s"
  by (simp_all add: queueInLoop_def queue_wake_def queue_push_def wakeup_def)

lemma net_wf_client [simp]:
  "net_wf (put_client v cl s) = net_wf s" "net_wf (put_connector k cn s) = net_wf s"
  by (rule net_wf_cong; simp add: put_client_def put_connector_def)+

lemma more_client:
  fixes s t :: "'m clnet_scheme"
  assumes "net.more t = net.more s"
  shows "clients t = clients s \<and> connectors t = connectors s"
proof (cases s)
  case s: fields
  show ?thesis
  proof (cases t)
    case t: fields
    show ?thesis
      using assms by (simp only: s t net.select_convs cnet.select_convs clnet.select_convs cnet.ext_inject clnet.ext_inject)
  qed
qed

lemma homeD_client:
  fixes s t :: "'m clnet_scheme"
  assumes "home t = home s"
  shows "clients t = clients s" and "connectors t = connectors s" and "threadId t = threadId s"
  using more_client [OF homeD(3) [OF assms]] homeD(1) [OF assms] by simp_all

lemma cnet_more_clients: "cnet.more t = cnet.more s \<Longrightarrow> clients t = clients s"
  for s t :: "'m clnet_scheme"
  by (cases s; cases t) (simp only: cnet.select_convs clnet.select_convs clnet.ext_inject)

text \<open>
  The channel of a connector, and its descriptor, belong to no connection: they are another object of the heap and another open descriptor.
\<close>

definition apart :: "'m net_scheme \<Rightarrow> Connector \<Rightarrow> bool" where
  "apart s cn \<longleftrightarrow> (\<forall>c tc d ch. conns s c = Some tc \<longrightarrow> c_channel cn = Some d \<longrightarrow> chans s d = Some ch \<longrightarrow>
     tc_channel tc \<noteq> d \<and> tc_socket tc \<noteq> ch_fd ch)"

lemma removeAndResetChannel_frame:
  fixes s :: "'m clnet_scheme"
  assumes wf: "net_wf s" and cn: "connectors s k = Some cn" and apart: "apart s cn"
    and run: "Connector_removeAndResetChannel k s = Inr (fd, t)"
  shows "net_wf t" and "conns t = conns s" and "conn_log t = conn_log s" and "home t = home s" and "channels t fd = None"
    and "\<And>c tc. conns s c = Some tc \<Longrightarrow> tc_socket tc \<noteq> fd" and "\<And>e. chans s e = None \<Longrightarrow> chans t e = None"
proof -
  have lwf: "loop_wf s" using wf by (simp add: net_wf_def)
  from lwf run obtain cn' d ch where ch: "connectors s k = Some cn'" "c_channel cn' = Some d" "chans s d = Some ch" "fd = ch_fd ch"
    and t: "loop_wf t" "channels t fd = None" "conns t = conns s" "conn_log t = conn_log s" "home t = home s"
    and frame: "\<forall>e. e \<noteq> d \<longrightarrow> chans t e = chans s e" "\<forall>f. f \<noteq> fd \<longrightarrow> channels t f = channels s f"
    by (rule removeAndResetChannel_Inr)
  have out: "tc_channel tc \<noteq> d \<and> tc_socket tc \<noteq> fd" if "conns s c = Some tc" for c tc
    using apart cn ch that by (auto simp: apart_def)
  show "net_wf t" using wf t(1,3) by (rule foreign_net_wf) (use out frame in blast)
  show "conns t = conns s" "conn_log t = conn_log s" "home t = home s" "channels t fd = None" by (fact t)+
  show "tc_socket tc \<noteq> fd" if "conns s c = Some tc" for c tc using out [OF that] by blast
  show "chans t e = None" if "chans s e = None" for e using frame(1) that ch(3) by (cases "e = d") auto
qed

lemma newConnection_eq:
  assumes wf: "net_wf s" and cl: "clients s v = Some cl" and id: "cl_nextConnId cl \<noteq> 2 ^ 31 - 1"
    and peer: "InetAddress_toIpPort ntop6 (getPeerAddr peername) = Inr peer" and fresh: "fresh_conn c d sockfd s"
  obtains u tc where
    "TcpClient_newConnection ntop6 os app c d peername sockname v sockfd s = connectEstablished os app c u"
    "net_wf u" "conns u = (conns s)(c \<mapsto> tc)" "tc_socket tc = sockfd" "tc_state tc = kConnecting"
    "tc_name tc = cl_name cl @ client_suffix peer (cl_nextConnId cl)"
    "connectionCallback tc = cl_connectionCallback cl" "messageCallback tc = cl_messageCallback cl"
    "tc_closeCallback tc = Some (TcpClient_removeConnection v)"
    "clients u = (clients s)(v \<mapsto> cl\<lparr>cl_nextConnId := cl_nextConnId cl + 1, cl_connection := Some c\<rparr>)"
    "connectors u = connectors s" "epoll_log u = epoll_log s" "conn_log u = conn_log s" "pendingFunctors u = pendingFunctors s"
    "writeCompleteCallback tc = cl_writeCompleteCallback cl"
proof -
  let ?name = "cl_name cl @ client_suffix peer (cl_nextConnId cl)"
  let ?cl = "cl\<lparr>cl_nextConnId := cl_nextConnId cl + 1\<rparr>"
  obtain tc0 ch where init: "TcpConnection_init (loop_id s) c d ?name sockfd (getLocalAddr sockname) (getPeerAddr peername)
      = Inr (tc0, ch)"
    and tc0: "tc_name tc0 = ?name" "tc_state tc0 = kConnecting" "tc_socket tc0 = sockfd"
    by (rule TcpConnection_init_ok)
  let ?tc = "client_callbacks v ?cl tc0"
  let ?s1 = "put_client v (?cl\<lparr>cl_connection := Some c\<rparr>) s"
  let ?s2 = "?s1\<lparr>sys := Socket_setKeepAlive sockfd True (sys s)\<rparr>"
  let ?u = "put_conn c ?tc (put_chan d ch ?s2)"
  have tc: "tc_name ?tc = ?name" "tc_state ?tc = kConnecting" "tc_socket ?tc = sockfd"
    "connectionCallback ?tc = cl_connectionCallback cl" "messageCallback ?tc = cl_messageCallback cl"
    "writeCompleteCallback ?tc = cl_writeCompleteCallback cl"
    "tc_closeCallback ?tc = Some (TcpClient_removeConnection v)"
    using tc0 by (simp_all add: client_callbacks_def tc_setter_defs)
  have "put_client v (?cl\<lparr>cl_connection := Some c\<rparr>) (put_conn c ?tc ((put_conn c tc0 (put_chan d ch (put_client v ?cl s)))
      \<lparr>sys := Socket_setKeepAlive sockfd True (sys s)\<rparr>)) = ?u"
    by (rule clnet.equality) (simp_all add: put_conn_def put_chan_def put_client_def)
  then have run: "TcpClient_newConnection ntop6 os app c d peername sockname v sockfd s = connectEstablished os app c ?u"
    using cl peer init id by (simp add: TcpClient_newConnection_def TcpConnection_ctor_def Let_def)
  have "net_wf ?s2" using wf by simp
  moreover have "fresh_conn c d sockfd ?s2" using fresh by (simp add: fresh_conn_def callbacks_def put_client_def)
  ultimately have "net_wf ?u"
    by (rule new_conn_wf) (use init in \<open>simp_all add: client_callbacks_def tc_setter_defs\<close>)
  with run tc show thesis by (intro that [of ?u ?tc]) (simp_all add: put_conn_def put_chan_def put_client_def)
qed

text \<open>The closing callback of the current connection.\<close>

definition after_removal :: "nat \<Rightarrow> TcpClient \<Rightarrow> nat \<Rightarrow> 'm clnet_scheme \<Rightarrow> 'm clnet_scheme" where
  "after_removal v cl c s =
     queueInLoop (threadId s) (Some (Fn_connectDestroyed c)) (put_client v (cl\<lparr>cl_connection := None\<rparr>) s)"

lemma client_on_close_eq:
  assumes "clients s v = Some cl" and "cl_connection cl = Some c"
  shows "client_on_close kern (TcpClient_removeConnection v) c s =
    (if cl_retry cl \<and> cl_connect cl then Connector_restart (cl_connector cl) (kern s) (after_removal v cl c s)
     else Inr (after_removal v cl c s))"
  using assms by (simp add: TcpClient_removeConnection_op_def after_removal_def Let_def)

lemma client_handleClose:
  assumes os: "os_documented os" and wf: "net_wf s" and tc: "conns s c = Some tc"
    and st: "tc_state tc = kConnected \<or> tc_state tc = kDisconnecting"
    and cb: "tc_closeCallback tc = Some (TcpClient_removeConnection v)"
    and cl: "clients s v = Some cl" "cl_connection cl = Some c"
  obtains u where "conns u = (conns s)(c \<mapsto> setState kDisconnected tc)" "home u = home s"
    "\<And>e. call_connectionCallback os app c u = Inl e \<Longrightarrow> handleClose os app (client_on_close kern) c s = Inl e"
    "\<And>w. call_connectionCallback os app c u = Inr w \<Longrightarrow> net_wf w \<and> home w = home s \<and>
       handleClose os app (client_on_close kern) c s =
         (if cl_retry cl \<and> cl_connect cl then Connector_restart (cl_connector cl) (kern w) (after_removal v cl c w)
          else Inr (after_removal v cl c w))"
proof -
  from wf tc obtain u where u: "disableAll (tc_channel tc) (put_conn c (setState kDisconnected tc) s) = Inr u"
    "net_wf u" "conns u = (conns s)(c \<mapsto> setState kDisconnected tc)" "home u = home s"
    by (rule close_frame)
  have split: "handleClose os app (client_on_close kern) c s = rbind (call_connectionCallback os app c u) (\<lambda>w.
      with_conn c w (\<lambda>tw. case tc_closeCallback tw of None \<Rightarrow> Inl Bad_function_call | Some cb \<Rightarrow> client_on_close kern cb c w))"
    using u(1) tc st by (auto simp: handleClose_def)
  have "net_wf w \<and> home w = home s \<and> handleClose os app (client_on_close kern) c s =
      (if cl_retry cl \<and> cl_connect cl then Connector_restart (cl_connector cl) (kern w) (after_removal v cl c w)
       else Inr (after_removal v cl c w))" if w: "call_connectionCallback os app c u = Inr w" for w
  proof -
    let ?u = "u\<lparr>conn_log := conn_log u @ [(c, False)]\<rparr>"
    from u(2) os w have fr: "api_frame ?u w"
      by (rule call_connectionCallback_frame) (use u(3) in \<open>auto simp: connected_def setState_def\<close>)
    obtain tw where tw: "conns w c = Some tw" "conn_frame (setState kDisconnected tc) tw"
      using api_frameD(4) [OF fr, of c "setState kDisconnected tc"] u(3) by auto
    then have close: "tc_closeCallback tw = Some (TcpClient_removeConnection v)" using cb by (simp add: conn_frame_def setState_def)
    have h: "home w = home s" using api_frameD(3) [OF fr] u(4) by simp
    then have "clients w v = Some cl" using homeD_client(1) [OF h] cl(1) by simp
    from client_on_close_eq [OF this cl(2)] show ?thesis
      using api_frameD(1) [OF fr] h split w tw(1) close by simp
  qed
  with u split show thesis by (intro that [of u]) simp_all
qed

section \<open>Properties\<close>

text \<open>
  C22. A client gets its connection. When the connector's descriptor has become writable without an error, it leaves the
  poller, the connector is connected, and the client makes a connection of that very descriptor, with the client's callbacks and
  with \<open>removeConnection\<close> to report its end; it is the client's \<open>connection()\<close> before \<open>connectEstablished\<close> runs user code.
\<close>

theorem client_connects:
  assumes "net_wf s" and "clients s v = Some cl" and "connectors s (cl_connector cl) = Some cn"
    and "newConnectionCallback cn = Some v" and "c_connect cn" and "connecting_on s cn fd" and "may_remove s (c_channel cn)"
    and "apart s cn" and "conns s c = None" and "callbacks s c = []" and "chans s d = None"
    and "InetAddress_toIpPort ntop6 (getPeerAddr peername) = Inr peer" and "cl_nextConnId cl < 2 ^ 31 - 1"
    and "getSocketError so_error = 0" and "\<not> isSelfConnect sockname peername"
  shows "\<exists>u tc. Connector_handleWrite_op (TcpClient_newConnection ntop6 os app c d peername sockname) so_error sockname peername
      now now' (cl_connector cl) s = connectEstablished os app c u \<and>
    net_wf u \<and> registered (epoll_log u) fd = None \<and>
    connectors u (cl_connector cl) = Some (cn\<lparr>c_state := Cs_Connected\<rparr>) \<and>
    clients u v = Some (cl\<lparr>cl_nextConnId := cl_nextConnId cl + 1, cl_connection := Some c\<rparr>) \<and>
    conns u = (conns s)(c \<mapsto> tc) \<and> tc_socket tc = fd \<and> tc_state tc = kConnecting \<and>
    tc_name tc = cl_name cl @ client_suffix peer (cl_nextConnId cl) \<and>
    connectionCallback tc = cl_connectionCallback cl \<and> messageCallback tc = cl_messageCallback cl \<and>
    writeCompleteCallback tc = cl_writeCompleteCallback cl \<and> tc_closeCallback tc = Some (TcpClient_removeConnection v)"
proof -
  have "loop_wf s" using assms(1) by (simp add: net_wf_def)
  then obtain t where run: "Connector_removeAndResetChannel (cl_connector cl) s = Inr (fd, t)"
    and reg: "registered (epoll_log t) fd = None" and cons: "connectors t = connectors s"
    using assms(3,6,7) by (rule removeAndResetChannel_ok)
  note t = removeAndResetChannel_frame [OF assms(1,3,8) run]
  let ?cn = "cn\<lparr>c_state := Cs_Connected\<rparr>"
  let ?t = "put_connector (cl_connector cl) ?cn t"
  have st: "c_state cn = Cs_Connecting" using assms(6) by (simp add: connecting_on_def)
  have fresh: "fresh_conn c d fd ?t"
    using t(2,3,5) t(6) t(7) [OF assms(11)] assms(9,10) by (auto simp: fresh_conn_def callbacks_def put_connector_def)
  have wf: "net_wf ?t" and cl: "clients ?t v = Some cl" using t(1) homeD_client(1) [OF t(4)] assms(2) by simp_all
  have hw: "Connector_handleWrite_op (TcpClient_newConnection ntop6 os app c d peername sockname) so_error sockname peername
      now now' (cl_connector cl) s = TcpClient_newConnection ntop6 os app c d peername sockname v fd ?t"
    using run st assms(3-5,14,15) by (simp add: Connector_handleWrite_op_def Let_def)
  have id: "cl_nextConnId cl \<noteq> 2 ^ 31 - 1" using assms(13) by simp
  from wf cl id assms(12) fresh show ?thesis
    by (rule newConnection_eq [where os = os and app = app and sockname = sockname]) (use hw t(2) reg in auto)
qed

text \<open>
  A client that does not retry cannot connect a second time: after its connection was made and has closed, the
  connector is still in the state connected, and \<open>connect()\<close> fails the assertion \<open>state_ == kDisconnected\<close> of \<open>startInLoop\<close>.
\<close>

theorem client_reconnect_aborts:
  assumes "os_documented os" and "net_wf s" and "conns s c = Some tc"
    and "tc_state tc = kConnected \<or> tc_state tc = kDisconnecting"
    and "tc_closeCallback tc = Some (TcpClient_removeConnection v)"
    and "clients s v = Some cl" and "cl_connection cl = Some c" and "\<not> cl_retry cl"
    and "connectors s (cl_connector cl) = Some cn" and "c_state cn = Cs_Connected"
    and "handleClose os app (client_on_close kern) c s = Inr t"
  shows "clients t v = Some (cl\<lparr>cl_connection := None\<rparr>) \<and>
    TcpClient_connect (threadId s) v a' t = Inl (Assert_failed ''state_ == kDisconnected'')"
  using assms(1-7)
proof (rule client_handleClose)
  fix u
  assume bad: "\<And>e. call_connectionCallback os app c u = Inl e \<Longrightarrow> handleClose os app (client_on_close kern) c s = Inl e"
    and good: "\<And>w. call_connectionCallback os app c u = Inr w \<Longrightarrow> net_wf w \<and> home w = home s \<and>
       handleClose os app (client_on_close kern) c s =
         (if cl_retry cl \<and> cl_connect cl then Connector_restart (cl_connector cl) (kern w) (after_removal v cl c w)
          else Inr (after_removal v cl c w))"
  obtain w where w: "call_connectionCallback os app c u = Inr w"
    using bad assms(11) by (cases "call_connectionCallback os app c u") auto
  then have t: "t = after_removal v cl c w" "home w = home s" using good [OF w] assms(8,11) by auto
  then have "connectors t (cl_connector cl) = Some cn" "clients t v = Some (cl\<lparr>cl_connection := None\<rparr>)" "threadId t = threadId s"
    using homeD_client [OF t(2)] assms(9) by (simp_all add: after_removal_def)
  then show ?thesis
    using assms(10) by (simp add: TcpClient_connect_def Connector_start_def runInLoop_def isInLoopThread_def
        Connector_startInLoop_op_def)
qed

section \<open>Witnesses\<close>

definition sample_client :: TcpClient where
  "sample_client =
     \<lparr>cl_connector = 0, cl_name = ''c'', cl_connectionCallback = Some defaultConnectionCallback,
      cl_messageCallback = Some defaultMessageCallback, cl_writeCompleteCallback = None, cl_retry = False,
      cl_connect = True, cl_nextConnId = 1, cl_connection = None\<rparr>"

definition sample_clnet :: "Connector_States \<Rightarrow> clnet" where
  "sample_clnet st = put_connector 0 (sample_connector\<lparr>c_state := st\<rparr>)
     (cnet.extend sample_cnet \<lparr>clients = [1 \<mapsto> sample_client]\<rparr>)"

definition quiet_app :: "app_call \<Rightarrow> clnet \<Rightarrow> api_call list" where
  "quiet_app call s = []"

lemma sample_clnet_fields:
  "chans (sample_clnet st) = chans sample_loop" "channels (sample_clnet st) = channels sample_loop"
  "epoll_log (sample_clnet st) = epoll_log sample_loop" "loop_id (sample_clnet st) = loop_id sample_loop"
  "conns (sample_clnet st) = Map.empty" "conn_log (sample_clnet st) = []" "eventHandling (sample_clnet st) = False"
  "clients (sample_clnet st) = [1 \<mapsto> sample_client]" "connectors (sample_clnet st) 0 = Some (sample_connector\<lparr>c_state := st\<rparr>)"
  by (simp_all add: sample_clnet_def put_connector_def cnet.defs sample_cnet_def net.defs tloop.defs sample_timers_def loop.defs
      sample_loop_eq)

lemma sample_clnet_wf: "loop_wf (sample_clnet st)" "net_wf (sample_clnet st)"
proof -
  show "loop_wf (sample_clnet st)"
    using sample_loop_wf loop_wf_transfer [of "sample_clnet st" sample_loop] by (simp add: sample_clnet_fields)
  then show "net_wf (sample_clnet st)" by (simp add: net_wf_def sample_clnet_fields)
qed

lemma sample_peer:
  "InetAddress_toIpPort (\<lambda>b. ''::'') (getPeerAddr (Inr sample_addr)) = Inr ''127.0.0.1:8080''"
  "\<not> isSelfConnect (Inl EBADF) (Inr sample_addr)" "getSocketError (Inr 0) = 0" "cl_nextConnId sample_client < 2 ^ 31 - 1"
  using toIpPort_exact [of "\<lambda>b. ''::''" sample_addr]
  by (simp_all add: INET6_ADDRSTRLEN_def sample_addr_fields sample_addr_text getPeerAddr_def isSelfConnect_def getLocalAddr_def
      zero_addr_def AF_INET_def AF_INET6_def getSocketError_def sample_client_def Let_def)

lemma sample_client_connecting:
  obtains t :: clnet and cn where "net_wf t" "clients t 1 = Some sample_client" "connectors t 0 = Some cn" "c_connect cn"
    "newConnectionCallback cn = Some 1" "connecting_on t cn 8" "may_remove t (c_channel cn)" "apart t cn"
    "conns t = Map.empty" "conn_log t = []" "chans t 3 = None"
proof -
  let ?s = "sample_clnet Cs_Disconnected"
  let ?cn = "sample_connector\<lparr>c_state := Cs_Disconnected\<rparr>"
  have pre: "connectors ?s 0 = Some ?cn" "c_channel ?cn = None" "chans ?s 2 = None" "channels ?s 8 = None"
    by (simp_all add: sample_clnet_fields sample_loop_eq sample_connector_fields)
  from sample_clnet_wf(1) pre obtain t where
    t: "Connector_connecting 0 8 2 ?s = Inr t" "loop_wf t"
      "connectors t = (connectors ?s)(0 \<mapsto> ?cn\<lparr>c_state := Cs_Connecting, c_channel := Some 2\<rparr>)"
      "connecting_on t (?cn\<lparr>c_state := Cs_Connecting, c_channel := Some 2\<rparr>) 8" "sys t = sys ?s"
    by (rule connecting_ok)
  have same: "conns t = conns ?s \<and> conn_log t = conn_log ?s \<and> clients t = clients ?s \<and> eventHandling t = eventHandling ?s \<and>
      (\<forall>e. e \<noteq> 2 \<longrightarrow> chans t e = chans ?s e)"
    using t(1) pre(1)
    by (auto simp: Connector_connecting_def sample_connector_fields enableWriting_def Channel_update_def upd_chan_def put_chan_def
        EventLoop_updateChannel_def EPollPoller_updateChannel_def set_index_def poller_update_def callback_setter_defs
        Channel_ctor_def Let_def index_defs put_connector_def result_simps split: if_splits)
  then have "net_wf t" using t(2) by (simp add: net_wf_def sample_clnet_fields)
  with t same show thesis
    by (intro that [of t "?cn\<lparr>c_state := Cs_Connecting, c_channel := Some 2\<rparr>"])
      (simp_all add: sample_clnet_fields sample_connector_fields may_remove_def apart_def sample_loop_eq)
qed

theorem client_connects_witness:
  "\<exists>(s :: clnet) cn u tc. net_wf s \<and> connectors s 0 = Some cn \<and> connecting_on s cn 8 \<and>
     Connector_handleWrite_op (TcpClient_newConnection (\<lambda>b. ''::'') sample_os quiet_app 9 3 (Inr sample_addr) (Inl EBADF)) (Inr 0)
       (Inl EBADF) (Inr sample_addr) 0 0 0 s = connectEstablished sample_os quiet_app 9 u \<and>
     conns u 9 = Some tc \<and> tc_socket tc = 8"
proof (rule sample_client_connecting)
  fix s :: clnet and cn
  assume s: "net_wf s" "clients s 1 = Some sample_client" "connectors s 0 = Some cn" "c_connect cn"
    "newConnectionCallback cn = Some 1" "connecting_on s cn 8" "may_remove s (c_channel cn)" "apart s cn"
    "conns s = Map.empty" "conn_log s = []" "chans s 3 = None"
  have k: "cl_connector sample_client = 0" by (simp add: sample_client_def)
  have c: "conns s 9 = None" "callbacks s 9 = []" using s(9,10) by (simp_all add: callbacks_def)
  from client_connects [OF s(1,2) _ s(5,4,6,7,8) c s(11) sample_peer(1,4,3,2), of sample_os quiet_app 0 0] k s(3)
  show ?thesis using s(1,6) by fastforce
qed

lemma sample_client_connected:
  obtains s :: clnet and cl tc cn where "net_wf s" "conns s 9 = Some tc" "tc_state tc = kConnected \<or> tc_state tc = kDisconnecting"
    "tc_closeCallback tc = Some (TcpClient_removeConnection 1)" "connectionCallback tc = Some defaultConnectionCallback"
    "clients s 1 = Some cl" "cl_connection cl = Some 9" "\<not> cl_retry cl" "cl_connector cl = 0"
    "connectors s 0 = Some cn" "c_state cn = Cs_Connected"
proof -
  let ?s = "sample_clnet Cs_Connected"
  let ?new = "TcpClient_newConnection (\<lambda>b. ''::'') sample_os quiet_app 9 3 (Inr sample_addr) (Inl EBADF) 1 8 ?s"
  have cl: "clients ?s 1 = Some sample_client" by (simp add: sample_clnet_fields)
  have fresh: "fresh_conn 9 3 8 ?s" by (simp add: fresh_conn_def sample_clnet_fields callbacks_def sample_loop_eq)
  obtain u tc where u: "?new = connectEstablished sample_os quiet_app 9 u" "net_wf u" "conns u = (conns ?s)(9 \<mapsto> tc)"
    "clients u = (clients ?s)(1 \<mapsto> sample_client\<lparr>cl_nextConnId := cl_nextConnId sample_client + 1, cl_connection := Some 9\<rparr>)"
    "connectors u = connectors ?s" "tc_state tc = kConnecting"
    and tc: "tc_closeCallback tc = Some (TcpClient_removeConnection 1)" "connectionCallback tc = cl_connectionCallback sample_client"
    by (rule newConnection_eq [OF sample_clnet_wf(2) cl _ sample_peer(1) fresh]) (use sample_peer(4) in simp)
  have at: "conns u 9 = Some tc" using u(3) by simp
  from u(2) at u(6) show thesis
  proof (rule connectEstablished_eq)
    fix w
    assume w: "net_wf w" "conns w = (conns u)(9 \<mapsto> setState kConnected tc)" "home w = home u"
    let ?cl = "sample_client\<lparr>cl_nextConnId := cl_nextConnId sample_client + 1, cl_connection := Some 9\<rparr>"
    have "clients w 1 = Some ?cl" "connectors w 0 = Some (sample_connector\<lparr>c_state := Cs_Connected\<rparr>)"
      using homeD_client [OF w(3)] u(4,5) by (simp_all add: sample_clnet_fields)
    then show thesis
      using w(1,2) tc by (intro that [of w "setState kConnected tc" ?cl "sample_connector\<lparr>c_state := Cs_Connected\<rparr>"])
        (simp_all add: sample_client_def setState_def)
  qed
qed

theorem client_reconnect_aborts_witness:
  "os_documented sample_os \<and>
   (\<exists>(s :: clnet) t. net_wf s \<and> handleClose sample_os quiet_app (client_on_close (\<lambda>s. sample_attempt 0)) 9 s = Inr t \<and>
      TcpClient_connect (threadId s) 1 (sample_attempt 0) t = Inl (Assert_failed ''state_ == kDisconnected''))"
proof (rule sample_client_connected)
  fix s :: clnet and tc cl cn
  assume s: "net_wf s" "conns s 9 = Some tc" "tc_state tc = kConnected \<or> tc_state tc = kDisconnecting"
    "tc_closeCallback tc = Some (TcpClient_removeConnection 1)" "connectionCallback tc = Some defaultConnectionCallback"
    "clients s 1 = Some cl" "cl_connection cl = Some 9" "\<not> cl_retry cl" "cl_connector cl = 0"
    "connectors s 0 = Some cn" "c_state cn = Cs_Connected"
  obtain t where t: "handleClose sample_os quiet_app (client_on_close (\<lambda>s. sample_attempt 0)) 9 s = Inr t"
    using sample_os_ok s(1-4,6,7)
  proof (rule client_handleClose [where app = quiet_app and kern = "\<lambda>s. sample_attempt 0"])
    fix u
    assume u: "conns u = (conns s)(9 \<mapsto> setState kDisconnected tc)"
      and good: "\<And>w. call_connectionCallback sample_os quiet_app 9 u = Inr w \<Longrightarrow> net_wf w \<and> home w = home s \<and>
       handleClose sample_os quiet_app (client_on_close (\<lambda>s. sample_attempt 0)) 9 s =
         (if cl_retry cl \<and> cl_connect cl then Connector_restart (cl_connector cl) (sample_attempt 0) (after_removal 1 cl 9 w)
          else Inr (after_removal 1 cl 9 w))"
    have "\<exists>w. call_connectionCallback sample_os quiet_app 9 u = Inr w"
      using u s(5) by (simp add: call_connectionCallback_def setState_def Let_def)
    then show thesis using good s(8) that by auto
  qed
  from client_reconnect_aborts [OF sample_os_ok s(1-4,6-8) _ s(11) t, of "sample_attempt 0"] s(9,10) t s(1) sample_os_ok
  show ?thesis by auto
qed

end
