(* ===== verification/Siren_ClientRuns.thy ===== *)
theory Siren_ClientRuns
  imports Siren_Client
begin

text \<open>
  All runs of a client: \<open>src/net/TcpClient.cpp\<close> with its \<open>Connector\<close> and its \<open>TcpConnection\<close>s, driven by user code, the loop and the kernel.

  \<open>connector_frame\<close> is what any operation of the connector leaves alone; \<open>client_ok\<close> is the invariant of a client, which
  satisfies the interface \<open>conn_invariant\<close> of \<open>Siren_Connection\<close>; \<open>client_step\<close> has as its steps
  the operations of the client with its setters and its destructor, those of the connector, the events of the connections and the functors of the loop.
\<close>

section \<open>What the connector leaves alone\<close>

text \<open>An attempt that the kernel does not refuse at once gets a descriptor and a channel that are not in use.\<close>

definition fresh_attempt :: "'m net_scheme \<Rightarrow> attempt \<Rightarrow> bool" where
  "fresh_attempt s a \<longleftrightarrow> (connect_pending (at_error a) \<longrightarrow>
     chans s (at_chan a) = None \<and> channels s (at_sockfd a) = None \<and> (\<forall>c tc. conns s c = Some tc \<longrightarrow> tc_socket tc \<noteq> at_sockfd a))"

definition connector_rel :: "Connector \<Rightarrow> Connector \<Rightarrow> bool" where
  "connector_rel cn cn' \<longleftrightarrow> newConnectionCallback cn' = newConnectionCallback cn \<and>
     (c_state cn = Cs_Connected \<longrightarrow> c_state cn' = Cs_Connected)"

definition connector_frame :: "nat \<Rightarrow> 'm clnet_scheme \<Rightarrow> 'm clnet_scheme \<Rightarrow> bool" where
  "connector_frame k s t \<longleftrightarrow> net_wf t \<and> conns t = conns s \<and> conn_log t = conn_log s \<and> clients t = clients s \<and>
     waiting t = waiting s \<and> rel_option connector_rel (connectors s k) (connectors t k)"

lemma connector_frameI:
  assumes "net_wf t" "conns t = conns s" "conn_log t = conn_log s" "clients t = clients s" "waiting t = waiting s"
    and "connectors s k = Some cn" "connectors t k = Some cn'" "connector_rel cn cn'"
  shows "connector_frame k s t"
  using assms by (simp add: connector_frame_def)

lemma connector_rel_trans: "connector_rel a b \<Longrightarrow> connector_rel b c \<Longrightarrow> connector_rel a c"
  by (simp add: connector_rel_def)

lemma connector_frame_trans:
  assumes "connector_frame k s t" and "connector_frame k t u"
  shows "connector_frame k s u"
proof -
  have "rel_option connector_rel (connectors s k) (connectors u k)"
    using assms unfolding connector_frame_def
    by (cases "connectors s k"; cases "connectors t k"; cases "connectors u k") (auto intro: connector_rel_trans)
  then show ?thesis using assms by (simp add: connector_frame_def)
qed

lemma connector_frame_refl: "net_wf s \<Longrightarrow> connector_frame k s s"
  by (cases "connectors s k") (simp_all add: connector_frame_def connector_rel_def)

lemma put_connector_more [simp]: "conn_log (put_connector k cn s) = conn_log s"
  by (simp add: put_connector_def)

lemma waiting_upd [simp]:
  "waiting (put_connector k cn s) = waiting s" "waiting (put_client v cl s) = waiting s" "waiting (s\<lparr>sys := tr\<rparr>) = waiting s"
  "waiting (s\<lparr>chans := m\<rparr>) = waiting s"
  by (rule waiting_queued; simp)+

lemma put_connector_frame:
  "net_wf s \<Longrightarrow> connectors s k = Some cn \<Longrightarrow> connector_rel cn cn' \<Longrightarrow> connector_frame k s (put_connector k cn' s)"
  by (rule connector_frameI) simp_all

lemma queue_connector_frame:
  assumes "net_wf s" and "\<not> owner_call f"
  shows "connector_frame k s (queueInLoop tid (Some f) s)"
proof -
  have "waiting (queueInLoop tid (Some f) s) = waiting s" using assms(2) by (auto simp: fun_eq_iff)
  then show ?thesis using assms(1) by (cases "connectors s k") (simp_all add: connector_frame_def connector_rel_def)
qed

lemma sys_connector_frame: "net_wf s \<Longrightarrow> connector_frame k s (s\<lparr>sys := tr\<rparr>)"
  by (cases "connectors s k") (simp_all add: connector_frame_def connector_rel_def)

lemma retry_frame:
  assumes wf: "net_wf s" and cn: "connectors s k = Some cn" and st: "c_state cn \<noteq> Cs_Connected"
    and run: "Connector_retry now now' k fd s = Inr t"
  shows "connector_frame k s t"
proof -
  let ?s1 = "put_connector k (cn\<lparr>c_state := Cs_Disconnected\<rparr>) (s\<lparr>sys := sys s @ [Sys_close fd]\<rparr>)"
  have s1: "connector_frame k s ?s1" using wf cn st
    by (intro connector_frameI [OF _ _ _ _ _ cn, of _ "cn\<lparr>c_state := Cs_Disconnected\<rparr>"]) (simp_all add: connector_rel_def)
  show ?thesis
  proof (cases "c_connect cn")
    case False
    then show ?thesis using run cn s1 by (simp add: Connector_retry_def Let_def)
  next
    case True
    let ?cn2 = "cn\<lparr>c_state := Cs_Disconnected, retryDelayMs := min (retryDelayMs cn * 2) kMaxRetryDelayMs\<rparr>"
    obtain r s2 where s2: "runAfter now now' (threadId s) (of_int (retryDelayMs cn) / 1000) (Some (TC_Connector_startInLoop k)) ?s1
        = Inr (r, s2)" "t = put_connector k ?cn2 s2"
      using run cn True by (auto simp: Connector_retry_def Let_def result_simps)
    note eq = addTimer_same [OF s2(1) [unfolded runAfter_def runAt_def Let_def]]
    have "net_wf s2" using wf net_wf_cong [OF eq(1-5)] by simp
    then show ?thesis
      using s2(2) eq(5,6) homeD_client(1) [OF eq(7)] waiting_home [OF eq(7)] st
      by (intro connector_frameI [OF _ _ _ _ _ cn, of _ ?cn2]) (simp_all add: connector_rel_def)
  qed
qed

lemma connecting_frame:
  assumes wf: "net_wf s" and cn: "connectors s k = Some cn" and st: "c_state cn \<noteq> Cs_Connected"
    and fresh: "chans s d = None" "channels s fd = None" "\<And>c tc. conns s c = Some tc \<Longrightarrow> tc_socket tc \<noteq> fd"
    and run: "Connector_connecting k fd d s = Inr t"
  shows "connector_frame k s t"
proof -
  have none: "c_channel cn = None" using run cn by (auto simp: Connector_connecting_def split: if_splits)
  have lwf: "loop_wf s" using wf by (simp add: net_wf_def)
  from lwf cn none fresh(1,2) obtain u where u: "Connector_connecting k fd d s = Inr u" "loop_wf u"
    "connectors u = (connectors s)(k \<mapsto> cn\<lparr>c_state := Cs_Connecting, c_channel := Some d\<rparr>)"
    "conns u = conns s" "conn_log u = conn_log s" "cnet.more u = cnet.more s"
    "\<forall>e. e \<noteq> d \<longrightarrow> chans u e = chans s e" "\<forall>f. f \<noteq> fd \<longrightarrow> channels u f = channels s f" "pendingFunctors u = pendingFunctors s"
    by (rule connecting_ok)
  have "chans u (tc_channel tc) = chans s (tc_channel tc) \<and> channels u (tc_socket tc) = channels s (tc_socket tc)"
    if tc: "conns s c = Some tc" for c tc
  proof -
    from wf tc obtain ch where "chans s (tc_channel tc) = Some ch" by (rule net_wfD)
    then have "tc_channel tc \<noteq> d" using fresh(1) by auto
    then show ?thesis using u(7,8) fresh(3) [OF tc] by blast
  qed
  with wf u(2,4) have "net_wf u" by (rule foreign_net_wf)
  then have "connector_frame k s u"
    using u(3-5) cnet_more_clients [OF u(6)] waiting_queued [OF u(9)] st
    by (intro connector_frameI [OF _ _ _ _ _ cn, of _ "cn\<lparr>c_state := Cs_Connecting, c_channel := Some d\<rparr>"])
      (simp_all add: connector_rel_def)
  then show ?thesis using run u(1) by simp
qed

lemma connect_frame:
  assumes wf: "net_wf s" and cn: "connectors s k = Some cn" and st: "c_state cn \<noteq> Cs_Connected"
    and fresh: "fresh_attempt s a" and run: "Connector_connect k a s = Inr t"
  shows "connector_frame k s t"
proof -
  let ?s1 = "s\<lparr>sys := sys s @ [Sys_socket (sin_family (serverAddr cn)), Sys_connect (at_sockfd a) (serverAddr cn)]\<rparr>"
  have s1: "connector_frame k s ?s1" "net_wf ?s1" "connectors ?s1 k = Some cn"
    using wf cn by (simp_all add: sys_connector_frame)
  have "connector_frame k ?s1 t"
  proof (cases "connect_pending (at_error a)")
    case True
    then show ?thesis
      using run cn fresh by (intro connecting_frame [OF s1(2,3) st, of "at_chan a" "at_sockfd a"])
        (auto simp: Connector_connect_def fresh_attempt_def Let_def)
  next
    case False
    show ?thesis
    proof (cases "connect_retryable (at_error a)")
      case True
      then show ?thesis
        using False run cn by (intro retry_frame [OF s1(2,3) st]) (simp add: Connector_connect_def Let_def)
    next
      case False
      then show ?thesis
        using \<open>\<not> connect_pending (at_error a)\<close> run cn sys_connector_frame [OF s1(2)] by (auto simp: Connector_connect_def Let_def)
    qed
  qed
  with s1(1) show ?thesis by (rule connector_frame_trans)
qed

lemma startInLoop_frame:
  assumes wf: "net_wf s" and fresh: "fresh_attempt s a" and run: "Connector_startInLoop_op k a s = Inr t"
  shows "connector_frame k s t"
proof -
  obtain cn where cn: "connectors s k = Some cn" "c_state cn = Cs_Disconnected"
    using run by (auto simp: Connector_startInLoop_op_def result_simps split: if_splits)
  then show ?thesis
    using run connect_frame [OF wf cn(1) _ fresh] connector_frame_refl [OF wf]
    by (auto simp: Connector_startInLoop_op_def split: if_splits)
qed

lemma start_frame:
  assumes wf: "net_wf s" and fresh: "fresh_attempt s a" and run: "Connector_start tid k a s = Inr t"
  shows "connector_frame k s t"
proof -
  obtain cn where cn: "connectors s k = Some cn" using run by (auto simp: Connector_start_def result_simps)
  let ?s1 = "put_connector k (cn\<lparr>c_connect := True\<rparr>) s"
  have s1: "connector_frame k s ?s1" using wf cn by (rule put_connector_frame) (simp add: connector_rel_def)
  have wf1: "net_wf ?s1" "fresh_attempt ?s1 a" using wf fresh by (simp_all add: fresh_attempt_def)
  have "connector_frame k ?s1 t"
    using run cn startInLoop_frame [OF wf1] queue_connector_frame [OF wf1(1)]
    by (auto simp: Connector_start_def runInLoop_def split: if_splits)
  with s1 show ?thesis by (rule connector_frame_trans)
qed

lemma stop_frame:
  assumes wf: "net_wf s" and run: "Connector_stop tid k s = Inr t"
  shows "connector_frame k s t"
proof -
  obtain cn where cn: "connectors s k = Some cn" "t = queueInLoop tid (Some (Fn_Connector_stopInLoop k)) (put_connector k (cn\<lparr>c_connect := False\<rparr>) s)"
    using run by (auto simp: Connector_stop_def result_simps)
  have "connector_frame k s (put_connector k (cn\<lparr>c_connect := False\<rparr>) s)"
    using wf cn(1) by (rule put_connector_frame) (simp add: connector_rel_def)
  moreover have "connector_frame k (put_connector k (cn\<lparr>c_connect := False\<rparr>) s) t"
    unfolding cn(2) using wf by (intro queue_connector_frame) simp_all
  ultimately show ?thesis by (rule connector_frame_trans)
qed

text \<open>The attempt is given up: the channel leaves the poller, the descriptor is closed, perhaps another attempt is scheduled.\<close>

lemma give_up_frame:
  fixes s :: "'m clnet_scheme"
  assumes wf: "net_wf s" and cn: "connectors s k = Some cn" and st: "c_state cn \<noteq> Cs_Connected" and apart: "apart s cn"
    and run: "Connector_removeAndResetChannel k s = Inr (fd, s1)" "Connector_retry now now' k fd s1 = Inr t"
  shows "connector_frame k s t"
proof -
  note s1 = removeAndResetChannel_frame [OF wf cn apart run(1)]
  note h = homeD_client [OF s1(4)]
  have "connector_frame k s s1"
    using s1(1-3) h cn waiting_home [OF s1(4)] by (intro connector_frameI [OF _ _ _ _ _ cn, of _ cn]) (simp_all add: connector_rel_def)
  moreover have "connector_frame k s1 t" using s1(1) _ st run(2) by (rule retry_frame) (use h cn in simp)
  ultimately show ?thesis by (rule connector_frame_trans)
qed

lemma stopInLoop_frame:
  assumes wf: "net_wf s" and cn: "connectors s k = Some cn" and apart: "apart s cn"
    and run: "Connector_stopInLoop_op now now' k s = Inr t"
  shows "connector_frame k s t"
proof (cases "c_state cn = Cs_Connecting")
  case True
  let ?cn = "cn\<lparr>c_state := Cs_Disconnected\<rparr>"
  let ?s = "put_connector k ?cn s"
  obtain fd s1 where s1: "Connector_removeAndResetChannel k ?s = Inr (fd, s1)" "Connector_retry now now' k fd s1 = Inr t"
    using run cn True by (auto simp: Connector_stopInLoop_op_def result_simps)
  have "connector_frame k s ?s" using wf cn by (rule put_connector_frame) (simp add: connector_rel_def True)
  moreover have "connector_frame k ?s t"
    by (rule give_up_frame [of ?s k ?cn]) (use wf apart s1 in \<open>simp_all add: apart_def\<close>)
  ultimately show ?thesis by (rule connector_frame_trans)
next
  case False
  then show ?thesis using run cn wf by (auto simp: Connector_stopInLoop_op_def intro: connector_frame_refl)
qed

lemma handleError_frame:
  assumes wf: "net_wf s" and cn: "connectors s k = Some cn" and apart: "apart s cn"
    and run: "Connector_handleError_op now now' k s = Inr t"
  shows "connector_frame k s t"
proof (cases "c_state cn = Cs_Connecting")
  case True
  then have st: "c_state cn \<noteq> Cs_Connected" by simp
  obtain fd s1 where s1: "Connector_removeAndResetChannel k s = Inr (fd, s1)" "Connector_retry now now' k fd s1 = Inr t"
    using run cn True by (auto simp: Connector_handleError_op_def result_simps)
  with wf cn st apart show ?thesis by (rule give_up_frame)
next
  case False
  then show ?thesis using run cn wf by (auto simp: Connector_handleError_op_def intro: connector_frame_refl)
qed

lemma resetChannel_frame:
  assumes wf: "net_wf s" and cn: "connectors s k = Some cn" and apart: "apart s cn"
    and run: "Connector_resetChannel_op k s = Inr t"
  shows "connector_frame k s t"
proof (cases "c_channel cn")
  case None
  then show ?thesis using run cn wf by (auto simp: Connector_resetChannel_op_def intro: connector_frame_refl)
next
  case (Some d)
  let ?d = "s\<lparr>chans := (chans s)(d := None)\<rparr>"
  have lwf: "loop_wf s" using wf by (simp add: net_wf_def)
  obtain ch where ch: "chans s d = Some ch" "channels s (ch_fd ch) \<noteq> Some d" and t: "t = put_connector k (cn\<lparr>c_channel := None\<rparr>) ?d"
    using run cn Some by (auto simp: Connector_resetChannel_op_def Channel_dtor_def isInLoopThread_def EventLoop_hasChannel_def
        hasChannel_def result_simps split: if_splits)
  have "net_wf ?d"
    by (rule foreign_net_wf [OF wf loop_wf_drop_chan [OF lwf ch]]) (use apart Some ch(1) in \<open>auto simp: apart_def\<close>)
  then show ?thesis
    using t cn by (intro connector_frameI [OF _ _ _ _ _ cn, of _ "cn\<lparr>c_channel := None\<rparr>"]) (simp_all add: connector_rel_def)
qed

section \<open>The invariant\<close>

definition client_of :: "nat \<Rightarrow> TcpConnection \<Rightarrow> bool" where
  "client_of v tc \<longleftrightarrow> tc_closeCallback tc = Some (TcpClient_removeConnection v)"

text \<open>
  \<open>connection_\<close> is exactly the connection of the client that is not closed (or closed and not yet reported, the set \<open>X\<close>); while there
  is one, the connector is in the state connected, and so cannot make another.
\<close>

definition link_ok :: "nat \<Rightarrow> nat set \<Rightarrow> 'm net_scheme \<Rightarrow> TcpClient \<Rightarrow> Connector \<Rightarrow> bool" where
  "link_ok v X s cl cn \<longleftrightarrow> newConnectionCallback cn = Some v \<and>
     (\<forall>c. cl_connection cl = Some c \<longleftrightarrow>
        (\<exists>tc. conns s c = Some tc \<and> client_of v tc \<and> (tc_state tc \<noteq> kDisconnected \<or> c \<in> X))) \<and>
     (cl_connection cl \<noteq> None \<longrightarrow> c_state cn = Cs_Connected)"

definition client_ok :: "nat \<Rightarrow> nat set \<Rightarrow> 'm clnet_scheme \<Rightarrow> bool" where
  "client_ok v X s \<longleftrightarrow> net_life s \<and> queued_ok (TcpClient_removeConnection v) X s \<and> (\<forall>w. w \<noteq> v \<longrightarrow> clients s w = None) \<and>
     (\<exists>cl cn. clients s v = Some cl \<and> connectors s (cl_connector cl) = Some cn \<and> link_ok v X s cl cn)"

lemma client_okD:
  assumes "client_ok v X s"
  obtains cl cn where "clients s v = Some cl" "connectors s (cl_connector cl) = Some cn" "link_ok v X s cl cn" "net_life s"
    "\<And>w. w \<noteq> v \<Longrightarrow> clients s w = None" "queued_ok (TcpClient_removeConnection v) X s"
  using assms by (auto simp: client_ok_def)

lemma client_okI:
  assumes "clients s v = Some cl" "connectors s (cl_connector cl) = Some cn" "link_ok v X s cl cn" "net_life s"
    "\<And>w. w \<noteq> v \<Longrightarrow> clients s w = None" "queued_ok (TcpClient_removeConnection v) X s"
  shows "client_ok v X s"
  using assms by (auto simp: client_ok_def)

lemma link_ok_cong:
  assumes "\<And>c. (\<exists>tc. conns t c = Some tc \<and> client_of v tc \<and> (tc_state tc \<noteq> kDisconnected \<or> c \<in> Y)) \<longleftrightarrow>
      (\<exists>tc. conns s c = Some tc \<and> client_of v tc \<and> (tc_state tc \<noteq> kDisconnected \<or> c \<in> X))"
    and "link_ok v X s cl cn"
  shows "link_ok v Y t cl cn"
  using assms by (simp add: link_ok_def)

lemma client_ok_frame:
  fixes s t :: "'m clnet_scheme"
  assumes ok: "client_ok v X s" and fr: "api_frame s t"
  shows "client_ok v X t"
  using ok
proof (rule client_okD)
  fix cl cn
  assume s: "clients s v = Some cl" "connectors s (cl_connector cl) = Some cn" "link_ok v X s cl cn" "net_life s"
    "\<And>w. w \<noteq> v \<Longrightarrow> clients s w = None" "queued_ok (TcpClient_removeConnection v) X s"
  note h = homeD_client [OF api_frameD(3) [OF fr]]
  have rel: "rel_option conn_frame (conns s c) (conns t c)" for c using fr by (simp add: api_frame_def)
  have "(\<exists>tc. conns t c = Some tc \<and> client_of v tc \<and> (tc_state tc \<noteq> kDisconnected \<or> c \<in> X)) \<longleftrightarrow>
      (\<exists>tc. conns s c = Some tc \<and> client_of v tc \<and> (tc_state tc \<noteq> kDisconnected \<or> c \<in> X))" for c
    using rel [of c] by (cases "conns s c"; cases "conns t c") (auto simp: conn_frame_def client_of_def)
  then have "link_ok v X t cl cn" using s(3) by (rule link_ok_cong)
  with s h frame_life [OF s(4) fr] queued_frame [OF s(6) fr] show "client_ok v X t" by (intro client_okI) simp_all
qed

lemma client_ok_transition:
  fixes s u :: "'m clnet_scheme"
  assumes ok: "client_ok v {} s" and tc: "conns s c = Some tc" and wf: "net_wf u"
    and u: "conns u = (conns s)(c \<mapsto> setState st tc)" "conn_log u = conn_log s @ [(c, st = kConnected)]" "home u = home s"
    and st: "seen st = seen (tc_state tc) @ [st = kConnected]" and opn: "tc_state tc \<noteq> kDisconnected"
    and X: "X = (if st = kDisconnected then {c} else {})"
  shows "client_ok v X u"
  using ok
proof (rule client_okD)
  fix cl cn
  assume s: "clients s v = Some cl" "connectors s (cl_connector cl) = Some cn" "link_ok v {} s cl cn" "net_life s"
    "\<And>w. w \<noteq> v \<Longrightarrow> clients s w = None" "queued_ok (TcpClient_removeConnection v) {} s"
  note h = homeD_client [OF u(3)]
  have "(\<exists>tc. conns u d = Some tc \<and> client_of v tc \<and> (tc_state tc \<noteq> kDisconnected \<or> d \<in> X)) \<longleftrightarrow>
      (\<exists>tc. conns s d = Some tc \<and> client_of v tc \<and> (tc_state tc \<noteq> kDisconnected \<or> d \<in> {}))" for d
    using u(1) tc opn X by (auto simp: setState_def client_of_def)
  then have "link_ok v X u cl cn" using s(3) by (rule link_ok_cong)
  moreover have "net_life u" using s(4) tc wf u(1,2) st by (rule transition_life)
  moreover have "queued_ok (TcpClient_removeConnection v) X u" using s(6) tc opn u(1,3) by (rule queued_transition) (simp add: X)
  ultimately show "client_ok v X u" using s h by (intro client_okI) simp_all
qed

lemma client_ok_connector:
  fixes s t :: "'m clnet_scheme"
  assumes ok: "client_ok v X s" and cl: "clients s v = Some cl" and fr: "connector_frame (cl_connector cl) s t"
  shows "client_ok v X t"
  using ok
proof (rule client_okD)
  fix cl' cn
  assume s: "clients s v = Some cl'" "connectors s (cl_connector cl') = Some cn" "link_ok v X s cl' cn" "net_life s"
    "\<And>w. w \<noteq> v \<Longrightarrow> clients s w = None" "queued_ok (TcpClient_removeConnection v) X s"
  have t: "net_wf t" "conns t = conns s" "conn_log t = conn_log s" "clients t = clients s" "waiting t = waiting s" using fr by (simp_all add: connector_frame_def)
  obtain cn' where cn': "connectors t (cl_connector cl) = Some cn'" "connector_rel cn cn'"
    using fr s(1,2) cl by (auto simp: connector_frame_def option_rel_Some1)
  have "net_life t" using s(4) t by (simp add: net_life_def callbacks_def)
  moreover have "link_ok v X t cl cn'" using s(1,3) cl cn'(2) t(2) by (auto simp: link_ok_def connector_rel_def)
  moreover have "queued_ok (TcpClient_removeConnection v) X t" using s(6) t(2,5) by (rule queued_sameI)
  ultimately show "client_ok v X t" using s(1,5) cl t(4) cn'(1) by (intro client_okI) simp_all
qed

text \<open>The end of the connection, and the restart of the connector.\<close>

lemma client_upd_life [simp]:
  "net_life (put_client v cl s) = net_life s" "net_life (put_connector k cn s) = net_life s"
  by (simp_all add: net_life_def callbacks_def) (simp_all add: put_client_def)

lemma net_life_queue [simp]: "net_life (queueInLoop tid cb s) = net_life s"
  by (simp add: net_life_def callbacks_def)

lemma release_ok:
  fixes s :: "'m clnet_scheme"
  assumes ok: "client_ok v {c} s" and tc: "conns s c = Some tc" and dead: "tc_state tc = kDisconnected" and m: "client_of v tc"
  obtains cl where "clients s v = Some cl" "cl_connection cl = Some c" "client_ok v {} (after_removal v cl c s)"
  using ok
proof (rule client_okD)
  fix cl cn
  assume s: "clients s v = Some cl" "connectors s (cl_connector cl) = Some cn" "link_ok v {c} s cl cn" "net_life s"
    "\<And>w. w \<noteq> v \<Longrightarrow> clients s w = None" "queued_ok (TcpClient_removeConnection v) {c} s"
  have c: "cl_connection cl = Some c" using s(3) tc m by (auto simp: link_ok_def)
  let ?cl = "cl\<lparr>cl_connection := None\<rparr>" and ?t = "after_removal v cl c s"
  have "\<not> (client_of v td \<and> tc_state td \<noteq> kDisconnected)" if td: "conns s d = Some td" for d td
  proof
    assume "client_of v td \<and> tc_state td \<noteq> kDisconnected"
    then have "cl_connection cl = Some d" using s(3) td by (auto simp: link_ok_def)
    then have "d = c" using c by simp
    then show False using \<open>client_of v td \<and> tc_state td \<noteq> kDisconnected\<close> td tc dead by simp
  qed
  then have "link_ok v {} ?t ?cl cn" using s(3) by (auto simp: link_ok_def after_removal_def)
  moreover have "queued_ok (TcpClient_removeConnection v) {} ?t"
    unfolding after_removal_def by (rule queued_told [of _ c _ tc]) (use s(6) tc dead in \<open>simp_all add: queued_ok_def\<close>)
  ultimately have "client_ok v {} ?t"
    using s by (intro client_okI [of _ _ ?cl cn]) (simp_all add: after_removal_def)
  with s(1) c show thesis by (rule that)
qed

lemma restart_ok:
  fixes s :: "'m clnet_scheme"
  assumes ok: "client_ok v {} s" and cl: "clients s v = Some cl" "cl_connection cl = None" and fresh: "fresh_attempt s a"
    and run: "Connector_restart (cl_connector cl) a s = Inr t"
  shows "client_ok v {} t"
  using ok
proof (rule client_okD)
  fix cl' cn
  assume s: "clients s v = Some cl'" "connectors s (cl_connector cl') = Some cn" "link_ok v {} s cl' cn" "net_life s"
    "\<And>w. w \<noteq> v \<Longrightarrow> clients s w = None" "queued_ok (TcpClient_removeConnection v) {} s"
  let ?cn = "cn\<lparr>c_state := Cs_Disconnected, retryDelayMs := kInitRetryDelayMs, c_connect := True\<rparr>"
  let ?s = "put_connector (cl_connector cl) ?cn s"
  have eq: "cl' = cl" using s(1) cl(1) by simp
  have "link_ok v {} ?s cl ?cn" using s(3) cl(2) eq by (simp add: link_ok_def)
  moreover have "queued_ok (TcpClient_removeConnection v) {} ?s" by (rule queued_sameI [OF s(6)]) simp_all
  ultimately have ok': "client_ok v {} ?s" using s cl by (intro client_okI [of _ _ cl ?cn]) simp_all
  have fr: "connector_frame (cl_connector cl) ?s t"
    using run s(2,4) eq fresh by (intro startInLoop_frame [of ?s a]) (simp_all add: Connector_restart_def fresh_attempt_def net_lifeD(1))
  show "client_ok v {} t" by (rule client_ok_connector [OF ok' _ fr]) (simp add: cl)
qed

lemma not_linked_ok:
  fixes s :: "'m clnet_scheme"
  assumes ok: "client_ok v {c} s" and tc: "conns s c = Some tc"
    and out: "\<And>cl. clients s v = Some cl \<Longrightarrow> client_of v tc \<Longrightarrow> cl_connection cl \<noteq> Some c"
  shows "client_ok v {} s"
  using ok
proof (rule client_okD)
  fix cl cn
  assume s: "clients s v = Some cl" "connectors s (cl_connector cl) = Some cn" "link_ok v {c} s cl cn" "net_life s"
    "\<And>w. w \<noteq> v \<Longrightarrow> clients s w = None" "queued_ok (TcpClient_removeConnection v) {c} s"
  have "\<not> client_of v tc" using out [OF s(1)] s(3) tc by (auto simp: link_ok_def)
  then have "link_ok v {} s cl cn" using s(3) tc by (auto simp: link_ok_def)
  with s queued_weaken [OF s(6)] show "client_ok v {} s" by (intro client_okI) simp_all
qed

text \<open>A connection of somebody else, whose end is queued.\<close>

lemma not_linked_queue:
  fixes s :: "'m clnet_scheme"
  assumes ok: "client_ok v {c} s" and tc: "conns s c = Some tc" "tc_state tc = kDisconnected" and out: "\<not> client_of v tc"
  shows "client_ok v {} (queueInLoop tid (Some (Fn_connectDestroyed c)) s)"
  using not_linked_ok [OF ok tc(1)]
proof (rule client_okD)
  fix cl cn
  assume s: "clients s v = Some cl" "connectors s (cl_connector cl) = Some cn" "link_ok v {} s cl cn" "net_life s"
    "\<And>w. w \<noteq> v \<Longrightarrow> clients s w = None"
  have "queued_ok (TcpClient_removeConnection v) {c} s" using ok by (simp add: client_ok_def)
  with s tc show ?thesis by (intro client_okI) (simp_all add: queued_told link_ok_def)
qed (use out in simp)

definition released :: "nat \<Rightarrow> 'm clnet_scheme \<Rightarrow> nat \<Rightarrow> bool" where
  "released v s c \<longleftrightarrow> (\<forall>tc cl. conns s c = Some tc \<longrightarrow> clients s v = Some cl \<longrightarrow> client_of v tc \<longrightarrow> cl_connection cl \<noteq> Some c)"

definition fresh_attempts :: "('m clnet_scheme \<Rightarrow> attempt) \<Rightarrow> bool" where
  "fresh_attempts kern \<longleftrightarrow> (\<forall>s. fresh_attempt s (kern s))"

lemma client_close_ok:
  fixes s t :: "'m clnet_scheme"
  assumes kern: "fresh_attempts kern" and ok: "client_ok v {c} s" and tc: "conns s c = Some tc" "tc_state tc = kDisconnected"
    and cb: "tc_closeCallback tc = Some cb" and run: "client_on_close kern cb c s = Inr t"
  shows "client_ok v {} t"
proof (cases cb)
  case (TcpClient_removeConnection w)
  have "w = v"
    using run ok by (rule_tac ccontr) (auto simp: TcpClient_removeConnection TcpClient_removeConnection_op_def client_ok_def result_simps)
  then have m: "client_of v tc" using cb TcpClient_removeConnection by (simp add: client_of_def)
  from ok tc m show ?thesis
  proof (rule release_ok)
    fix cl
    assume cl: "clients s v = Some cl" "cl_connection cl = Some c" "client_ok v {} (after_removal v cl c s)"
    have eq: "client_on_close kern cb c s = (if cl_retry cl \<and> cl_connect cl
        then Connector_restart (cl_connector cl) (kern s) (after_removal v cl c s) else Inr (after_removal v cl c s))"
      unfolding TcpClient_removeConnection \<open>w = v\<close> by (rule client_on_close_eq [OF cl(1,2)])
    have "fresh_attempt (after_removal v cl c s) (kern s)"
      using kern by (simp add: fresh_attempts_def fresh_attempt_def after_removal_def queueInLoop_def queue_wake_def queue_push_def
          wakeup_def)
    then show ?thesis
      using cl(3) run eq restart_ok [OF cl(3), of "cl\<lparr>cl_connection := None\<rparr>" "kern s" t]
      by (auto simp: after_removal_def split: if_splits)
  qed
next
  case (TcpServer_removeConnection w)
  have "client_ok v {} s" using ok tc(1) by (rule not_linked_ok) (use cb TcpServer_removeConnection in \<open>simp add: client_of_def\<close>)
  then show ?thesis using run TcpServer_removeConnection by simp
next
  case (detail_removeConnection l)
  have "client_ok v {} (detail_removeConnection_op c s)"
    unfolding detail_removeConnection_op_def using ok tc by (rule not_linked_queue) (use cb detail_removeConnection in \<open>simp add: client_of_def\<close>)
  then show ?thesis using run detail_removeConnection by simp
qed

lemma client_conns:
  assumes "fresh_attempts kern"
  shows "conn_invariant (client_ok v) (client_on_close kern) (released v) (\<lambda>c. True)"
proof
  show "net_wf s" if "client_ok v X s" for X and s :: "'a clnet_scheme"
    using that net_lifeD(1) by (auto simp: client_ok_def)
  show "client_ok v X t" if "client_ok v X s" "api_frame s t" for X and s t :: "'a clnet_scheme"
    using that by (rule client_ok_frame)
  show "client_ok v {} u" if "client_ok v {} s" "conns s c = Some tc" "tc_state tc = kConnecting" "net_wf u"
    "conns u = (conns s)(c \<mapsto> setState kConnected tc)" "conn_log u = conn_log s @ [(c, True)]" "home u = home s"
    for s u :: "'a clnet_scheme" and c tc
    using that by (intro client_ok_transition [OF that(1,2,4,5) _ that(7)]) (simp_all add: seen_def)
  show "client_ok v {c} u" if "client_ok v {} s" "conns s c = Some tc"
    "tc_state tc = kConnected \<or> tc_state tc = kDisconnecting" "net_wf u"
    "conns u = (conns s)(c \<mapsto> setState kDisconnected tc)" "conn_log u = conn_log s @ [(c, False)]" "home u = home s"
    for s u :: "'a clnet_scheme" and c tc
    using that by (intro client_ok_transition [OF that(1,2,4,5) _ that(7)]) (auto simp: seen_def)
  show "client_ok v {} t" if "client_ok v {c} s" "conns s c = Some tc" "tc_state tc = kDisconnected"
    "tc_closeCallback tc = Some cb" "client_on_close kern cb c s = Inr t" for s t :: "'a clnet_scheme" and c tc cb
    using assms that by (rule client_close_ok)
  show "client_ok v {} s" if "client_ok v {c} s" "conns s c = Some tc" "released v s c" for s :: "'a clnet_scheme" and c tc
    using that(1,2) by (rule not_linked_ok) (use that(2,3) in \<open>simp add: released_def\<close>)
  show "released v u c" if "released v s c" "conns s c = Some tc" "conns u c = Some (setState kDisconnected tc)" "home u = home s"
    for s u :: "'a clnet_scheme" and c tc
    using that homeD_client [OF that(4)] by (simp add: released_def setState_def client_of_def)
qed

section \<open>Runs of a client\<close>

lemma newConnection_ok:
  fixes s :: "'m clnet_scheme" and kern :: "'m clnet_scheme \<Rightarrow> attempt"
  assumes os: "os_documented os" and kern: "fresh_attempts kern" and ok: "client_ok v {} s" and cl: "clients s v = Some cl"
    "cl_connection cl = None" and cn: "connectors s (cl_connector cl) = Some cn" "c_state cn = Cs_Connected"
    and fresh: "fresh_conn c d sockfd s"
    and run: "TcpClient_newConnection ntop6 os app c d peername sockname v sockfd s = Inr t"
  shows "client_ok v {} t"
  using ok
proof (rule client_okD)
  fix cl' cn'
  assume "clients s v = Some cl'" "connectors s (cl_connector cl') = Some cn'" "link_ok v {} s cl' cn'"
    and life: "net_life s" and other: "\<And>w. w \<noteq> v \<Longrightarrow> clients s w = None" and q: "queued_ok (TcpClient_removeConnection v) {} s"
  then have lk: "link_ok v {} s cl cn" using cl cn by simp
  obtain peer where peer: "InetAddress_toIpPort ntop6 (getPeerAddr peername) = Inr peer" and id: "cl_nextConnId cl \<noteq> 2 ^ 31 - 1"
    using run cl by (auto simp: TcpClient_newConnection_def result_simps Let_def split: if_splits)
  from net_lifeD(1) [OF life] cl(1) id peer fresh show ?thesis
  proof (rule newConnection_eq [where os = os and app = app and sockname = sockname])
    fix u tc
    assume eq: "TcpClient_newConnection ntop6 os app c d peername sockname v sockfd s = connectEstablished os app c u"
      and u: "net_wf u" "conns u = (conns s)(c \<mapsto> tc)" "conn_log u = conn_log s"
        "clients u = (clients s)(v \<mapsto> cl\<lparr>cl_nextConnId := cl_nextConnId cl + 1, cl_connection := Some c\<rparr>)"
        "connectors u = connectors s" "pendingFunctors u = pendingFunctors s"
      and tc: "tc_state tc = kConnecting" "tc_closeCallback tc = Some (TcpClient_removeConnection v)"
    let ?cl = "cl\<lparr>cl_nextConnId := cl_nextConnId cl + 1, cl_connection := Some c\<rparr>"
    have none: "conns s c = None" "callbacks s c = []" using fresh by (simp_all add: fresh_conn_def)
    have "link_ok v {} u ?cl cn" using lk cl(2) cn(2) tc u(2) none(1) by (auto simp: link_ok_def client_of_def)
    moreover have "net_life u" using life u(1-3) none(2) tc(1) by (rule new_conn_life)
    moreover have "queued_ok (TcpClient_removeConnection v) {} u" using q none(1) u(2) waiting_queued [OF u(6)] by (rule queued_new)
    ultimately have ok': "client_ok v {} u" using u(4,5) cn other by (intro client_okI [of _ _ ?cl cn]) simp_all
    have "connectEstablished os app c u = Inr t" using run eq by simp
    then show "client_ok v {} t" by (rule conn_invariant.connectEstablished_inv [OF client_conns [OF kern] ok' os TrueI])
  qed
qed

text \<open>When the connector's descriptor becomes writable.\<close>

lemma writable_ok:
  fixes s :: "'m clnet_scheme" and kern :: "'m clnet_scheme \<Rightarrow> attempt"
  assumes os: "os_documented os" and kern: "fresh_attempts kern" and ok: "client_ok v {} s" and cl: "clients s v = Some cl"
    and cn: "connectors s (cl_connector cl) = Some cn" and apart: "apart s cn"
    and fresh: "conns s c = None" "callbacks s c = []" "chans s d = None"
    and run: "Connector_handleWrite_op (TcpClient_newConnection ntop6 os app c d peername sockname) so_error sockname peername
      now now' (cl_connector cl) s = Inr t"
  shows "client_ok v {} t"
proof (cases "c_state cn = Cs_Connecting")
  case False
  then show ?thesis using run cn ok by (auto simp: Connector_handleWrite_op_def split: if_splits)
next
  case True
  let ?k = "cl_connector cl" and ?cn = "cn\<lparr>c_state := Cs_Connected\<rparr>"
  have lk: "link_ok v {} s cl cn" and life: "net_life s" using ok cl cn by (auto simp: client_ok_def)
  note wf = net_lifeD(1) [OF life]
  obtain fd s1 where s1: "Connector_removeAndResetChannel ?k s = Inr (fd, s1)"
    using run cn True by (auto simp: Connector_handleWrite_op_def result_simps)
  note fr = removeAndResetChannel_frame [OF wf cn apart s1]
  note h = homeD_client [OF fr(4)]
  let ?s2 = "put_connector ?k ?cn s1"
  have none: "cl_connection cl = None" using lk True by (auto simp: link_ok_def)
  have run': "(if getSocketError so_error \<noteq> 0 \<or> isSelfConnect sockname peername then Connector_retry now now' ?k fd s1
      else if c_connect cn then TcpClient_newConnection ntop6 os app c d peername sockname v fd ?s2
      else Inr (?s2\<lparr>sys := sys ?s2 @ [Sys_close fd]\<rparr>)) = Inr t"
    using run cn True s1 lk by (auto simp: Connector_handleWrite_op_def link_ok_def Let_def split: if_splits)
  have life2: "net_life ?s2" using life fr(1-3) by (simp add: net_life_def callbacks_def)
  have "link_ok v {} ?s2 cl ?cn" using lk none fr(2) by (simp add: link_ok_def)
  moreover have "queued_ok (TcpClient_removeConnection v) {} ?s2"
    by (rule queued_sameI [of _ _ s]) (use ok fr(2) waiting_home [OF fr(4)] in \<open>simp_all add: client_ok_def\<close>)
  ultimately have ok2: "client_ok v {} ?s2"
    using life2 cl h(1) ok by (intro client_okI [of _ _ cl ?cn]) (simp_all add: client_ok_def)
  consider "Connector_retry now now' ?k fd s1 = Inr t"
    | "TcpClient_newConnection ntop6 os app c d peername sockname v fd ?s2 = Inr t"
    | "t = ?s2\<lparr>sys := sys ?s2 @ [Sys_close fd]\<rparr>"
    using run' by (auto split: if_splits)
  then show ?thesis
  proof cases
    case 1
    have "connector_frame ?k s t" using wf cn _ apart s1 1 by (rule give_up_frame) (simp add: True)
    with ok cl show ?thesis by (rule client_ok_connector)
  next
    case 2
    have "fresh_conn c d fd ?s2"
      using fr(2,3,5) fr(6) fr(7) [OF fresh(3)] fresh(1,2) by (auto simp: fresh_conn_def callbacks_def)
    with 2 show ?thesis using none cl h(1) by (intro newConnection_ok [OF os kern ok2, of cl ?cn c d fd]) simp_all
  next
    case 3
    have "api_frame ?s2 t" unfolding 3 using net_lifeD(1) [OF life2] by (intro api_frame_same) simp_all
    with ok2 show ?thesis by (rule client_ok_frame)
  qed
qed

lemma put_client_ok:
  fixes s :: "'m clnet_scheme"
  assumes ok: "client_ok v X s" and cl: "clients s v = Some cl" and same: "cl_connector cl' = cl_connector cl" "cl_connection cl' = cl_connection cl"
  shows "client_ok v X (put_client v cl' s)"
  using ok
proof (rule client_okD)
  fix cl0 cn
  assume s: "clients s v = Some cl0" "connectors s (cl_connector cl0) = Some cn" "link_ok v X s cl0 cn" "net_life s"
    "\<And>w. w \<noteq> v \<Longrightarrow> clients s w = None" "queued_ok (TcpClient_removeConnection v) X s"
  then have "link_ok v X (put_client v cl' s) cl' cn" using cl same by (simp add: link_ok_def)
  moreover have "queued_ok (TcpClient_removeConnection v) X (put_client v cl' s)" by (rule queued_sameI [OF s(6)]) simp_all
  ultimately show ?thesis using s cl same by (intro client_okI [of _ _ cl' cn]) simp_all
qed

lemma destroy_ok:
  fixes s :: "'m clnet_scheme"
  assumes ok: "client_ok v {} s" and out: "released v s c" and last: "\<not> waiting s c" and run: "TcpConnection_dtor (threadId s) c s = Inr t"
  shows "client_ok v {} t"
  using ok
proof (rule client_okD)
  fix cl cn
  assume s: "clients s v = Some cl" "connectors s (cl_connector cl) = Some cn" "link_ok v {} s cl cn" "net_life s"
    "\<And>w. w \<noteq> v \<Longrightarrow> clients s w = None" "queued_ok (TcpClient_removeConnection v) {} s"
  note t = dtor_life [OF s(4) run]
  note h = homeD_client [OF t(3)]
  have "cl_connection cl \<noteq> Some c" using s(1,3) out by (auto simp: link_ok_def released_def)
  then have "link_ok v {} t cl cn" using s(3) by (auto simp: link_ok_def t(2))
  moreover have "queued_ok (TcpClient_removeConnection v) {} t" using s(6) last t(2,3) by (rule queued_dtor)
  ultimately show ?thesis using s t(1) h by (intro client_okI) simp_all
qed

text \<open>The head of the queue is taken; if it is \<open>connectDestroyed\<close>, the client has released its connection.\<close>

lemma client_ok_pop:
  fixes s :: "'m clnet_scheme"
  assumes ok: "client_ok v {} s" and q: "pendingFunctors s = Some f # fs"
  shows "client_ok v {} (s\<lparr>pendingFunctors := fs\<rparr>)" and "f = Fn_connectDestroyed c \<Longrightarrow> released v (s\<lparr>pendingFunctors := fs\<rparr>) c"
proof -
  let ?t = "s\<lparr>pendingFunctors := fs\<rparr>"
  obtain cl cn where s: "clients s v = Some cl" "connectors s (cl_connector cl) = Some cn" "link_ok v {} s cl cn" "net_life s"
    "\<And>w. w \<noteq> v \<Longrightarrow> clients s w = None" "queued_ok (TcpClient_removeConnection v) {} s"
    using ok by (auto simp: client_ok_def)
  note pop = queued_pop [OF s(6) q]
  show "client_ok v {} ?t" by (rule client_okI [of _ _ cl cn]) (use s pop(1) in \<open>simp_all add: link_ok_def\<close>)
  show "released v ?t c" if "f = Fn_connectDestroyed c"
    using that pop(2) [of c] s(1,3) by (auto simp: released_def link_ok_def client_of_def)
qed

text \<open>
  The operations of the client, its setters and its destructor included, of its connector and of its connections, in any order. \<open>connectDestroyed\<close> is run only from the
  loop's queue, and a connection is destroyed when neither the client nor a queued functor has a pointer to it any more. What the kernel answers is fresh; new objects are at
  unused addresses; the connector's channel is its own. A functor of the connector or of the destructor may be run at any time after the call that queues it, and more often
  than it is queued: \<open>cl_start\<close>, \<open>cl_stopInLoop\<close>, \<open>cl_reset\<close>, \<open>cl_setCloseCallback\<close>.
\<close>

inductive client_step :: "os \<Rightarrow> (app_call \<Rightarrow> 'm clnet_scheme \<Rightarrow> api_call list) \<Rightarrow> ('m clnet_scheme \<Rightarrow> attempt) \<Rightarrow> nat \<Rightarrow>
    'm clnet_scheme \<Rightarrow> 'm clnet_scheme \<Rightarrow> bool"
  for os :: os and app :: "app_call \<Rightarrow> 'm clnet_scheme \<Rightarrow> api_call list" and kern :: "'m clnet_scheme \<Rightarrow> attempt" and v :: nat where
  cl_event: "event_ok ev \<Longrightarrow> (\<forall>c. ev \<noteq> Ev_functor (Fn_connectDestroyed c)) \<Longrightarrow>
    conn_event os app (client_on_close kern) ev s = Inr t \<Longrightarrow> client_step os app kern v s t"
| cl_functor: "pendingFunctors s = Some f # fs \<Longrightarrow> functor_ok f \<Longrightarrow>
    conn_functor os app (client_on_close kern) f (s\<lparr>pendingFunctors := fs\<rparr>) = Inr t \<Longrightarrow> client_step os app kern v s t"
| cl_connect: "fresh_attempt s a \<Longrightarrow> TcpClient_connect tid v a s = Inr t \<Longrightarrow> client_step os app kern v s t"
| cl_disconnect: "TcpClient_disconnect tid v s = Inr t \<Longrightarrow> client_step os app kern v s t"
| cl_stop: "TcpClient_stop tid v s = Inr t \<Longrightarrow> client_step os app kern v s t"
| cl_start: "clients s v = Some cl \<Longrightarrow> fresh_attempt s a \<Longrightarrow> Connector_startInLoop_op (cl_connector cl) a s = Inr t \<Longrightarrow>
    client_step os app kern v s t"
| cl_stopInLoop: "clients s v = Some cl \<Longrightarrow> connectors s (cl_connector cl) = Some cn \<Longrightarrow> apart s cn \<Longrightarrow>
    Connector_stopInLoop_op now now' (cl_connector cl) s = Inr t \<Longrightarrow> client_step os app kern v s t"
| cl_error: "clients s v = Some cl \<Longrightarrow> connectors s (cl_connector cl) = Some cn \<Longrightarrow> apart s cn \<Longrightarrow>
    Connector_handleError_op now now' (cl_connector cl) s = Inr t \<Longrightarrow> client_step os app kern v s t"
| cl_reset: "clients s v = Some cl \<Longrightarrow> connectors s (cl_connector cl) = Some cn \<Longrightarrow> apart s cn \<Longrightarrow>
    Connector_resetChannel_op (cl_connector cl) s = Inr t \<Longrightarrow> client_step os app kern v s t"
| cl_writable: "clients s v = Some cl \<Longrightarrow> connectors s (cl_connector cl) = Some cn \<Longrightarrow> apart s cn \<Longrightarrow>
    conns s c = None \<Longrightarrow> callbacks s c = [] \<Longrightarrow> chans s d = None \<Longrightarrow>
    Connector_handleWrite_op (TcpClient_newConnection ntop6 os app c d peername sockname) so_error sockname peername
      now now' (cl_connector cl) s = Inr t \<Longrightarrow> client_step os app kern v s t"
| cl_destroy: "released v s c \<Longrightarrow> \<not> waiting s c \<Longrightarrow> TcpConnection_dtor (threadId s) c s = Inr t \<Longrightarrow> client_step os app kern v s t"
| cl_enableRetry: "clients s v = Some cl \<Longrightarrow> client_step os app kern v s (put_client v (TcpClient_enableRetry cl) s)"
| cl_connectionCallback: "clients s v = Some cl \<Longrightarrow> client_step os app kern v s (put_client v (TcpClient_setConnectionCallback ccb cl) s)"
| cl_messageCallback: "clients s v = Some cl \<Longrightarrow> client_step os app kern v s (put_client v (TcpClient_setMessageCallback mcb cl) s)"
| cl_writeCompleteCallback: "clients s v = Some cl \<Longrightarrow>
    client_step os app kern v s (put_client v (TcpClient_setWriteCompleteCallback wcb cl) s)"
| cl_dtor: "TcpClient_dtor now now' tid unique v s = Inr t \<Longrightarrow> client_step os app kern v s t"
| cl_setCloseCallback: "clients s v = None \<Longrightarrow> set_detail_callback c s = Inr t \<Longrightarrow> client_step os app kern v s t"

text \<open>What \<open>TcpClient_ctor\<close> makes of a loop without connections and clients.\<close>

definition client_start :: "nat \<Rightarrow> 'm clnet_scheme \<Rightarrow> bool" where
  "client_start v s \<longleftrightarrow> (\<exists>k addr nameArg s0. net_wf s0 \<and> (\<forall>c. conns s0 c = None \<and> \<not> waiting s0 c) \<and> (\<forall>w. clients s0 w = None) \<and>
     s = TcpClient_ctor v k addr nameArg s0)"

lemma client_start_ok:
  fixes s :: "'m clnet_scheme"
  assumes "client_start v s"
  shows "client_ok v {} s"
proof -
  obtain k addr nameArg s0 where s0: "net_wf s0" "\<And>c. conns s0 c = None" "\<And>w. clients s0 w = None"
    "s = TcpClient_ctor v k addr nameArg s0" "\<And>c. \<not> waiting s0 c"
    using assms by (auto simp: client_start_def)
  let ?cn = "(Connector_ctor addr)\<lparr>newConnectionCallback := Some v\<rparr>"
  let ?cl = "\<lparr>cl_connector = k, cl_name = nameArg, cl_connectionCallback = Some defaultConnectionCallback,
    cl_messageCallback = Some defaultMessageCallback, cl_writeCompleteCallback = None, cl_retry = False,
    cl_connect = True, cl_nextConnId = 1, cl_connection = None\<rparr>"
  have "net_life s0" using s0(1,2) by (simp add: net_life_def)
  then show ?thesis
    using s0(2,3,5) unfolding s0(4) TcpClient_ctor_def by (intro client_okI [of _ v ?cl ?cn]) (simp_all add: link_ok_def queued_ok_def)
qed

text \<open>The client is destroyed: what is left are its connections, if user code has pointers to them, and its connector.\<close>

definition client_gone :: "nat set \<Rightarrow> 'm clnet_scheme \<Rightarrow> bool" where
  "client_gone X s \<longleftrightarrow> net_life s \<and> clients s = Map.empty"

lemma gone_conns: "conn_invariant client_gone (client_on_close kern) (\<lambda>s c. True) (\<lambda>c. True)"
proof
  show "client_gone X t" if "client_gone X s" "api_frame s t" for X and s t :: "'a clnet_scheme"
    using that frame_life [OF _ that(2)] homeD_client(1) [OF api_frameD(3) [OF that(2)]] by (simp add: client_gone_def)
  show "client_gone {} u" if "client_gone {} s" "conns s c = Some tc" "tc_state tc = kConnecting" "net_wf u"
    "conns u = (conns s)(c \<mapsto> setState kConnected tc)" "conn_log u = conn_log s @ [(c, True)]" "home u = home s"
    for s u :: "'a clnet_scheme" and c tc
    using that homeD_client(1) [OF that(7)] transition_life [of s c tc u kConnected] by (simp add: client_gone_def seen_def)
  show "client_gone {c} u" if "client_gone {} s" "conns s c = Some tc"
    "tc_state tc = kConnected \<or> tc_state tc = kDisconnecting" "net_wf u"
    "conns u = (conns s)(c \<mapsto> setState kDisconnected tc)" "conn_log u = conn_log s @ [(c, False)]" "home u = home s"
    for s u :: "'a clnet_scheme" and c tc
    using that homeD_client(1) [OF that(7)] transition_life [of s c tc u kDisconnected] by (auto simp: client_gone_def seen_def)
  show "client_gone {} t" if "client_gone {c} s" "client_on_close kern cb c s = Inr t" for s t :: "'a clnet_scheme" and c cb
    using that by (cases cb) (auto simp: client_gone_def TcpClient_removeConnection_op_def detail_removeConnection_op_def result_simps)
qed (simp_all add: client_gone_def net_lifeD(1))

lemma set_detail_life:
  fixes s t :: "'m clnet_scheme"
  assumes "net_life s" and "set_detail_callback c s = Inr t"
  shows "net_life t" and "clients t = clients s"
proof -
  obtain tc where tc: "conns s c = Some tc"
    "t = put_conn c (TcpConnection_setCloseCallback (Some (detail_removeConnection (loop_id s))) tc) s"
    using assms(2) by (auto simp: set_detail_callback_def result_simps)
  let ?tc = "TcpConnection_setCloseCallback (Some (detail_removeConnection (loop_id s))) tc"
  obtain ch where "chans s (tc_channel tc) = Some ch" "write_inv tc ch" "buf_wf (inputBuffer tc)" "buf_wf (outputBuffer tc)"
    using net_lifeD(1) [OF assms(1)] tc(1) by (rule net_wfD)
  then have "net_wf t" unfolding tc(2) using net_lifeD(1) [OF assms(1)] tc(1)
    by (intro put_conn_wf [of s c tc]) (simp_all add: tc_setter_defs write_inv_def)
  then show "net_life t" using assms(1) tc by (auto simp: net_life_def callbacks_def tc_setter_defs put_conn_def)
  show "clients t = clients s" using tc(2) by (simp add: put_conn_def)
qed

lemma clients_upd_life [simp]: "net_life (s\<lparr>clients := m\<rparr>) = net_life s"
  using net_wf_cong [of "s\<lparr>clients := m\<rparr>" s] by (simp add: net_life_def callbacks_def)

lemma dtor_gone:
  fixes s t :: "'m clnet_scheme"
  assumes ok: "client_ok v {} s" and run: "TcpClient_dtor now now' tid unique v s = Inr t"
  shows "client_gone {} t"
proof -
  have other: "clients s w = None" if "w \<noteq> v" for w using ok that by (simp add: client_ok_def)
  have life: "net_life s" using ok by (simp add: client_ok_def)
  have final: "client_gone {} t" if "t = s3\<lparr>clients := (clients s3)(v := None)\<rparr>" "net_life s3" "clients s3 = clients s" for s3
    using that other by (auto simp: client_gone_def)
  obtain cl where cl: "clients s v = Some cl" using run by (auto simp: TcpClient_dtor_def result_simps)
  show ?thesis
  proof (cases "cl_connection cl")
    case None
    obtain s1 r s2 where s1: "Connector_stop tid (cl_connector cl) s = Inr s1"
      "runAfter now now' tid 1 (Some (TC_removeConnector (cl_connector cl))) s1 = Inr (r, s2)" "t = s2\<lparr>clients := (clients s2)(v := None)\<rparr>"
      using run cl None by (auto simp: TcpClient_dtor_def result_simps)
    have fr: "connector_frame (cl_connector cl) s s1" using net_lifeD(1) [OF life] s1(1) by (rule stop_frame)
    then have life1: "net_life s1" using life by (simp add: connector_frame_def net_life_def callbacks_def)
    note eq = addTimer_same [OF s1(2) [unfolded runAfter_def runAt_def Let_def]]
    have "net_wf s2" using net_lifeD(1) [OF life1] net_wf_cong [OF eq(1-5)] by simp
    then have "net_life s2" using life1 eq(5,6) by (simp add: net_life_def callbacks_def)
    then show ?thesis using s1(3) fr homeD_client(1) [OF eq(7)] by (intro final [of s2]) (simp_all add: connector_frame_def)
  next
    case (Some c)
    obtain s1 s3 where s1: "runInLoop (\<lambda>f. set_detail_callback c) tid (Some (Fn_setCloseCallback c)) s = Inr s1"
      "(if unique then forceClose tid c s1 else Inr s1) = Inr s3" "t = s3\<lparr>clients := (clients s3)(v := None)\<rparr>"
      using run cl Some by (auto simp: TcpClient_dtor_def result_simps)
    have life1: "net_life s1" "clients s1 = clients s"
      using s1(1) set_detail_life [OF life, of c s1] life by (auto simp: runInLoop_def split: if_splits)
    have fr: "api_frame s1 s3"
      using s1(2) forceClose_frame [OF net_lifeD(1) [OF life1(1)]] net_lifeD(1) [OF life1(1)] by (auto simp: api_frame_refl split: if_splits)
    then show ?thesis
      using s1(3) life1 frame_life [OF life1(1) fr] homeD_client(1) [OF api_frameD(3) [OF fr]] by (intro final [of s3]) simp_all
  qed
qed

lemma client_gone_step:
  fixes s t :: "'m clnet_scheme"
  assumes os: "os_documented os" and step: "client_step os app kern v s t" and ok: "client_gone {} s"
  shows "client_gone {} t"
proof -
  have none: "clients s v = None" using ok by (simp add: client_gone_def)
  note defs = TcpClient_connect_def TcpClient_disconnect_def TcpClient_stop_def TcpClient_dtor_def with_client_def
  from step show ?thesis
  proof cases
    case (cl_event ev)
    then show ?thesis by (intro conn_invariant.conn_event_inv [OF gone_conns ok os, of ev]) simp_all
  next
    case (cl_functor f fs)
    have "client_gone {} (s\<lparr>pendingFunctors := fs\<rparr>)" using ok by (simp add: client_gone_def)
    from conn_invariant.conn_functor_inv [OF gone_conns this os cl_functor(2) _ _ cl_functor(3)] show ?thesis by simp
  next
    case (cl_destroy c)
    then show ?thesis using ok dtor_life [of s c t] homeD_client(1) [of t s] by (simp add: client_gone_def)
  next
    case (cl_setCloseCallback c)
    then show ?thesis using ok set_detail_life [of s c t] by (simp add: client_gone_def)
  qed (use none in \<open>simp_all add: defs\<close>)
qed

lemma client_step_ok:
  fixes s t :: "'m clnet_scheme"
  assumes os: "os_documented os" and kern: "fresh_attempts kern" and step: "client_step os app kern v s t" and ok: "client_ok v {} s"
  shows "client_ok v {} t \<or> client_gone {} t"
proof -
  obtain cl0 where cl0: "clients s v = Some cl0" using ok by (auto simp: client_ok_def)
  have wf: "net_wf s" using conn_invariant.inv_wf [OF client_conns [OF kern] ok] .
  have conn: "client_ok v {} t" if "connector_frame (cl_connector cl0) s t" using ok cl0 that by (rule client_ok_connector)
  have flag: "client_ok v {} (put_client v (cl0\<lparr>cl_connect := b\<rparr>) s)" "clients (put_client v (cl0\<lparr>cl_connect := b\<rparr>) s) v = Some (cl0\<lparr>cl_connect := b\<rparr>)"
    "net_wf (put_client v (cl0\<lparr>cl_connect := b\<rparr>) s)" for b
    using put_client_ok [OF ok cl0, of "cl0\<lparr>cl_connect := b\<rparr>"] wf by simp_all
  have flagged: "client_ok v {} t" if "connector_frame (cl_connector cl0) (put_client v (cl0\<lparr>cl_connect := b\<rparr>) s) t" for b
    using client_ok_connector [OF flag(1,2), of b t] that by simp
  have kept: "client_ok v {} t" if "\<not> (\<exists>now now' tid unique. TcpClient_dtor now now' tid unique v s = Inr t)"
    using step
  proof cases
    case (cl_event ev)
    then show ?thesis by (intro conn_invariant.conn_event_inv [OF client_conns [OF kern] ok os, of ev]) simp_all
  next
    case (cl_functor f fs)
    show ?thesis
      by (rule conn_invariant.conn_functor_inv [OF client_conns [OF kern] client_ok_pop(1) [OF ok cl_functor(1)] os cl_functor(2) _ _ cl_functor(3)])
        (use client_ok_pop(2) [OF ok cl_functor(1)] in blast)+
  next
    case (cl_connect a tid)
    then show ?thesis using cl0 flag(3)
      by (intro flagged [of True] start_frame [of _ a tid]) (simp_all add: TcpClient_connect_def fresh_attempt_def)
  next
    case (cl_disconnect tid)
    show ?thesis
    proof (cases "cl_connection cl0")
      case None
      then show ?thesis using cl_disconnect cl0 flag(1) [of False] by (simp add: TcpClient_disconnect_def Let_def)
    next
      case (Some c)
      then have "api_frame (put_client v (cl0\<lparr>cl_connect := False\<rparr>) s) t"
        using cl_disconnect cl0 shutdown_frame [OF flag(3) [of False]] by (simp add: TcpClient_disconnect_def Let_def)
      with flag(1) [of False] show ?thesis by (rule client_ok_frame)
    qed
  next
    case (cl_stop tid)
    then show ?thesis using cl0 flag(3) by (intro flagged [of False] stop_frame [of _ tid]) (simp_all add: TcpClient_stop_def)
  next
    case (cl_start cl a)
    then show ?thesis using cl0 wf by (intro conn startInLoop_frame [of _ a]) simp_all
  next
    case (cl_stopInLoop cl cn now now')
    then show ?thesis using cl0 wf by (intro conn stopInLoop_frame [of _ _ cn now now']) simp_all
  next
    case (cl_error cl cn now now')
    then show ?thesis using cl0 wf by (intro conn handleError_frame [of _ _ cn now now']) simp_all
  next
    case (cl_reset cl cn)
    then show ?thesis using cl0 wf by (intro conn resetChannel_frame [of _ _ cn]) simp_all
  next
    case cl_writable
    then show ?thesis by (intro writable_ok [OF os kern ok cl_writable(1,2,3,4,5,6,7)])
  next
    case (cl_destroy c)
    then show ?thesis using ok destroy_ok by blast
  next
    case (cl_enableRetry cl)
    then show ?thesis using put_client_ok [OF ok] by (simp add: TcpClient_enableRetry_def)
  next
    case (cl_connectionCallback cl ccb)
    then show ?thesis using put_client_ok [OF ok] by (simp add: TcpClient_setConnectionCallback_def)
  next
    case (cl_messageCallback cl mcb)
    then show ?thesis using put_client_ok [OF ok] by (simp add: TcpClient_setMessageCallback_def)
  next
    case (cl_writeCompleteCallback cl wcb)
    then show ?thesis using put_client_ok [OF ok] by (simp add: TcpClient_setWriteCompleteCallback_def)
  qed (use cl0 that in \<open>(simp; fail | blast)+\<close>)
  then show ?thesis using dtor_gone [OF ok] by blast
qed

lemma client_invariant:
  "os_documented os \<Longrightarrow> fresh_attempts kern \<Longrightarrow>
   inductive_invariant (client_start v) (client_step os app kern v) (\<lambda>s. client_ok v {} s \<or> client_gone {} s)"
  by unfold_locales (auto intro: client_start_ok dest: client_step_ok client_gone_step)

lemma client_reachable_ok:
  assumes "os_documented os" and "fresh_attempts kern" and "reachable_from (client_start v) (client_step os app kern v) s"
    and "clients s v = Some cl"
  shows "client_ok v {} s"
  using inductive_invariant.reachable_inv [OF client_invariant [OF assms(1,2)] assms(3)] assms(4) by (auto simp: client_gone_def)

section \<open>Properties\<close>

text \<open>
  C23. A client has one connection at a time. Whatever user code, the kernel, the loop and its timers do, and in whatever order, until the client is destroyed: at every moment
  \<open>connection()\<close> is exactly the connection of the client that is not closed, there is at most one, and while there is one
  the connector is in the state connected, so that no attempt to connect can succeed a second time.
\<close>

theorem client_single_connection:
  assumes "os_documented os" and "fresh_attempts kern" and "reachable_from (client_start v) (client_step os app kern v) s"
    and "clients s v = Some cl"
  shows "net_life s \<and>
    (\<forall>c. cl_connection cl = Some c \<longleftrightarrow> (\<exists>tc. conns s c = Some tc \<and> client_of v tc \<and> tc_state tc \<noteq> kDisconnected)) \<and>
    (\<exists>cn. connectors s (cl_connector cl) = Some cn \<and> (cl_connection cl \<noteq> None \<longrightarrow> c_state cn = Cs_Connected))"
proof -
  have "client_ok v {} s" by (rule client_reachable_ok [OF assms])
  then show ?thesis using assms(4) by (auto simp: client_ok_def link_ok_def)
qed

text \<open>
  C24. A client loses its connection. When the open connection of a client that is not destroyed closes in a reachable state, user code is told first; if that returns, the
  assertion \<open>connection_ == conn\<close> of \<open>removeConnection\<close> holds, \<open>connection()\<close> is empty, \<open>connectDestroyed\<close> is queued, and
  exactly when the client retries and was not told to stop, the connector is restarted.
\<close>

theorem client_close:
  assumes "os_documented os" and "fresh_attempts kern" and "reachable_from (client_start v) (client_step os app kern v) s"
    and "conns s c = Some tc" and "client_of v tc" and "tc_state tc = kConnected \<or> tc_state tc = kDisconnecting"
    and "clients s v = Some cl"
  shows "\<exists>u. conns u = (conns s)(c \<mapsto> setState kDisconnected tc) \<and> home u = home s \<and>
    (case call_connectionCallback os app c u of
       Inl e \<Rightarrow> handleClose os app (client_on_close kern) c s = Inl e
     | Inr w \<Rightarrow> \<exists>t. clients t v = Some (cl\<lparr>cl_connection := None\<rparr>) \<and> connectors t = connectors s \<and>
         pendingFunctors t = pendingFunctors w @ [Some (Fn_connectDestroyed c)] \<and>
         handleClose os app (client_on_close kern) c s =
           (if cl_retry cl \<and> cl_connect cl then Connector_restart (cl_connector cl) (kern w) t else Inr t))"
proof -
  have ok: "client_ok v {} s" by (rule client_reachable_ok [OF assms(1-3,7)])
  have wf: "net_wf s" using conn_invariant.inv_wf [OF client_conns [OF assms(2)] ok] .
  have cl: "clients s v = Some cl" "cl_connection cl = Some c"
    using ok assms(4-7) by (auto simp: client_ok_def link_ok_def)
  have cb: "tc_closeCallback tc = Some (TcpClient_removeConnection v)" using assms(5) by (simp add: client_of_def)
  from assms(1) wf assms(4,6) cb cl show ?thesis
  proof (rule client_handleClose)
    fix u
    assume u: "conns u = (conns s)(c \<mapsto> setState kDisconnected tc)" "home u = home s"
      and bad: "\<And>e. call_connectionCallback os app c u = Inl e \<Longrightarrow> handleClose os app (client_on_close kern) c s = Inl e"
      and good: "\<And>w. call_connectionCallback os app c u = Inr w \<Longrightarrow> net_wf w \<and> home w = home s \<and>
         handleClose os app (client_on_close kern) c s =
           (if cl_retry cl \<and> cl_connect cl then Connector_restart (cl_connector cl) (kern w) (after_removal v cl c w)
            else Inr (after_removal v cl c w))"
    show ?thesis
    proof (cases "call_connectionCallback os app c u")
      case (Inl e)
      then show ?thesis using u cl bad by (intro exI [of _ u]) simp
    next
      case (Inr w)
      note w = good [OF Inr]
      have "clients (after_removal v cl c w) v = Some (cl\<lparr>cl_connection := None\<rparr>)"
        "connectors (after_removal v cl c w) = connectors s"
        "pendingFunctors (after_removal v cl c w) = pendingFunctors w @ [Some (Fn_connectDestroyed c)]"
        using w homeD_client(2) [of w s] by (simp_all add: after_removal_def)
      then show ?thesis using u cl Inr w by (intro exI [of _ u]) auto
    qed
  qed
qed

section \<open>Witnesses\<close>

definition sample_client_start :: clnet where
  "sample_client_start = TcpClient_ctor 1 0 sample_addr ''c'' (cnet.extend sample_cnet \<lparr>clients = Map.empty\<rparr>)"

text \<open>A kernel that refuses every restart.\<close>

definition refusing :: "clnet \<Rightarrow> attempt" where
  "refusing s = sample_attempt ECONNREFUSED"

definition sample_peer6 :: InetAddress where
  "sample_peer6 = zero_addr\<lparr>sin_family := AF_INET6\<rparr>"

abbreviation sample_writable :: "clnet \<Rightarrow> clnet result" where
  "sample_writable \<equiv> Connector_handleWrite_op (TcpClient_newConnection (\<lambda>b. ''::'') sample_os quiet_app 9 3 (Inr sample_peer6) (Inl EBADF))
     (Inr 0) (Inl EBADF) (Inr sample_peer6) 0 0 0"

lemma refusing_fresh: "fresh_attempts refusing"
  by (simp add: fresh_attempts_def fresh_attempt_def refusing_def sample_attempt_def connect_pending_def errno_defs)

definition retry_start :: clnet where
  "retry_start = (case clients sample_client_start 1 of
     Some cl \<Rightarrow> put_client 1 (TcpClient_enableRetry cl) sample_client_start | None \<Rightarrow> sample_client_start)"

lemma sample_client_run:
  "case TcpClient_connect 3 1 (sample_attempt EINPROGRESS) retry_start of
     Inl e \<Rightarrow> False
   | Inr t \<Rightarrow> chans t 3 = None \<and> (case sample_writable t of
       Inl e \<Rightarrow> False
     | Inr u \<Rightarrow> map_option (\<lambda>tc. (client_of 1 tc, tc_state tc, connectionCallback tc)) (conns u 9) =
         Some (True, kConnected, Some defaultConnectionCallback) \<and>
         map_option (\<lambda>cl. (cl_connection cl, cl_retry cl \<and> cl_connect cl, cl_connector cl)) (clients u 1) = Some (Some 9, True, 0) \<and>
         (case handleClose sample_os quiet_app (client_on_close refusing) 9 u of
            Inl e \<Rightarrow> False
          | Inr w \<Rightarrow> map_option (\<lambda>cn. (c_state cn, retryDelayMs cn)) (connectors w 0) = Some (Cs_Disconnected, 1000)))"
  by code_simp

lemma sample_client_reachable:
  obtains u tc cl w cn where "reachable_from (client_start 1) (client_step sample_os quiet_app refusing 1) u" "conns u 9 = Some tc"
    "client_of 1 tc" "tc_state tc = kConnected" "connectionCallback tc = Some defaultConnectionCallback"
    "clients u 1 = Some cl" "cl_connection cl = Some 9" "cl_retry cl \<and> cl_connect cl" "cl_connector cl = 0"
    "handleClose sample_os quiet_app (client_on_close refusing) 9 u = Inr w" "connectors w 0 = Some cn" "c_state cn = Cs_Disconnected"
    "retryDelayMs cn = 1000"
proof -
  let ?s0 = "cnet.extend sample_cnet \<lparr>clients = Map.empty\<rparr>"
  let ?a = "sample_attempt EINPROGRESS"
  have s0: "chans ?s0 = chans sample_loop" "channels ?s0 = channels sample_loop" "epoll_log ?s0 = epoll_log sample_loop"
    "loop_id ?s0 = loop_id sample_loop" "pendingFunctors ?s0 = pendingFunctors sample_loop" "conns ?s0 = Map.empty" "conn_log ?s0 = []" "clients ?s0 = Map.empty"
    by (simp_all add: cnet.defs sample_cnet_def net.defs tloop.defs sample_timers_def loop.defs sample_loop_eq)
  then have "loop_wf ?s0" using sample_loop_wf loop_wf_transfer [of ?s0 sample_loop] by simp
  then have "net_wf ?s0" using s0(6) by (simp add: net_wf_def)
  then have start: "client_start 1 sample_client_start"
    unfolding client_start_def sample_client_start_def using s0(5,6,8) by (intro exI [of _ ?s0] exI) (simp add: waiting_def sample_loop_eq)
  obtain cl1 where cl1: "clients sample_client_start 1 = Some cl1" "cl_connector cl1 = 0"
    by (simp add: sample_client_start_def TcpClient_ctor_def)
  let ?cl = "TcpClient_enableRetry cl1"
  have r: "retry_start = put_client 1 ?cl sample_client_start" using cl1(1) by (simp add: retry_start_def)
  have new: "conns retry_start = Map.empty" "conn_log retry_start = []"
    "chans retry_start = chans sample_loop" "channels retry_start = channels sample_loop"
    using s0 unfolding r by (simp_all add: sample_client_start_def TcpClient_ctor_def) (simp add: put_client_def)
  obtain t u tc cl where t: "TcpClient_connect 3 1 ?a retry_start = Inr t" "chans t 3 = None" and u: "sample_writable t = Inr u"
    and c: "conns u 9 = Some tc" "client_of 1 tc" "tc_state tc = kConnected" "connectionCallback tc = Some defaultConnectionCallback"
    and cl: "clients u 1 = Some cl" "cl_connection cl = Some 9" "cl_retry cl \<and> cl_connect cl" "cl_connector cl = 0"
    and close: "case handleClose sample_os quiet_app (client_on_close refusing) 9 u of
            Inl e \<Rightarrow> False
          | Inr w \<Rightarrow> map_option (\<lambda>cn. (c_state cn, retryDelayMs cn)) (connectors w 0) = Some (Cs_Disconnected, 1000)"
    using sample_client_run by (auto split: sum.splits)
  obtain w cn where w: "handleClose sample_os quiet_app (client_on_close refusing) 9 u = Inr w" "connectors w 0 = Some cn"
    "c_state cn = Cs_Disconnected" "retryDelayMs cn = 1000"
    using close by (auto split: sum.splits)
  have fresh: "fresh_attempt retry_start ?a"
    using new by (simp add: fresh_attempt_def sample_attempt_def sample_loop_eq)
  have r0: "reachable_from (client_start 1) (client_step sample_os quiet_app refusing 1) retry_start"
    unfolding r using reach_init [of "client_start 1", OF start] cl_enableRetry [OF cl1(1)] by (rule reach_step)
  have r1: "reachable_from (client_start 1) (client_step sample_os quiet_app refusing 1) t"
    using r0 cl_connect [OF fresh t(1)] by (rule reach_step)
  have wf: "net_wf retry_start" unfolding r using client_start_ok [OF start] net_lifeD(1) by (auto simp: client_ok_def)
  have cl2: "clients retry_start 1 = Some ?cl" "cl_connector ?cl = 0" using cl1(2) by (simp_all add: r TcpClient_enableRetry_def)
  have "connector_frame 0 (put_client 1 (?cl\<lparr>cl_connect := True\<rparr>) retry_start) t"
    using t(1) cl2 wf fresh by (intro start_frame [of _ ?a 3]) (simp_all add: TcpClient_connect_def fresh_attempt_def)
  then have conns: "conns t = Map.empty" "conn_log t = []" "clients t 1 = Some (?cl\<lparr>cl_connect := True\<rparr>)"
    using new by (simp_all add: connector_frame_def) (simp add: put_client_def)
  obtain cn' where cn': "connectors t 0 = Some cn'" using u by (auto simp: Connector_handleWrite_op_def result_simps)
  have "client_step sample_os quiet_app refusing 1 t u"
    by (rule cl_writable [OF conns(3), of cn' 9 3]) (use cl2(2) cn' conns t(2) u in \<open>simp_all add: apart_def callbacks_def\<close>)
  with r1 have "reachable_from (client_start 1) (client_step sample_os quiet_app refusing 1) u" by (rule reach_step)
  then show thesis using c cl w by (rule that)
qed

theorem client_single_connection_witness:
  "os_documented sample_os \<and> fresh_attempts refusing \<and>
   (\<exists>s tc. reachable_from (client_start 1) (client_step sample_os quiet_app refusing 1) s \<and>
      conns s 9 = Some tc \<and> client_of 1 tc \<and> tc_state tc \<noteq> kDisconnected)"
proof (rule sample_client_reachable)
  fix s tc cl
  assume s: "reachable_from (client_start 1) (client_step sample_os quiet_app refusing 1) s" "clients s 1 = Some cl"
    "cl_connection cl = Some 9"
  from client_single_connection [OF sample_os_ok refusing_fresh s(1,2)] s show ?thesis
    using sample_os_ok refusing_fresh by blast
qed

text \<open>The client of the witness retries: when its connection closes, the connector is restarted, is refused, and will try again after a second.\<close>

theorem client_close_witness:
  "os_documented sample_os \<and> fresh_attempts refusing \<and>
   (\<exists>s w t cl cn. reachable_from (client_start 1) (client_step sample_os quiet_app refusing 1) s \<and> clients s 1 = Some cl \<and>
      cl_connection cl = Some 9 \<and> cl_retry cl \<and> clients t 1 = Some (cl\<lparr>cl_connection := None\<rparr>) \<and>
      handleClose sample_os quiet_app (client_on_close refusing) 9 s = Inr w \<and> Connector_restart 0 (sample_attempt ECONNREFUSED) t = Inr w \<and>
      connectors w 0 = Some cn \<and> c_state cn = Cs_Disconnected \<and> retryDelayMs cn = 1000)"
proof (rule sample_client_reachable)
  fix s tc cl w cn
  assume s: "reachable_from (client_start 1) (client_step sample_os quiet_app refusing 1) s" "conns s 9 = Some tc" "client_of 1 tc"
    "tc_state tc = kConnected" "connectionCallback tc = Some defaultConnectionCallback" "clients s 1 = Some cl"
    "cl_connection cl = Some 9" "cl_retry cl \<and> cl_connect cl" "cl_connector cl = 0"
    and w: "handleClose sample_os quiet_app (client_on_close refusing) 9 s = Inr w" "connectors w 0 = Some cn" "c_state cn = Cs_Disconnected"
    "retryDelayMs cn = 1000"
  obtain u where u: "conns u = (conns s)(9 \<mapsto> setState kDisconnected tc)"
    "case call_connectionCallback sample_os quiet_app 9 u of
       Inl e \<Rightarrow> handleClose sample_os quiet_app (client_on_close refusing) 9 s = Inl e
     | Inr w \<Rightarrow> \<exists>t. clients t 1 = Some (cl\<lparr>cl_connection := None\<rparr>) \<and> connectors t = connectors s \<and>
         pendingFunctors t = pendingFunctors w @ [Some (Fn_connectDestroyed 9)] \<and>
         handleClose sample_os quiet_app (client_on_close refusing) 9 s =
           (if cl_retry cl \<and> cl_connect cl then Connector_restart (cl_connector cl) (refusing w) t else Inr t)"
    using client_close [OF sample_os_ok refusing_fresh s(1-3) disjI1 [OF s(4)] s(6)] by blast
  have "\<exists>x. call_connectionCallback sample_os quiet_app 9 u = Inr x"
    using u(1) s(5) by (simp add: call_connectionCallback_def setState_def Let_def)
  with u(2) s(8,9) obtain t where "handleClose sample_os quiet_app (client_on_close refusing) 9 s = Connector_restart 0 (sample_attempt ECONNREFUSED) t"
    "clients t 1 = Some (cl\<lparr>cl_connection := None\<rparr>)" by (auto simp: refusing_def)
  with s w sample_os_ok refusing_fresh show ?thesis by (intro conjI exI [of _ s] exI [of _ w] exI [of _ t] exI [of _ cl] exI [of _ cn]) simp_all
qed

end
