(* ===== verification/Siren_Pingpong.thy ===== *)
theory Siren_Pingpong
  imports Siren_Client Siren_Threads
begin

text \<open>
  The pingpong client: \<open>example/pingpong/client.cc\<close>, a program on top of the library. A \<open>Session\<close> owns a \<open>TcpClient\<close>, sends a message when its
  connection is up, and sends back whatever arrives. A \<open>Client\<close> owns a pool of loops and its sessions, counts the connected ones in an
  atomic, stops all of them when a timer fires, and quits when the counter is back at zero.

  The state of the process has the \<open>Client\<close> object and the loops by their numbers. Session \<open>i\<close> owns the client and the connector with
  the address \<open>i\<close> in its loop; \<open>message_\<close> is at address 0. \<open>Fn_user 0\<close> and \<open>Fn_user 1\<close> are the functors \<open>Client::quit\<close> and \<open>EventLoop::quit\<close>,
  \<open>TC_user 0\<close> is \<open>Client::handleTimeout\<close>. \<open>bytesRead_ += readableBytes()\<close> is computed in \<open>size_t\<close>, so it wraps around; \<open>++messagesRead_\<close> is signed.
  \<open>std::atomic<int> numConnected_\<close> is not initialised, so its first value is an argument of the constructor.
\<close>

section \<open>Data\<close>

record Session =
  ss_loop :: nat
  ss_client :: nat
  bytesRead :: "64 word"
  bytesWritten :: "64 word"
  messagesRead :: "64 word"

record PingpongClient =
  pp_loop :: nat
  pp_threadPool :: EventLoopThreadPool
  pp_sessionCount :: cint
  pp_timeout :: cint
  pp_sessions :: "Session list"
  pp_message :: "byte list"
  numConnected :: cint

record pp_state =
  pp :: PingpongClient
  loops :: "nat \<Rightarrow> clnet"

definition with_session :: "nat \<Rightarrow> pp_state \<Rightarrow> (Session \<Rightarrow> 'a result) \<Rightarrow> 'a result" where
  "with_session i st f = (if i < length (pp_sessions (pp st)) then f (pp_sessions (pp st) ! i) else Inl Bad_pointer)"

definition put_loop :: "nat \<Rightarrow> clnet \<Rightarrow> pp_state \<Rightarrow> pp_state" where
  "put_loop l s st = st\<lparr>loops := (loops st)(l := s)\<rparr>"

definition put_session :: "nat \<Rightarrow> Session \<Rightarrow> pp_state \<Rightarrow> pp_state" where
  "put_session i ss st = st\<lparr>pp := (pp st)\<lparr>pp_sessions := (pp_sessions (pp st))[i := ss]\<rparr>\<rparr>"

section \<open>The counter of connected sessions\<close>

definition Client_onConnect :: "PingpongClient \<Rightarrow> PingpongClient" where
  "Client_onConnect me = me\<lparr>numConnected := numConnected me + 1\<rparr>"

text \<open>\<open>onDisconnect\<close> decrements and reads the counter in two steps, between which other threads may run.\<close>

definition onDisconnect_sub :: "PingpongClient \<Rightarrow> PingpongClient" where
  "onDisconnect_sub me = me\<lparr>numConnected := numConnected me - 1\<rparr>"

definition onDisconnect_load :: "PingpongClient \<Rightarrow> bool" where
  "onDisconnect_load me \<longleftrightarrow> numConnected me = 0"

text \<open>
  The totals that are reported when all are disconnected, as signed sums; and \<open>timeout_ * 1024 * 1024\<close> in the report of the throughput, which is
  computed in \<open>int\<close>.
\<close>

definition add_int64 :: "64 word \<Rightarrow> 64 word \<Rightarrow> 64 word result" where
  "add_int64 a b = (if - (2 ^ 63) \<le> sint a + sint b \<and> sint a + sint b < 2 ^ 63 then Inr (a + b) else Inl Signed_overflow)"

definition Client_totals :: "PingpongClient \<Rightarrow> (64 word \<times> 64 word) result" where
  "Client_totals me =
     rfold (\<lambda>ss (b, m). rbind (add_int64 b (bytesRead ss)) (\<lambda>b1. rbind (add_int64 m (messagesRead ss)) (\<lambda>m1. Inr (b1, m1))))
       (pp_sessions me) (0, 0)"

definition throughput_divisor :: "cint \<Rightarrow> cint result" where
  "throughput_divisor timeout =
     (let d = sint timeout * 1024 * 1024 in if - (2 ^ 31) \<le> d \<and> d < 2 ^ 31 then Inr (of_int d) else Inl Signed_overflow)"

definition onDisconnect_report :: "PingpongClient \<Rightarrow> cint result" where
  "onDisconnect_report me = rbind (Client_totals me) (\<lambda>totals. throughput_divisor (pp_timeout me))"

definition Client_onDisconnect :: "nat \<Rightarrow> pp_state \<Rightarrow> pp_state result" where
  "Client_onDisconnect l st =
     (let me = onDisconnect_sub (pp st); st1 = st\<lparr>pp := me\<rparr>; s = loops st l
      in if onDisconnect_load me
         then rbind (onDisconnect_report me) (\<lambda>d.
              Inr (put_loop l (queueInLoop (threadId s) (Some (Fn_user 0)) s) st1))
         else Inr st1)"

definition Client_quit :: "nat \<Rightarrow> pp_state \<Rightarrow> pp_state" where
  "Client_quit tid st = put_loop (pp_loop (pp st)) (queueInLoop tid (Some (Fn_user 1)) (loops st (pp_loop (pp st)))) st"

section \<open>A session\<close>

definition Session_ctor :: "nat \<Rightarrow> InetAddress \<Rightarrow> string \<Rightarrow> clnet \<Rightarrow> clnet result" where
  "Session_ctor i addr name s =
     (let s1 = TcpClient_ctor i i addr name s
      in with_client i s1 (\<lambda>cl. Inr (put_client i
           (TcpClient_setMessageCallback (Some (User_message i))
             (TcpClient_setConnectionCallback (Some (User_connection i)) cl)) s1)))"

definition Session_start :: "nat \<Rightarrow> nat \<Rightarrow> attempt \<Rightarrow> clnet \<Rightarrow> clnet result" where
  "Session_start tid i a s = TcpClient_connect tid i a s"

definition Session_stop :: "nat \<Rightarrow> nat \<Rightarrow> clnet \<Rightarrow> clnet result" where
  "Session_stop tid i s = TcpClient_disconnect tid i s"

definition Session_onConnection :: "os \<Rightarrow> nat \<Rightarrow> nat \<Rightarrow> pp_state \<Rightarrow> pp_state result" where
  "Session_onConnection os i c st =
     with_session i st (\<lambda>ss.
       let l = ss_loop ss; s = loops st l in
       with_conn c s (\<lambda>tc.
         if connected tc
         then rbind (TcpConnection_setTcpNoDelay c True s) (\<lambda>s1.
              rbind (send_string os (threadId s) c 0 s1) (\<lambda>s2.
              Inr (put_loop l s2 (st\<lparr>pp := Client_onConnect (pp st)\<rparr>))))
         else Client_onDisconnect l st))"

definition count_message :: "64 word \<Rightarrow> Session \<Rightarrow> Session" where
  "count_message n ss = ss\<lparr>messagesRead := messagesRead ss + 1, bytesRead := bytesRead ss + n, bytesWritten := bytesWritten ss + n\<rparr>"

definition Session_onMessage :: "os \<Rightarrow> nat \<Rightarrow> nat \<Rightarrow> pp_state \<Rightarrow> pp_state result" where
  "Session_onMessage os i c st =
     with_session i st (\<lambda>ss.
       let l = ss_loop ss; s = loops st l in
       with_conn c s (\<lambda>tc.
         let n = readableBytes (inputBuffer tc);
             ss1 = count_message n ss
         in if sint (messagesRead ss) = 2 ^ 63 - 1 then Inl Signed_overflow
            else rbind (send_buffer os (threadId s) c (inputBuffer tc) s) (\<lambda>(buf, s1).
                 with_conn c s1 (\<lambda>tc1.
                   Inr (put_loop l (put_conn c (tc1\<lparr>inputBuffer := buf\<rparr>) s1) (put_session i ss1 st))))))"

section \<open>The client\<close>

text \<open>\<open>snprintf(buf, sizeof buf, "C%05d", i)\<close> with \<open>char buf[32]\<close>; \<open>i\<close> is not negative.\<close>

definition session_name :: "nat \<Rightarrow> string" where
  "session_name i = take 31 (''C'' @ replicate (5 - length (show_nat i)) (CHR ''0'') @ show_nat i)"

definition start_session :: "nat \<Rightarrow> InetAddress \<Rightarrow> (nat \<Rightarrow> attempt) \<Rightarrow> nat \<Rightarrow> pp_state \<Rightarrow> pp_state result" where
  "start_session tid addr att i st =
     rbind (getNextLoop (pp_threadPool (pp st))) (\<lambda>(l, pool).
     rbind (Session_ctor i addr (session_name i) (loops st l)) (\<lambda>s1.
     rbind (Session_start tid i (att i) s1) (\<lambda>s2.
       Inr (put_loop l s2 (st\<lparr>pp := (pp st)\<lparr>pp_threadPool := pool,
         pp_sessions := pp_sessions (pp st) @ [\<lparr>ss_loop = l, ss_client = i, bytesRead = 0, bytesWritten = 0, messagesRead = 0\<rparr>]\<rparr>\<rparr>)))))"

definition pingpong_message :: "cint \<Rightarrow> byte list" where
  "pingpong_message blockSize = map (\<lambda>i. of_nat (i mod 128)) [0..<nat (sint blockSize)]"

definition Client_ctor :: "(nat \<Rightarrow> nat) \<Rightarrow> int \<Rightarrow> int \<Rightarrow> nat \<Rightarrow> nat \<Rightarrow> InetAddress \<Rightarrow> cint \<Rightarrow> cint \<Rightarrow> cint \<Rightarrow> cint \<Rightarrow> cint \<Rightarrow>
    (nat \<Rightarrow> attempt) \<Rightarrow> (nat \<Rightarrow> clnet) \<Rightarrow> pp_state result" where
  "Client_ctor loop_of now now' tid base addr blockSize sessionCount timeout threadCount num0 att ls =
     rbind (runAfter now now' tid (of_int (sint timeout)) (Some (TC_user 0)) (ls base)) (\<lambda>(timerId, s1).
     let p0 = EventLoopThreadPool_ctor base ''pingpong-client'';
         p1 = (if 1 < sint threadCount then pool_setThreadNum (sint threadCount) p0 else p0);
         msg = pingpong_message blockSize in
     rbind (pool_start loop_of False p1) (\<lambda>(inits, p2).
       rfold (start_session tid addr att) [0..<nat (sint sessionCount)]
         \<lparr>pp = \<lparr>pp_loop = base, pp_threadPool = p2, pp_sessionCount = sessionCount, pp_timeout = timeout,
                pp_sessions = [], pp_message = msg, numConnected = num0\<rparr>,
          loops = (\<lambda>l. ((ls(base := s1)) l)\<lparr>caller_mem := (caller_mem ((ls(base := s1)) l))(0 \<mapsto> msg)\<rparr>)\<rparr>))"

definition stop_session :: "nat \<Rightarrow> Session \<Rightarrow> pp_state \<Rightarrow> pp_state result" where
  "stop_session tid ss st =
     rbind (Session_stop tid (ss_client ss) (loops st (ss_loop ss))) (\<lambda>s1. Inr (put_loop (ss_loop ss) s1 st))"

definition handleTimeout :: "nat \<Rightarrow> pp_state \<Rightarrow> pp_state result" where
  "handleTimeout tid st = rfold (stop_session tid) (pp_sessions (pp st)) st"

section \<open>Where the sessions live\<close>

lemma start_sessions_loops:
  assumes "rfold (start_session tid addr att) is st = Inr st'" and "pp_threadPool (pp st) = cursor p k" and "pool_loops p \<noteq> []"
  shows "map ss_loop (pp_sessions (pp st')) =
      map ss_loop (pp_sessions (pp st)) @ map (\<lambda>j. pool_loops p ! (j mod length (pool_loops p))) [k..<k + length is] \<and>
    map ss_client (pp_sessions (pp st')) = map ss_client (pp_sessions (pp st)) @ is"
  using assms
proof (induction "is" arbitrary: st k)
  case (Cons i "is")
  let ?l = "pool_loops p ! (k mod length (pool_loops p))"
  let ?ss = "\<lparr>ss_loop = ?l, ss_client = i, bytesRead = 0, bytesWritten = 0, messagesRead = 0\<rparr>"
  obtain u where u: "start_session tid addr att i st = Inr u" "rfold (start_session tid addr att) is u = Inr st'"
    using Cons.prems(1) by (auto simp: result_simps)
  then have "pp_threadPool (pp u) = cursor p (Suc k)" "pp_sessions (pp u) = pp_sessions (pp st) @ [?ss]"
    using Cons.prems(2,3) by (auto simp: start_session_def getNextLoop_cursor result_simps put_loop_def)
  then show ?case using Cons.IH [OF u(2) _ Cons.prems(3), of "Suc k"]
    by (simp add: upt_rec [of k "Suc (k + length is)"] del: upt_Suc)
qed simp

lemma start_sessions_base:
  assumes "rfold (start_session tid addr att) is st = Inr st'" and "pp_threadPool (pp st) = p" and "pool_loops p = []"
  shows "map ss_loop (pp_sessions (pp st')) = map ss_loop (pp_sessions (pp st)) @ map (\<lambda>j. baseLoop p) is \<and>
    map ss_client (pp_sessions (pp st')) = map ss_client (pp_sessions (pp st)) @ is"
  using assms
proof (induction "is" arbitrary: st)
  case (Cons i "is")
  obtain u where u: "start_session tid addr att i st = Inr u" "rfold (start_session tid addr att) is u = Inr st'"
    using Cons.prems(1) by (auto simp: result_simps)
  then have "pp_threadPool (pp u) = p" "map ss_loop (pp_sessions (pp u)) = map ss_loop (pp_sessions (pp st)) @ [baseLoop p]"
    "map ss_client (pp_sessions (pp u)) = map ss_client (pp_sessions (pp st)) @ [i]"
    using Cons.prems(2,3) by (auto simp: start_session_def getNextLoop_def result_simps put_loop_def)
  then show ?case using Cons.IH [OF u(2) _ Cons.prems(3)] by simp
qed simp

lemma pool_start_cursor:
  assumes "pool_start loop_of False p = Inr (inits, p')" and "next_loop p = 0" and "pool_loops p = []"
  shows "pool_loops p' = map loop_of [0..<nat (numThreads p)]" and "p' = cursor p' 0" and "baseLoop p' = baseLoop p"
  using assms by (auto simp: pool_start_def pool_start_threads_eq cursor_def Let_def split: if_splits)

text \<open>
  The sessions of a pingpong client. Whenever its constructor returns, it has made the asked number of sessions, in order, each with
  its own \<open>TcpClient\<close>; with more than one thread session \<open>j\<close> runs in the loop of thread \<open>j\<close> modulo the number of threads, otherwise all run in
  the base loop.
\<close>

theorem pingpong_sessions:
  assumes run: "Client_ctor loop_of now now' tid base addr blockSize sessionCount timeout threadCount num0 att ls = Inr st"
  shows "map ss_client (pp_sessions (pp st)) = [0..<nat (sint sessionCount)] \<and>
    map ss_loop (pp_sessions (pp st)) =
      map (\<lambda>j. if 1 < sint threadCount then loop_of (j mod nat (sint threadCount)) else base) [0..<nat (sint sessionCount)]"
proof -
  let ?p0 = "EventLoopThreadPool_ctor base ''pingpong-client''"
  let ?p1 = "if 1 < sint threadCount then pool_setThreadNum (sint threadCount) ?p0 else ?p0"
  let ?me = "\<lambda>p. \<lparr>pp_loop = base, pp_threadPool = p, pp_sessionCount = sessionCount, pp_timeout = timeout,
      pp_sessions = [], pp_message = pingpong_message blockSize, numConnected = num0\<rparr>"
  have "\<exists>inits p2 ls'. pool_start loop_of False ?p1 = Inr (inits, p2) \<and>
      rfold (start_session tid addr att) [0..<nat (sint sessionCount)] \<lparr>pp = ?me p2, loops = ls'\<rparr> = Inr st"
    using run by (auto simp: Client_ctor_def result_simps Let_def)
  then obtain inits p2 ls' where p2: "pool_start loop_of False ?p1 = Inr (inits, p2)"
    and loop: "rfold (start_session tid addr att) [0..<nat (sint sessionCount)] \<lparr>pp = ?me p2, loops = ls'\<rparr> = Inr st"
    by blast
  have st0: "pp_threadPool (pp \<lparr>pp = ?me p2, loops = ls'\<rparr>) = p2" "pp_sessions (pp \<lparr>pp = ?me p2, loops = ls'\<rparr>) = []" by simp_all
  have init: "next_loop ?p1 = 0" "pool_loops ?p1 = []" "baseLoop ?p1 = base"
    "numThreads ?p1 = (if 1 < sint threadCount then sint threadCount else 0)"
    by (simp_all add: EventLoopThreadPool_ctor_def pool_setThreadNum_def)
  note p = pool_start_cursor [OF p2 init(1,2)]
  show ?thesis
  proof (cases "1 < sint threadCount")
    case True
    then have loops: "pool_loops p2 = map loop_of [0..<nat (sint threadCount)]" using p(1) init(4) by simp
    then have "pool_loops p2 ! (j mod length (pool_loops p2)) = loop_of (j mod nat (sint threadCount))" for j
      using True by (simp add: nth_map_upt)
    then show ?thesis using True loops start_sessions_loops [OF loop, of p2 0] st0 p(2) by simp
  next
    case False
    then have "pool_loops p2 = []" using p(1) init(4) by simp
    then show ?thesis using False start_sessions_base [OF loop st0(1)] st0(2) p(3) init(3) by simp
  qed
qed

section \<open>What a session sends\<close>

lemma readable_pos: "buf_wf b \<Longrightarrow> 0 < readableBytes b \<longleftrightarrow> contents b \<noteq> []"
  using length_contents [of b] by (metis length_greater_0_conv unat_gt_0 word_gt_0)

lemma readable_length: "buf_wf b \<Longrightarrow> readableBytes b = of_nat (length (contents b))"
  by (simp del: unat_readableBytes)

lemma send_input_ok:
  assumes wf: "net_wf s" and os: "os_documented os" and tc: "conns s c = Some tc" "tc_state tc = kConnected"
    and run: "send_buffer os (threadId s) c (inputBuffer tc) s = Inr (buf, t)"
  shows "outgoing t c = outgoing s c @ (if dead_write (tc_socket tc) (contents (inputBuffer tc)) s t then [] else contents (inputBuffer tc))"
    and "contents buf = []" and "\<exists>tc'. conns t c = Some tc' \<and> tc_state tc' = kConnected"
proof -
  let ?b = "inputBuffer tc"
  have bw: "buf_wf ?b" using wf tc(1) by (rule net_wfD)
  have "outgoing t c = outgoing s c @ (if dead_write (tc_socket tc) (contents ?b) s t then [] else contents ?b) \<and> contents buf = [] \<and> (\<exists>tc'. conns t c = Some tc' \<and> tc_state tc' = kConnected)"
  proof (cases "contents ?b = []")
    case True
    then show ?thesis using run tc readable_pos [OF bw] by (auto simp: send_buffer_def)
  next
    case False
    have peek: "peek_bytes (unat (readableBytes ?b)) ?b = Inr (contents ?b)"
      using peek_bytes_contents [OF bw, of "length (contents ?b)"] length_contents [OF bw] by simp
    have s: "sendInLoop os c (contents ?b) s = Inr t" and buf: "buf = retrieveAll ?b"
      using run tc False readable_pos [OF bw] peek by (auto simp: send_buffer_def isInLoopThread_def result_simps)
    have len: "length (contents ?b) < 2 ^ 63" using buf_wfD(6) [OF bw] by (simp add: contents_def)
    have st: "tc_state tc \<noteq> kDisconnected" using tc(2) by simp
    note so = sendInLoop_outgoing [OF wf os tc(1) st len s]
    show ?thesis using so tc(2) buf by auto
  qed
  then show "outgoing t c = outgoing s c @ (if dead_write (tc_socket tc) (contents ?b) s t then [] else contents ?b)" "contents buf = []"
    "\<exists>tc'. conns t c = Some tc' \<and> tc_state tc' = kConnected" by blast+
qed

lemma pp_upd_fields [simp]:
  "loops (put_loop l s st) = (loops st)(l := s)" "pp (put_loop l s st) = pp st"
  "loops (put_session i ss st) = loops st" "pp_sessions (pp (put_session i ss st)) = (pp_sessions (pp st))[i := ss]"
  "numConnected (pp (put_session i ss st)) = numConnected (pp st)"
  by (simp_all add: put_loop_def put_session_def)

text \<open>
  C34. A session of the pingpong client. When its connection is up, it sends the whole message (of less than \<open>2 ^ 31\<close> bytes) and is counted. Whatever arrives then is sent
  back, byte for byte and after what is still pending, the input is consumed, and the counters of the session grow by one message and
  by the number of bytes. What is sent is lost only when the kernel answers the \<open>write\<close> of it by \<open>EPIPE\<close> or \<open>ECONNRESET\<close>.
\<close>

theorem pingpong_session:
  assumes os: "os_documented os" and i: "i < length (pp_sessions (pp st))" and ss: "ss = pp_sessions (pp st) ! i"
    and s: "s = loops st (ss_loop ss)" and wf: "net_wf s" and tc: "conns s c = Some tc" "tc_state tc = kConnected"
  shows "(Session_onConnection os i c st = Inr st' \<longrightarrow> caller_mem s 0 = Some msg \<longrightarrow> length msg < 2 ^ 31 \<longrightarrow>
      (let s1 = s\<lparr>sys := Socket_setTcpNoDelay (tc_socket tc) True (sys s)\<rparr>; t = loops st' (ss_loop ss) in
       outgoing t c = outgoing s c @ (if dead_write (tc_socket tc) msg s1 t then [] else msg) \<and>
       numConnected (pp st') = numConnected (pp st) + 1)) \<and>
    (Session_onMessage os i c st = Inr st' \<longrightarrow>
      (let t = loops st' (ss_loop ss); data = contents (inputBuffer tc); n = of_nat (length data) in
       outgoing t c = outgoing s c @ (if dead_write (tc_socket tc) data s t then [] else data) \<and>
       (\<exists>tc'. conns t c = Some tc' \<and> contents (inputBuffer tc') = []) \<and>
       pp_sessions (pp st') ! i = ss\<lparr>messagesRead := messagesRead ss + 1, bytesRead := bytesRead ss + n, bytesWritten := bytesWritten ss + n\<rparr>))"
proof (intro conjI impI)
  assume run: "Session_onConnection os i c st = Inr st'" and msg: "caller_mem s 0 = Some msg" "length msg < 2 ^ 31"
  let ?s1 = "s\<lparr>sys := Socket_setTcpNoDelay (tc_socket tc) True (sys s)\<rparr>"
  obtain t where t: "send_string os (threadId s) c 0 ?s1 = Inr t"
    and st': "st' = put_loop (ss_loop ss) t (st\<lparr>pp := Client_onConnect (pp st)\<rparr>)"
    using run i ss s tc by (auto simp: Session_onConnection_def with_session_def TcpConnection_setTcpNoDelay_def connected_def
        Let_def result_simps)
  have same: "outgoing ?s1 c = outgoing s c" using tc(1) by (simp add: outgoing_def Socket_setTcpNoDelay_def Siren_Sockets.set_option_def)
  have "outgoing t c = outgoing s c @ (if dead_write (tc_socket tc) msg ?s1 t then [] else msg)"
  proof (cases "msg = []")
    case True
    then have "t = ?s1" using t msg(1) by (simp add: send_string_def send_ptr_def)
    then show ?thesis using same True by simp
  next
    case False
    have "send_string os (threadId s) c 0 ?s1 = sendInLoop os c msg ?s1"
      by (rule send_string_in_loop [of _ _ tc]) (use tc msg False in \<open>simp_all add: isInLoopThread_def\<close>)
    with t have run: "sendInLoop os c msg ?s1 = Inr t" by simp
    have "net_wf ?s1" "conns ?s1 c = Some tc" "tc_state tc \<noteq> kDisconnected" "length msg < 2 ^ 63" using wf tc msg(2) by simp_all
    from sendInLoop_outgoing(2) [OF this(1) os this(2-4) run] show ?thesis unfolding same .
  qed
  then show "let s1 = ?s1; t = loops st' (ss_loop ss) in
      outgoing t c = outgoing s c @ (if dead_write (tc_socket tc) msg s1 t then [] else msg) \<and>
      numConnected (pp st') = numConnected (pp st) + 1"
    using st' by (simp add: Client_onConnect_def Let_def)
next
  assume run: "Session_onMessage os i c st = Inr st'"
  let ?data = "contents (inputBuffer tc)"
  have bw: "buf_wf (inputBuffer tc)" using wf tc(1) by (rule net_wfD)
  from run i ss s tc readable_length [OF bw] obtain buf t tc1 where
    t: "send_buffer os (threadId s) c (inputBuffer tc) s = Inr (buf, t)" "conns t c = Some tc1"
    and st': "st' = put_loop (ss_loop ss) (put_conn c (tc1\<lparr>inputBuffer := buf\<rparr>) t) (put_session i (count_message (of_nat (length ?data)) ss) st)"
    by (auto simp: Session_onMessage_def with_session_def Let_def result_simps split: if_splits)
  note b = send_input_ok [OF wf os tc t(1)]
  let ?t = "loops st' (ss_loop ss)"
  have "dead_write (tc_socket tc) ?data s ?t = dead_write (tc_socket tc) ?data s t" using st' by (simp add: dead_write_def)
  then have "outgoing ?t c = outgoing s c @ (if dead_write (tc_socket tc) ?data s ?t then [] else ?data)"
    using b(1) t(2) st' by (simp add: outgoing_def)
  moreover have "\<exists>tc'. conns ?t c = Some tc' \<and> contents (inputBuffer tc') = []" using b(2) st' by simp
  moreover have "pp_sessions (pp st') ! i = count_message (of_nat (length ?data)) ss" using i st' by simp
  ultimately show "let t = ?t; data = ?data; n = of_nat (length data) in
       outgoing t c = outgoing s c @ (if dead_write (tc_socket tc) data s t then [] else data) \<and>
       (\<exists>tc'. conns t c = Some tc' \<and> contents (inputBuffer tc') = []) \<and>
       pp_sessions (pp st') ! i = ss\<lparr>messagesRead := messagesRead ss + 1, bytesRead := bytesRead ss + n, bytesWritten := bytesWritten ss + n\<rparr>"
    by (simp add: Let_def count_message_def)
qed

text \<open>
  The callbacks of a session as user code of the library: to its loop a callback does exactly these calls, so what is proved of
  connections for any user code holds for this program.
\<close>

fun pingpong_client :: "PingpongClient \<Rightarrow> app_call \<Rightarrow> 'm net_scheme \<Rightarrow> api_call list" where
  "pingpong_client me (App_connection k c) s =
     (case conns s c of
        None \<Rightarrow> []
      | Some tc \<Rightarrow> if connected tc then [Api_setTcpNoDelay c True, Api_send_string c 0]
          else if onDisconnect_load (onDisconnect_sub me) then [Api_queueInLoop 0] else [])"
| "pingpong_client me (App_message k c now) s = [Api_send_input c c]"
| "pingpong_client me _ s = []"

lemma session_user_code:
  assumes "i < length (pp_sessions (pp st))" and "l = ss_loop (pp_sessions (pp st) ! i)"
  shows "Session_onConnection os i c st = Inr st' \<Longrightarrow>
      run_app os (pingpong_client (pp st)) (App_connection k c) (loops st l) = Inr (loops st' l)"
    and "Session_onMessage os i c st = Inr st' \<Longrightarrow>
      run_app os (pingpong_client (pp st)) (App_message k c now) (loops st l) = Inr (loops st' l)"
proof -
  show "run_app os (pingpong_client (pp st)) (App_connection k c) (loops st l) = Inr (loops st' l)"
    if "Session_onConnection os i c st = Inr st'"
    using that assms
    by (auto simp: Session_onConnection_def with_session_def run_app_def Let_def result_simps Client_onDisconnect_def put_loop_def
        TcpConnection_setTcpNoDelay_def)
  show "run_app os (pingpong_client (pp st)) (App_message k c now) (loops st l) = Inr (loops st' l)"
    if "Session_onMessage os i c st = Inr st'"
    using that assms
    by (auto simp: Session_onMessage_def with_session_def run_app_def Let_def result_simps split: if_splits)
qed

section \<open>Stopping\<close>

lemma shutdownInLoop_clients:
  fixes s t :: "'m clnet_scheme"
  assumes "shutdownInLoop c s = Inr t"
  shows "clients t = clients s"
proof -
  from assms obtain tc ch where "conns s c = Some tc" "chans s (tc_channel tc) = Some ch" by (auto simp: shutdownInLoop_def result_simps)
  with assms show ?thesis by (simp add: shutdownInLoop_def split: if_splits) auto
qed

lemma shutdown_clients:
  fixes s t :: "'m clnet_scheme"
  assumes "shutdown tid c s = Inr t"
  shows "clients t = clients s"
proof -
  obtain tc where tc: "conns s c = Some tc" using assms by (auto simp: shutdown_def result_simps)
  let ?u = "put_conn c (setState kDisconnecting tc) s"
  have u: "clients ?u = clients s" by (simp add: put_conn_def)
  show ?thesis
  proof (cases "tc_state tc = kConnected")
    case False
    then show ?thesis using assms tc by (simp add: shutdown_def)
  next
    case True
    then have "runInLoop (\<lambda>f. shutdownInLoop c) tid (Some (Fn_shutdownInLoop c)) ?u = Inr t" using assms tc by (simp add: shutdown_def)
    then show ?thesis using u shutdownInLoop_clients [of c ?u t] by (cases "isInLoopThread tid ?u") (auto simp: runInLoop_def)
  qed
qed

lemma Session_stop_clients:
  assumes "Session_stop tid v s = Inr t"
  obtains cl where "clients s v = Some cl" "clients t = (clients s)(v \<mapsto> cl\<lparr>cl_connect := False\<rparr>)"
proof -
  obtain cl where cl: "clients s v = Some cl" using assms by (auto simp: Session_stop_def TcpClient_disconnect_def result_simps)
  let ?u = "put_client v (cl\<lparr>cl_connect := False\<rparr>) s"
  have "clients t = clients ?u"
    using assms cl shutdown_clients [of tid _ ?u t]
    by (cases "cl_connection cl") (simp_all add: Session_stop_def TcpClient_disconnect_def Let_def)
  with cl show thesis by (intro that) simp_all
qed

text \<open>When the timer has fired, no client of a session wants a connection any more.\<close>

definition stopped :: "Session \<Rightarrow> pp_state \<Rightarrow> bool" where
  "stopped ss st \<longleftrightarrow> (\<exists>cl. clients (loops st (ss_loop ss)) (ss_client ss) = Some cl \<and> \<not> cl_connect cl)"

lemma stop_session_stops:
  assumes run: "stop_session tid q u = Inr v" and r: "stopped r u \<or> r = q"
  shows "stopped r v"
proof -
  obtain s1 where s1: "Session_stop tid (ss_client q) (loops u (ss_loop q)) = Inr s1" and v: "v = put_loop (ss_loop q) s1 u"
    using run by (auto simp: stop_session_def rbind_eq_Inr)
  from s1 obtain cl where cl: "clients s1 = (clients (loops u (ss_loop q)))(ss_client q \<mapsto> cl\<lparr>cl_connect := False\<rparr>)"
    by (rule Session_stop_clients)
  have "clients (loops v l) x = (if l = ss_loop q \<and> x = ss_client q then Some (cl\<lparr>cl_connect := False\<rparr>) else clients (loops u l) x)" for l x
    by (simp add: v cl)
  then show ?thesis using r unfolding stopped_def by (elim disjE exE) simp_all
qed

lemma stop_sessions_stop:
  "rfold (stop_session tid) xs u = Inr t \<Longrightarrow> stopped ss u \<or> ss \<in> set xs \<Longrightarrow> stopped ss t"
proof (induction xs arbitrary: u)
  case (Cons x xs)
  then obtain v where v: "stop_session tid x u = Inr v" "rfold (stop_session tid) xs v = Inr t" by (auto simp: rbind_eq_Inr)
  have "stopped ss v \<or> ss \<in> set xs" using stop_session_stops [OF v(1), of ss] Cons.prems(2) by auto
  with v(2) show ?case by (rule Cons.IH)
qed simp

lemma handleTimeout_stops: "handleTimeout tid st = Inr st' \<Longrightarrow> ss \<in> set (pp_sessions (pp st)) \<Longrightarrow> stopped ss st'"
  unfolding handleTimeout_def by (rule stop_sessions_stop) blast+

text \<open>With a time of 2048 seconds or more, the report of the throughput overflows before \<open>quit\<close> is queued.\<close>

lemma long_timeout_overflows:
  assumes "numConnected (pp st) = 1" and "Client_totals (onDisconnect_sub (pp st)) = Inr totals" and "2048 \<le> sint (pp_timeout (pp st))"
  shows "Client_onDisconnect l st = Inl Signed_overflow"
  using assms by (simp add: Client_onDisconnect_def onDisconnect_load_def onDisconnect_sub_def onDisconnect_report_def throughput_divisor_def Let_def)

section \<open>Quitting\<close>

text \<open>
  The life of the sessions as steps of several threads: a session connects, counts the messages it gets, and later disconnects, first decrementing the counter and then
  reading it; when it reads zero, it computes the report and queues \<open>Client::quit\<close>. Each session has one connection in its life, for its client does not
  retry. \<open>quits\<close> counts how often \<open>Client::quit\<close> was queued. When the report overflows, the thread has left defined behaviour: it is at \<open>Sp_undefined\<close>, with the client it
  reported on, and queues nothing. (The report reads the counters of the other sessions in one step.)
\<close>

datatype session_phase = Sp_idle | Sp_up | Sp_leaving | Sp_down | Sp_undefined PingpongClient

record pp_run =
  shared :: PingpongClient
  phase_of :: "nat \<Rightarrow> session_phase"
  quits :: nat

definition session_total :: "PingpongClient \<Rightarrow> nat" where
  "session_total me = nat (sint (pp_sessionCount me))"

definition run_message_step :: "nat \<Rightarrow> 64 word \<Rightarrow> PingpongClient \<Rightarrow> PingpongClient" where
  "run_message_step i n me = me\<lparr>pp_sessions := (pp_sessions me)[i := count_message n (pp_sessions me ! i)]\<rparr>"

definition run_load_step :: "nat \<Rightarrow> pp_run \<Rightarrow> pp_run" where
  "run_load_step i r =
     (if onDisconnect_load (shared r)
      then (case onDisconnect_report (shared r) of
              Inl e \<Rightarrow> r\<lparr>phase_of := (phase_of r)(i := Sp_undefined (shared r))\<rparr>
            | Inr d \<Rightarrow> r\<lparr>phase_of := (phase_of r)(i := Sp_down), quits := quits r + 1\<rparr>)
      else r\<lparr>phase_of := (phase_of r)(i := Sp_down)\<rparr>)"

inductive pp_run_step :: "pp_run \<Rightarrow> pp_run \<Rightarrow> bool" where
  run_up: "i < session_total (shared r) \<Longrightarrow> phase_of r i = Sp_idle \<Longrightarrow>
    pp_run_step r (r\<lparr>shared := Client_onConnect (shared r), phase_of := (phase_of r)(i := Sp_up)\<rparr>)"
| run_message: "i < session_total (shared r) \<Longrightarrow> phase_of r i = Sp_up \<Longrightarrow> sint (messagesRead (pp_sessions (shared r) ! i)) \<noteq> 2 ^ 63 - 1 \<Longrightarrow>
    pp_run_step r (r\<lparr>shared := run_message_step i n (shared r)\<rparr>)"
| run_sub: "i < session_total (shared r) \<Longrightarrow> phase_of r i = Sp_up \<Longrightarrow>
    pp_run_step r (r\<lparr>shared := onDisconnect_sub (shared r), phase_of := (phase_of r)(i := Sp_leaving)\<rparr>)"
| run_load: "i < session_total (shared r) \<Longrightarrow> phase_of r i = Sp_leaving \<Longrightarrow> pp_run_step r (run_load_step i r)"

text \<open>A session that is through with \<open>onDisconnect\<close>; a client whose report overflows.\<close>

fun ended :: "session_phase \<Rightarrow> bool" where
  "ended Sp_down = True"
| "ended (Sp_undefined me) = True"
| "ended _ = False"

definition overflows :: "PingpongClient \<Rightarrow> bool" where
  "overflows me \<longleftrightarrow> Client_totals me = Inl Signed_overflow \<or> sint (pp_timeout me) < - 2048 \<or> 2047 < sint (pp_timeout me)"

lemma totals_error:
  "rfold (\<lambda>ss (b, m). rbind (add_int64 b (bytesRead ss)) (\<lambda>b1. rbind (add_int64 m (messagesRead ss)) (\<lambda>m1. Inr (b1, m1)))) xs p = Inl e \<Longrightarrow>
   e = Signed_overflow"
  by (induction xs arbitrary: p) (auto simp: add_int64_def rbind_def split: sum.splits if_splits prod.splits)

lemma report_error: "onDisconnect_report me = Inl e \<Longrightarrow> overflows me"
  using totals_error [of "pp_sessions me" "(0, 0)"]
  by (auto simp: onDisconnect_report_def overflows_def Client_totals_def throughput_divisor_def rbind_def Let_def split: sum.splits if_splits)

definition pp_run_start :: "cint \<Rightarrow> pp_run \<Rightarrow> bool" where
  "pp_run_start num0 r \<longleftrightarrow> numConnected (shared r) = num0 \<and> phase_of r = (\<lambda>i. Sp_idle) \<and> quits r = 0"

definition up_count :: "pp_run \<Rightarrow> nat" where
  "up_count r = card {i. i < session_total (shared r) \<and> phase_of r i = Sp_up}"

definition run_ok :: "cint \<Rightarrow> pp_run \<Rightarrow> bool" where
  "run_ok num0 r \<longleftrightarrow> numConnected (shared r) = num0 + of_nat (up_count r) \<and> (\<forall>i me. phase_of r i = Sp_undefined me \<longrightarrow> overflows me) \<and>
     (num0 = 0 \<and> 0 < session_total (shared r) \<and> (\<forall>i < session_total (shared r). ended (phase_of r i)) \<longrightarrow>
        0 < quits r \<or> (\<exists>i < session_total (shared r). \<exists>me. phase_of r i = Sp_undefined me))"

lemma session_total_upd [simp]:
  "session_total (Client_onConnect me) = session_total me" "session_total (onDisconnect_sub me) = session_total me"
  "numConnected (Client_onConnect me) = numConnected me + 1" "numConnected (onDisconnect_sub me) = numConnected me - 1"
  "session_total (run_message_step i n me) = session_total me" "numConnected (run_message_step i n me) = numConnected me"
  by (simp_all add: session_total_def Client_onConnect_def onDisconnect_sub_def run_message_step_def)

lemma session_total_bound: "session_total me < 2 ^ 31"
  using sint_lt [of "pp_sessionCount me"] by (simp add: session_total_def nat_less_iff)

lemma up_set_upd:
  assumes "i < n"
  shows "{j. j < n \<and> (f(i := ph)) j = Sp_up} =
    (if ph = Sp_up then insert i {j. j < n \<and> f j = Sp_up} else {j. j < n \<and> f j = Sp_up} - {i})"
  using assms by auto

lemma up_count_le: "up_count r \<le> session_total (shared r)"
proof -
  have "card {i. i < session_total (shared r) \<and> phase_of r i = Sp_up} \<le> card {i. i < session_total (shared r)}" by (rule card_mono) auto
  then show ?thesis by (simp add: up_count_def)
qed

lemma up_count_word: "(of_nat (up_count r) :: cint) = 0 \<longleftrightarrow> up_count r = 0"
  using up_count_le [of r] session_total_bound [of "shared r"] by (auto simp: word_of_nat_eq_0_iff dest: dvd_imp_le)

lemma run_load_cases:
  obtains (silent) "\<not> onDisconnect_load (shared r)" "run_load_step i r = r\<lparr>phase_of := (phase_of r)(i := Sp_down)\<rparr>"
  | (reported) "onDisconnect_load (shared r)" "run_load_step i r = r\<lparr>phase_of := (phase_of r)(i := Sp_down), quits := quits r + 1\<rparr>"
  | (failed) "onDisconnect_load (shared r)" "overflows (shared r)"
      "run_load_step i r = r\<lparr>phase_of := (phase_of r)(i := Sp_undefined (shared r))\<rparr>"
  using report_error [of "shared r"] by (cases "onDisconnect_report (shared r)"; cases "onDisconnect_load (shared r)") (auto simp: run_load_step_def)

lemma run_step_ok:
  assumes step: "pp_run_step r r'" and ok: "run_ok num0 r"
  shows "run_ok num0 r'"
  using step
proof cases
  case (run_up i)
  have "up_count r' = up_count r + 1"
    using run_up by (simp add: up_count_def up_set_upd card_insert_if del: fun_upd_apply)
  then show ?thesis using ok run_up by (auto simp: run_ok_def)
next
  case (run_message i n)
  then show ?thesis using ok by (auto simp: run_ok_def up_count_def)
next
  case (run_sub i)
  let ?up = "{j. j < session_total (shared r) \<and> phase_of r j = Sp_up}"
  have "up_count r' = card (?up - {i})" using run_sub by (simp add: up_count_def up_set_upd del: fun_upd_apply)
  moreover have "card ?up = Suc (card (?up - {i}))" using run_sub by (intro card.remove) simp_all
  ultimately have "up_count r = up_count r' + 1" by (simp add: up_count_def)
  then show ?thesis using ok run_sub by (auto simp: run_ok_def)
next
  case (run_load i)
  have i: "i < session_total (shared r)" "phase_of r i \<noteq> Sp_up" using run_load by simp_all
  have same: "shared r' = shared r" using run_load by (cases rule: run_load_cases [of r i]) simp_all
  have phase: "\<exists>ph. phase_of r' = (phase_of r)(i := ph) \<and> ph \<noteq> Sp_up" using run_load by (cases rule: run_load_cases [of r i]) auto
  then have up: "up_count r' = up_count r" using i same by (auto simp: up_count_def up_set_upd simp del: fun_upd_apply)
  have und: "overflows me" if "phase_of r' j = Sp_undefined me" for j me
    using that ok run_load by (cases rule: run_load_cases [of r i]) (auto simp: run_ok_def split: if_splits)
  have "0 < quits r' \<or> (\<exists>j < session_total (shared r). \<exists>me. phase_of r' j = Sp_undefined me)"
    if all: "num0 = 0" "\<forall>j < session_total (shared r'). ended (phase_of r' j)"
  proof -
    have "phase_of r' j \<noteq> Sp_up" if "j < session_total (shared r')" for j using all(2) that by force
    then have "up_count r' = 0" by (simp add: up_count_def)
    then have "onDisconnect_load (shared r)" using ok up all(1) by (simp add: run_ok_def onDisconnect_load_def)
    then show ?thesis using run_load i(1) by (cases rule: run_load_cases [of r i]) auto
  qed
  then show ?thesis using ok up same und by (simp add: run_ok_def)
qed

interpretation pp_runs: inductive_invariant "pp_run_start num0" pp_run_step "run_ok num0" for num0
proof
  show "run_ok num0 r" if "pp_run_start num0 r" for r using that by (auto simp: pp_run_start_def run_ok_def up_count_def)
  show "run_ok num0 r'" if "run_ok num0 r" "pp_run_step r r'" for r r' using that(2,1) by (rule run_step_ok)
qed

text \<open>
  C35. The pingpong client quits. If the counter starts at zero, then in every interleaving of the threads it counts the sessions that are up, and
  when all sessions have come down, at least one of them has seen zero and queued \<open>Client::quit\<close>, although
  each decrements and reads the counter in two steps; unless the thread that saw zero overflowed in the report before that: the totals do not fit \<open>int64_t\<close>, or
  the time is not between -2048 and 2047 seconds, so that \<open>timeout_ * 1024 * 1024\<close> does not fit \<open>int\<close>.
\<close>

theorem pingpong_quits:
  assumes "reachable_from (pp_run_start 0) pp_run_step r"
  shows "numConnected (shared r) = of_nat (up_count r) \<and> up_count r < 2 ^ 31 \<and>
    (0 < session_total (shared r) \<and> (\<forall>i < session_total (shared r). ended (phase_of r i)) \<longrightarrow>
       0 < quits r \<or>
       (\<exists>i < session_total (shared r). \<exists>me. phase_of r i = Sp_undefined me \<and>
          (Client_totals me = Inl Signed_overflow \<or> sint (pp_timeout me) < - 2048 \<or> 2047 < sint (pp_timeout me))))"
  using pp_runs.reachable_inv [OF assms] up_count_le [of r] session_total_bound [of "shared r"]
  unfolding run_ok_def overflows_def [symmetric] by auto

text \<open>
  The counter is not initialised. If it starts with a positive value instead (and the sum fits an \<open>int\<close>), no session ever sees zero and the client never quits.
\<close>

definition never_zero :: "cint \<Rightarrow> pp_run \<Rightarrow> bool" where
  "never_zero num0 r \<longleftrightarrow> numConnected (shared r) = num0 + of_nat (up_count r) \<and> quits r = 0 \<and>
     (\<forall>i me. phase_of r i = Sp_undefined me \<longrightarrow> overflows me) \<and>
     unat num0 + session_total (shared r) < 2 ^ 31"

lemma never_zero_step:
  assumes num0: "num0 \<noteq> 0" and step: "pp_run_step r r'" and inv: "never_zero num0 r"
  shows "never_zero num0 r'"
proof -
  have "run_ok num0 r" using inv num0 by (simp add: never_zero_def run_ok_def)
  with step have ok: "run_ok num0 r'" by (rule run_step_ok)
  have total: "session_total (shared r') = session_total (shared r)" using step by cases (simp_all add: run_load_step_def split: sum.split)
  have bound: "unat num0 + up_count r < 2 ^ 31" "0 < unat num0"
    using inv up_count_le [of r] num0 by (auto simp: never_zero_def unat_gt_0)
  have "unat (num0 + of_nat (up_count r)) = unat num0 + up_count r"
    using bound by (simp add: unat_word_ariths unat_of_nat)
  then have "num0 + of_nat (up_count r) \<noteq> 0" using bound(2) by (metis add_is_0 neq0_conv unat_0)
  then have "\<not> onDisconnect_load (shared r)" using inv by (simp add: never_zero_def onDisconnect_load_def)
  moreover have "quits r = 0" using inv by (simp add: never_zero_def)
  ultimately have "quits r' = 0" by (rule_tac pp_run_step.cases [OF step]) (simp_all add: run_load_step_def)
  then show ?thesis using ok total inv by (simp add: never_zero_def run_ok_def)
qed

lemma uninitialised_counter_never_quits:
  assumes "reachable_from (\<lambda>r. pp_run_start num0 r \<and> unat num0 + session_total (shared r) < 2 ^ 31) pp_run_step r" and "num0 \<noteq> 0"
  shows "quits r = 0"
proof -
  have "never_zero num0 r" using assms(1)
  proof induction
    case (reach_init r)
    then show ?case by (simp add: never_zero_def pp_run_start_def up_count_def)
  next
    case (reach_step r r')
    then show ?case using never_zero_step [OF assms(2)] by blast
  qed
  then show ?thesis by (simp add: never_zero_def)
qed

section \<open>Witnesses\<close>

definition sample_pp :: PingpongClient where
  "sample_pp = \<lparr>pp_loop = 7, pp_threadPool = EventLoopThreadPool_ctor 7 ''p'', pp_sessionCount = 1, pp_timeout = 10,
     pp_sessions = [\<lparr>ss_loop = 7, ss_client = 0, bytesRead = 0, bytesWritten = 0, messagesRead = 0\<rparr>],
     pp_message = [1, 2, 3], numConnected = 0\<rparr>"

definition sample_run :: "cint \<Rightarrow> pp_run" where
  "sample_run n = \<lparr>shared = sample_pp\<lparr>pp_sessionCount := n\<rparr>, phase_of = (\<lambda>i. Sp_idle), quits = 0\<rparr>"

lemma first_session_down:
  fixes n :: cint
  assumes "0 < sint n"
  obtains r where "reachable_from (pp_run_start 0) pp_run_step r" "session_total (shared r) = nat (sint n)" "quits r = 1"
    "phase_of r = (\<lambda>i. Sp_idle)(0 := Sp_down)"
proof -
  let ?r0 = "sample_run n"
  let ?r1 = "?r0\<lparr>shared := Client_onConnect (shared ?r0), phase_of := (phase_of ?r0)(0 := Sp_up)\<rparr>"
  let ?r2 = "?r1\<lparr>shared := onDisconnect_sub (shared ?r1), phase_of := (phase_of ?r1)(0 := Sp_leaving)\<rparr>"
  let ?r3 = "run_load_step 0 ?r2"
  have n: "session_total (sample_pp\<lparr>pp_sessionCount := n\<rparr>) = nat (sint n)" by (simp add: session_total_def)
  have "pp_run_start 0 ?r0" by (simp add: pp_run_start_def sample_run_def sample_pp_def)
  then have r0: "reachable_from (pp_run_start 0) pp_run_step ?r0" by (rule reach_init)
  have "pp_run_step ?r0 ?r1" by (rule run_up) (use assms n in \<open>simp_all add: sample_run_def\<close>)
  with r0 have r1: "reachable_from (pp_run_start 0) pp_run_step ?r1" by (rule reach_step)
  have "pp_run_step ?r1 ?r2" by (rule run_sub) (use assms n in \<open>simp_all add: sample_run_def\<close>)
  with r1 have r2: "reachable_from (pp_run_start 0) pp_run_step ?r2" by (rule reach_step)
  have "pp_run_step ?r2 ?r3" by (rule run_load) (use assms n in \<open>simp_all add: sample_run_def\<close>)
  with r2 have r3: "reachable_from (pp_run_start 0) pp_run_step ?r3" by (rule reach_step)
  have "onDisconnect_load (shared ?r2)" by (simp add: sample_run_def onDisconnect_load_def sample_pp_def)
  moreover have "\<exists>d. onDisconnect_report (shared ?r2) = Inr d"
    by (simp add: sample_run_def sample_pp_def onDisconnect_report_def Client_totals_def throughput_divisor_def add_int64_def
        onDisconnect_sub_def Client_onConnect_def)
  ultimately have "?r3 = ?r2\<lparr>phase_of := (phase_of ?r2)(0 := Sp_down), quits := quits ?r2 + 1\<rparr>" by (auto simp: run_load_step_def)
  then show thesis using n r3 by (intro that [of ?r3]) (simp_all add: sample_run_def)
qed

theorem pingpong_quits_witness:
  "\<exists>r. reachable_from (pp_run_start 0) pp_run_step r \<and> session_total (shared r) = 1 \<and> phase_of r 0 = Sp_down \<and> 0 < quits r"
proof (rule first_session_down [of 1])
  fix r
  assume r: "reachable_from (pp_run_start 0) pp_run_step r" "session_total (shared r) = nat (sint (1 :: cint))"
    "phase_of r = (\<lambda>i. Sp_idle)(0 := Sp_down)"
  then show ?thesis using pingpong_quits [OF r(1)] by (intro exI [of _ r]) simp
qed simp

text \<open>The counter is also back at zero when the first session comes down before the second one is up: the client then quits early.\<close>

lemma pingpong_quits_early:
  "\<exists>r. reachable_from (pp_run_start 0) pp_run_step r \<and> session_total (shared r) = 2 \<and> phase_of r 1 = Sp_idle \<and> quits r = 1"
proof (rule first_session_down [of 2])
  fix r
  assume "reachable_from (pp_run_start 0) pp_run_step r" "session_total (shared r) = nat (sint (2 :: cint))" "quits r = 1"
    "phase_of r = (\<lambda>i. Sp_idle)(0 := Sp_down)"
  then show ?thesis by (intro exI [of _ r]) simp
qed simp

text \<open>The first session of a client whose connection, with the number 9, is up.\<close>

definition session_net :: clnet where
  "session_net = cnet.extend (net.extend (sample_net empty_buffer) \<lparr>connectors = Map.empty\<rparr>) \<lparr>clients = Map.empty\<rparr>"

definition session_state :: pp_state where
  "session_state = \<lparr>pp = sample_pp, loops = (\<lambda>l. session_net)\<rparr>"

lemma session_net_fields:
  "conns session_net = [9 \<mapsto> sample_conn empty_buffer]" "caller_mem session_net = [0 \<mapsto> [65, 66]]" "net_wf session_net"
proof -
  let ?s = "sample_net empty_buffer"
  have f: "chans session_net = chans ?s" "channels session_net = channels ?s" "epoll_log session_net = epoll_log ?s"
    "loop_id session_net = loop_id ?s" "conns session_net = conns ?s" "caller_mem session_net = caller_mem ?s"
    by (simp_all add: session_net_def cnet.defs net.defs)
  then show "conns session_net = [9 \<mapsto> sample_conn empty_buffer]" "caller_mem session_net = [0 \<mapsto> [65, 66]]"
    by (simp_all add: sample_net_fields)
  show "net_wf session_net" using net_wf_cong [OF f(1-5)] sample_net_wf [OF empty_buffer_ok(1)] by simp
qed

theorem pingpong_session_witness:
  "os_documented sample_os \<and> net_wf (loops session_state 7) \<and>
   (\<exists>st'. Session_onConnection sample_os 0 9 session_state = Inr st' \<and>
      outgoing (loops st' 7) 9 = outgoing (loops session_state 7) 9 @ [65, 66] \<and> numConnected (pp st') = 1) \<and>
   (\<exists>st'. Session_onMessage sample_os 0 9 session_state = Inr st' \<and> messagesRead (pp_sessions (pp st') ! 0) = 1)"
proof -
  let ?ss = "\<lparr>ss_loop = 7, ss_client = 0, bytesRead = 0, bytesWritten = 0, messagesRead = 0\<rparr> :: Session"
  have st: "0 < length (pp_sessions (pp session_state))" "?ss = pp_sessions (pp session_state) ! 0"
    "session_net = loops session_state (ss_loop ?ss)" "numConnected (pp session_state) = 0"
    by (simp_all add: session_state_def sample_pp_def)
  have tc: "conns session_net 9 = Some (sample_conn empty_buffer)" "tc_state (sample_conn empty_buffer) = kConnected"
    by (simp_all add: session_net_fields sample_conn_fields)
  let ?s1 = "session_net\<lparr>sys := Socket_setTcpNoDelay (tc_socket (sample_conn empty_buffer)) True (sys session_net)\<rparr>"
  have "case Session_onConnection sample_os 0 9 session_state of
      Inl e \<Rightarrow> False | Inr st' \<Rightarrow> \<not> dead_write (tc_socket (sample_conn empty_buffer)) [65, 66] ?s1 (loops st' 7)" by code_simp
  then obtain st1 where st1: "Session_onConnection sample_os 0 9 session_state = Inr st1"
    "\<not> dead_write (tc_socket (sample_conn empty_buffer)) [65, 66] ?s1 (loops st1 7)"
    by (auto split: sum.splits)
  have "\<not> isl (Session_onMessage sample_os 0 9 session_state)" by code_simp
  then obtain st2 where st2: "Session_onMessage sample_os 0 9 session_state = Inr st2" by (metis sum.collapse(2))
  note session = pingpong_session [OF sample_os_ok st(1-3) session_net_fields(3) tc]
  have "outgoing (loops st1 7) 9 = outgoing session_net 9 @ [65, 66]" "numConnected (pp st1) = 1"
    using session [of st1 "[65, 66]"] st1 st(4) by (simp_all add: session_net_fields Let_def)
  moreover have "messagesRead (pp_sessions (pp st2) ! 0) = 1"
    using session [of st2] st2 by (simp add: Let_def)
  ultimately show ?thesis using sample_os_ok st(3) st1 st2 session_net_fields(3) by simp
qed

text \<open>A client with two threads, whose loops are 30 and 31, and three sessions.\<close>

definition ctor_loops :: "nat \<Rightarrow> clnet" where
  "ctor_loops l = session_net\<lparr>loop_id := l, threadId := (if l = 7 then 3 else l)\<rparr>"

definition ctor_result :: "pp_state result" where
  "ctor_result = Client_ctor (\<lambda>k. 30 + k) 1000 1000 3 7 zero_addr 4 3 10 2 0
     (\<lambda>i. \<lparr>at_sockfd = 11, at_error = EINPROGRESS, at_chan = 5, at_now = 0, at_now2 = 0\<rparr>) ctor_loops"

theorem pingpong_sessions_witness:
  "\<exists>st. ctor_result = Inr st \<and> map ss_loop (pp_sessions (pp st)) = [30, 31, 30]"
proof -
  have "\<not> isl ctor_result" by code_simp
  then obtain st where st: "ctor_result = Inr st" by (metis sum.collapse(2))
  have "map (\<lambda>j. if 1 < sint (2 :: cint) then 30 + j mod nat (sint (2 :: cint)) else 7) [0..<nat (sint (3 :: cint))] = [30, 31, 30]"
    by (simp add: upt_rec)
  with pingpong_sessions [OF st [unfolded ctor_result_def]] st show ?thesis by (intro exI [of _ st]) simp
qed

end
