(* ===== verification/Siren_Bench.thy ===== *)
theory Siren_Bench
  imports Siren_EventLoop
begin

text \<open>
  The benchmark \<open>example/pingpong/bench.cc\<close>, a complete program on one event loop: a ring of socket pairs around which a number of one-byte messages travel. The
  callback of a readable pair passes a message on to the next pair until enough were passed on, and ends the loop when as many messages were
  received as sent. \<open>main\<close> builds the ring, runs it 25 times and takes it down.

  \<open>bench\<close> adds the global variables to the state of the loop, and \<open>in_pipe\<close>, what the kernel holds: how many bytes wait at the reading end
  \<open>g_pipes[2 * i]\<close> of each pair, which are those that were written to \<open>g_pipes[2 * i + 1]\<close>. The sockets block, so \<open>recv\<close> on an empty pair never
  returns, nor does \<open>send\<close> on a pair that holds as many messages as the kernel has room for, \<open>sock_cap\<close>, a parameter. Channels live at the addresses from 2 on. The command line, the clock readings and \<open>setrlimit\<close>, whose failure
  is only printed, are not modelled; \<open>numPipes * 2 + 50\<close>, its argument, is: like the counters it is an \<open>int\<close>, and what would overflow is an error. All other numbers are
  then in range.
\<close>

section \<open>State and operations\<close>

record bench = loop +
  g_pipes :: "fd list"
  in_pipe :: "nat list"
  g_channels :: "chan list"
  numPipes :: int
  numActive :: int
  numWrites :: int
  g_reads :: int
  g_writes :: int
  g_fired :: int
  sock_cap :: nat

text \<open>\<open>send(g_pipes[k], "m", 1, 0)\<close>; an even \<open>k\<close> would be a reading end, which is never written to.\<close>

definition send_byte :: "int \<Rightarrow> bench \<Rightarrow> bench result" where
  "send_byte k b =
     (if k < 0 \<or> int (length (g_pipes b)) \<le> k then Inl Out_of_bounds
      else let i = nat (k div 2)
           in if even k then Inr b
              else if sock_cap b \<le> in_pipe b ! i then Inl Never_returns
              else Inr (b\<lparr>in_pipe := (in_pipe b)[i := in_pipe b ! i + 1]\<rparr>))"

text \<open>The captured descriptor is that of the channel, \<open>g_pipes[2 * idx]\<close>.\<close>

definition readCallback_op :: "nat \<Rightarrow> bench \<Rightarrow> bench result" where
  "readCallback_op idx b =
     (if in_pipe b ! idx = 0 then Inl Never_returns
      else if g_reads b = 2 ^ 31 - 1 then Inl Signed_overflow
      else
        let b1 = b\<lparr>in_pipe := (in_pipe b)[idx := in_pipe b ! idx - 1], g_reads := g_reads b + 1\<rparr>;
            widx = (if numPipes b \<le> int idx + 1 then int idx + 1 - numPipes b else int idx + 1)
        in rbind (if 0 < g_writes b1
                  then rbind (send_byte (2 * widx + 1) b1) (\<lambda>b2.
                         if g_fired b2 = 2 ^ 31 - 1 then Inl Signed_overflow
                         else Inr (b2\<lparr>g_writes := g_writes b2 - 1, g_fired := g_fired b2 + 1\<rparr>))
                  else Inr b1) (\<lambda>b3.
           Inr (if g_fired b3 = g_reads b3 then EventLoop_quit (threadId b3) b3 else b3)))"

fun bench_exec :: "chan_callback \<Rightarrow> bench \<Rightarrow> bench result" where
  "bench_exec (User_callback idx) b = readCallback_op idx b"
| "bench_exec EventLoop_handleRead b = Inr (EventLoop_handleRead_op b)"
| "bench_exec _ b = Inr b"

text \<open>\<open>runOnce\<close>: every channel gets its callback and is registered, the first messages are sent, the counters are set, the loop runs.\<close>

definition register_channel :: "nat \<Rightarrow> bench \<Rightarrow> bench result" where
  "register_channel i b =
     (if length (g_channels b) \<le> i then Inl Out_of_bounds
      else rbind (upd_chan (g_channels b ! i) (setReadCallback (Some (User_callback i))) b) (enableReading (g_channels b ! i)))"

definition send_first :: "bench \<Rightarrow> bench result" where
  "send_first b =
     (if numActive b = 0 then Inl Division_by_zero
      else
        let space = 2 * (numPipes b div numActive b) in
        rbind (rfold (\<lambda>i. send_byte (int i * space + 1)) [0..<nat (numActive b)] b) (\<lambda>b1.
          Inr (b1\<lparr>g_fired := numActive b, g_reads := 0, g_writes := numWrites b\<rparr>)))"

definition runOnce_begin :: "bench \<Rightarrow> bench result" where
  "runOnce_begin b = rbind (rfold register_channel [0..<nat (numPipes b)] b) send_first"

definition runOnce :: "(int \<times> (errno + (chan \<times> cint) list)) list \<Rightarrow> bench \<Rightarrow> bench result" where
  "runOnce answers b =
     rbind (runOnce_begin b) (EventLoop_loop bench_exec (\<lambda>_ _. True) (\<lambda>f. Inr) answers)"

text \<open>
  \<open>main\<close> before the runs, with the three numbers of the command line and the answers of \<open>socketpair\<close>, of which the first failure ends the program;
  a negative number of pairs is too large a \<open>size_t\<close> for \<open>g_pipes.resize\<close>. Then what \<open>main\<close> does after the runs.
\<close>

definition new_channel :: "nat \<Rightarrow> bench \<Rightarrow> bench" where
  "new_channel i b =
     put_chan (2 + i) (Channel_ctor (loop_id b) (g_pipes b ! (2 * i))) (b\<lparr>g_channels := g_channels b @ [2 + i]\<rparr>)"

definition bench_setup :: "nat \<Rightarrow> int \<Rightarrow> int \<Rightarrow> int \<Rightarrow> (nat \<Rightarrow> (fd \<times> fd) option) \<Rightarrow> nat \<Rightarrow> fd \<Rightarrow> fd \<Rightarrow> bench option result" where
  "bench_setup cap pipes active writes socketpair tid timerfd evtfd =
     (if pipes * 2 + 50 < - (2 ^ 31) \<or> 2 ^ 31 \<le> pipes * 2 + 50 then Inl Signed_overflow
      else if pipes < 0 then Inl Length_error
      else if list_ex (\<lambda>i. socketpair i = None) [0..<nat pipes] then Inr None
      else rbind (EventLoop_ctor 0 tid timerfd evtfd) (\<lambda>l.
        let fds = concat (map (\<lambda>i. case socketpair i of Some (x, y) \<Rightarrow> [x, y] | None \<Rightarrow> []) [0..<nat pipes]);
            b = loop.extend l \<lparr>g_pipes = fds, in_pipe = replicate (nat pipes) 0, g_channels = [], numPipes = pipes,
                  numActive = active, numWrites = writes, g_reads = 0, g_writes = 0, g_fired = 0, sock_cap = cap\<rparr>
        in Inr (Some (fold new_channel [0..<nat pipes] b))))"

definition bench_teardown :: "bench \<Rightarrow> bench result" where
  "bench_teardown b =
     rbind (rfold (\<lambda>c b. rbind (disableAll c b) (Channel_remove c)) (g_channels b) b) (\<lambda>b1.
     rbind (rfold (Channel_dtor (threadId b1)) (g_channels b1) b1) (\<lambda>b2. Inr (b2\<lparr>g_channels := []\<rparr>)))"

text \<open>The whole of \<open>main\<close>, given the answers of \<open>epoll_wait\<close> in each of the runs, of which there are 25; \<open>None\<close> is the early exit.\<close>

definition bench_main :: "nat \<Rightarrow> int \<Rightarrow> int \<Rightarrow> int \<Rightarrow> (nat \<Rightarrow> (fd \<times> fd) option) \<Rightarrow> nat \<Rightarrow> fd \<Rightarrow> fd \<Rightarrow>
    (int \<times> (errno + (chan \<times> cint) list)) list list \<Rightarrow> bench option result" where
  "bench_main cap pipes active writes socketpair tid timerfd evtfd runs =
     rbind (bench_setup cap pipes active writes socketpair tid timerfd evtfd) (\<lambda>start.
       case start of
         None \<Rightarrow> Inr None
       | Some b \<Rightarrow> rbind (rfold runOnce runs b) (\<lambda>b1. rbind (bench_teardown b1) (\<lambda>b2. Inr (Some b2))))"

section \<open>The ring of channels\<close>

text \<open>
  \<open>ring\<close>: the channels of the pairs, none of them tied, with no callback but for reading. \<open>listening K\<close>: those with the numbers in \<open>K\<close> are
  registered and their callback knows its pair.
\<close>

definition ring_chan :: "bench \<Rightarrow> nat \<Rightarrow> channel \<Rightarrow> bool" where
  "ring_chan b i ch \<longleftrightarrow> ch_fd ch = g_pipes b ! (2 * i) \<and> \<not> tied ch \<and> closeCallback ch = None \<and> errorCallback ch = None \<and>
     writeCallback ch = None \<and> fd_free b ch"

definition listens :: "nat \<Rightarrow> channel \<Rightarrow> bool" where
  "listens i ch \<longleftrightarrow> readCallback ch = Some (User_callback i) \<and> index ch = kAdded \<and> isReading ch"

definition ring :: "nat set \<Rightarrow> bench \<Rightarrow> bool" where
  "ring K b \<longleftrightarrow> loop_wf b \<and> numPipes b = int (length (in_pipe b)) \<and> length (g_channels b) = length (in_pipe b) \<and>
     length (g_pipes b) = 2 * length (in_pipe b) \<and> distinct (g_pipes b) \<and> distinct (g_channels b) \<and>
     (\<forall>i < length (in_pipe b). \<exists>ch. chans b (g_channels b ! i) = Some ch \<and> ring_chan b i ch \<and> (i \<in> K \<longrightarrow> listens i ch))"

lemma ring_chan_cong:
  assumes "ring_chan b i ch" and "ch_fd ch' = ch_fd ch" "index ch' = index ch" "tied ch' = tied ch" "closeCallback ch' = closeCallback ch"
    "errorCallback ch' = errorCallback ch" "writeCallback ch' = writeCallback ch" and "g_pipes b' = g_pipes b" "channels b' = channels b"
  shows "ring_chan b' i ch'"
  using assms by (auto simp: ring_chan_def fd_free_def)

lemma ringD:
  assumes "ring K b" and "i < length (in_pipe b)"
  obtains ch where "chans b (g_channels b ! i) = Some ch" "ring_chan b i ch" "i \<in> K \<longrightarrow> listens i ch"
  using assms by (auto simp: ring_def)

lemma ring_fd:
  assumes "ring K b" and "i < length (in_pipe b)" and "j < length (in_pipe b)" and "g_pipes b ! (2 * i) = g_pipes b ! (2 * j)"
  shows "i = j"
  using assms by (auto simp: ring_def nth_eq_iff_index_eq)

lemma ring_chan_eq:
  assumes "ring K b" and "i < length (in_pipe b)" and "j < length (in_pipe b)" and "g_channels b ! i = g_channels b ! j"
  shows "i = j"
  using assms by (auto simp: ring_def nth_eq_iff_index_eq)

text \<open>The ring only depends on the channels and on what does not change after the setup.\<close>

definition same_ring :: "bench \<Rightarrow> bench \<Rightarrow> bool" where
  "same_ring b b' \<longleftrightarrow> g_pipes b' = g_pipes b \<and> g_channels b' = g_channels b \<and> numPipes b' = numPipes b \<and>
     length (in_pipe b') = length (in_pipe b) \<and> sock_cap b' = sock_cap b \<and> numActive b' = numActive b \<and> numWrites b' = numWrites b \<and>
     loop_id b' = loop_id b \<and> threadId b' = threadId b \<and> pendingFunctors b' = pendingFunctors b"

lemma same_ring_refl [simp]: "same_ring b b"
  by (simp add: same_ring_def)

lemma same_ring_trans: "same_ring a b \<Longrightarrow> same_ring b c \<Longrightarrow> same_ring a c"
  by (simp add: same_ring_def)

lemma ring_cong:
  assumes "ring K b" and "same_ring b b'" and "chans b' = chans b" and "channels b' = channels b" and "epoll_log b' = epoll_log b"
  shows "ring K b'"
proof -
  have "loop_wf b' = loop_wf b"
    using assms poller_wf_cong [of b' b] by (simp add: loop_wf_def same_ring_def)
  then show ?thesis using assms by (simp add: ring_def same_ring_def ring_chan_def fd_free_def)
qed

lemma ring_put_chan:
  assumes r: "ring K b" and ch: "chans b (g_channels b ! i) = Some ch" and i: "i < length (in_pipe b)"
    and same: "same_registration ch ch'" "ownerLoop ch' = ownerLoop ch" "ring_chan b i ch'" "i \<in> K \<Longrightarrow> listens i ch'"
  shows "ring K (put_chan (g_channels b ! i) ch' b)"
proof -
  let ?b = "put_chan (g_channels b ! i) ch' b"
  have "loop_wf ?b"
    using r ch same(1,2) put_chan_wf [of b "g_channels b ! i" ch ch'] by (auto simp: ring_def loop_wf_def put_chan_def)
  moreover have "\<exists>x. chans ?b (g_channels ?b ! j) = Some x \<and> ring_chan ?b j x \<and> (j \<in> K \<longrightarrow> listens j x)"
    if "j < length (in_pipe ?b)" for j
  proof (cases "j = i")
    case True
    then show ?thesis using same(3,4) by (auto simp: put_chan_def ring_chan_def fd_free_def)
  next
    case False
    have j: "j < length (in_pipe b)" using that by (simp add: put_chan_def)
    from r j obtain x where "chans b (g_channels b ! j) = Some x" "ring_chan b j x" "j \<in> K \<longrightarrow> listens j x" by (rule ringD)
    then show ?thesis using False ring_chan_eq [OF r j i] by (auto simp: put_chan_def ring_chan_def fd_free_def)
  qed
  ultimately show ?thesis using r by (simp add: ring_def put_chan_def)
qed


text \<open>Registration, of a channel that is new or still registered from the run before.\<close>

lemma enableReading_ring:
  assumes r: "ring K b" and i: "i < length (in_pipe b)" and ch: "chans b (g_channels b ! i) = Some ch"
    and cb: "ring_chan b i ch" "readCallback ch = Some (User_callback i)"
  shows "\<exists>b'. enableReading (g_channels b ! i) b = Inr b' \<and> ring (insert i K) b' \<and> same_ring b b' \<and> in_pipe b' = in_pipe b \<and>
    eventHandling b' = eventHandling b"
proof -
  let ?c = "g_channels b ! i" and ?ev = "events ch OR kReadEvent"
  let ?b = "after_update ?c ch ?ev b"
  have wf: "loop_wf b" using r by (simp add: ring_def)
  have free: "fd_free b ch" using cb by (simp add: ring_chan_def)
  have run: "enableReading ?c b = Inr ?b" using channel_op_eq [OF wf ch free, of EnableReading] by simp
  have same: "g_channels ?b = g_channels b" "g_pipes ?b = g_pipes b" "in_pipe ?b = in_pipe b" "numPipes ?b = numPipes b"
    by (simp_all add: after_update_def)
  have "?ev \<noteq> kNoneEvent" by (simp add: kNoneEvent_def kReadEvent_def POLLIN_def POLLPRI_def or_eq_0_iff)
  then have new: "listens i (ch\<lparr>events := ?ev, addedToLoop := True, index := next_index ch ?ev\<rparr>)"
    using cb(2) by (simp add: listens_def next_index_def isReading_def has_flag_def bit.conj_disj_distrib2 kReadEvent_def POLLIN_def POLLPRI_def)
  have "\<exists>x. chans ?b (g_channels ?b ! j) = Some x \<and> ring_chan ?b j x \<and> (j \<in> insert i K \<longrightarrow> listens j x)"
    if j: "j < length (in_pipe ?b)" for j
  proof (cases "j = i")
    case True
    then show ?thesis using new cb(1) by (auto simp: after_update_def ring_chan_def fd_free_def next_index_def)
  next
    case False
    have j': "j < length (in_pipe b)" using j same by simp
    from r j' obtain x where x: "chans b (g_channels b ! j) = Some x" "ring_chan b j x" "j \<in> K \<longrightarrow> listens j x" by (rule ringD)
    have "g_channels b ! j \<noteq> ?c" using False ring_chan_eq [OF r j' i] by blast
    moreover have "ch_fd x \<noteq> ch_fd ch" using False ring_fd [OF r j' i] x(2) cb(1) by (auto simp: ring_chan_def)
    ultimately show ?thesis using x False by (auto simp: after_update_def ring_chan_def fd_free_def)
  qed
  moreover have "loop_wf ?b" using wf ch free by (rule after_update_loop_wf)
  ultimately have "ring (insert i K) ?b" using r same by (simp add: ring_def)
  with run show ?thesis by (simp add: same_ring_def after_update_def)
qed

lemma register_channel_ok:
  assumes r: "ring K b" and i: "i < length (in_pipe b)"
  shows "\<exists>b'. register_channel i b = Inr b' \<and> ring (insert i K) b' \<and> same_ring b b' \<and> in_pipe b' = in_pipe b \<and>
    eventHandling b' = eventHandling b"
proof -
  let ?c = "g_channels b ! i"
  from r i obtain ch where ch: "chans b ?c = Some ch" "ring_chan b i ch" "i \<in> K \<longrightarrow> listens i ch" by (rule ringD)
  let ?ch = "setReadCallback (Some (User_callback i)) ch"
  let ?b = "put_chan ?c ?ch b"
  have "ring_chan b i ?ch" using ch(2) by (rule ring_chan_cong) (simp_all add: setReadCallback_def)
  then have new: "same_registration ch ?ch" "ownerLoop ?ch = ownerLoop ch" "ring_chan b i ?ch" "readCallback ?ch = Some (User_callback i)"
    "listens i ch \<Longrightarrow> listens i ?ch"
    by (simp_all add: same_registration_def setReadCallback_def listens_def isReading_def)
  have "ring K ?b" using r ch(1) i new(1-3) by (rule ring_put_chan) (use ch(3) new(5) in blast)
  moreover have "i < length (in_pipe ?b)" "chans ?b (g_channels ?b ! i) = Some ?ch" using i by (simp_all add: put_chan_def)
  moreover have "ring_chan ?b i ?ch" using new(3) by (rule ring_chan_cong) (simp_all add: put_chan_def)
  ultimately obtain b' where b': "enableReading ?c ?b = Inr b'" "ring (insert i K) b'" "same_ring ?b b'" "in_pipe b' = in_pipe ?b"
    "eventHandling b' = eventHandling ?b"
    using enableReading_ring [of K ?b i ?ch] new(4) by (auto simp: put_chan_def)
  have "i < length (g_channels b)" using r i by (simp add: ring_def)
  then show ?thesis using ch(1) b' by (simp add: register_channel_def upd_chan_def same_ring_def put_chan_def)
qed

lemma register_all:
  assumes "ring K b" and "k \<le> length (in_pipe b)"
  shows "\<exists>b'. rfold register_channel [0..<k] b = Inr b' \<and> ring (K \<union> {0..<k}) b' \<and> same_ring b b' \<and> in_pipe b' = in_pipe b \<and>
    eventHandling b' = eventHandling b"
  using assms(2)
proof (induction k)
  case 0
  then show ?case using assms(1) by simp
next
  case (Suc k)
  then obtain u where u: "rfold register_channel [0..<k] b = Inr u" "ring (K \<union> {0..<k}) u" "same_ring b u" "in_pipe u = in_pipe b"
    "eventHandling u = eventHandling b" by auto
  have "k < length (in_pipe u)" using Suc.prems u(4) by simp
  from register_channel_ok [OF u(2) this] obtain v where v: "register_channel k u = Inr v" "ring (insert k (K \<union> {0..<k})) v"
    "same_ring u v" "in_pipe v = in_pipe u" "eventHandling v = eventHandling u" by blast
  have "insert k (K \<union> {0..<k}) = K \<union> {0..<Suc k}" by (auto simp: less_Suc_eq)
  with v(2) have "ring (K \<union> {0..<Suc k}) v" by simp
  then show ?case using u v same_ring_trans [OF u(3) v(3)] by (simp add: rfold_append)
qed

section \<open>Messages\<close>

lemma send_byte_ok:
  assumes "0 \<le> w" and "w < numPipes b" and "length (g_pipes b) = 2 * length (in_pipe b)" and "numPipes b = int (length (in_pipe b))"
    and "sum_list (in_pipe b) < sock_cap b"
  shows "send_byte (2 * w + 1) b = Inr (b\<lparr>in_pipe := (in_pipe b)[nat w := in_pipe b ! nat w + 1]\<rparr>)"
proof -
  have "in_pipe b ! nat w \<le> sum_list (in_pipe b)" using assms(1,2,4) by (intro elem_le_sum_list) simp
  then show ?thesis using assms by (simp add: send_byte_def Let_def)
qed

lemma sum_list_more: "i < length xs \<Longrightarrow> sum_list (xs[i := Suc (xs ! i)]) = Suc (sum_list xs)" for xs :: "nat list"
  by (simp add: sum_list_update elem_le_sum_list)

lemma sum_list_less: "i < length xs \<Longrightarrow> 0 < xs ! i \<Longrightarrow> sum_list (xs[i := xs ! i - 1]) + 1 = sum_list xs" for xs :: "nat list"
  using elem_le_sum_list [of i xs] by (simp add: sum_list_update)

lemma send_all:
  assumes "\<And>i. i \<in> set is \<Longrightarrow> 0 \<le> f i \<and> f i < numPipes b"
    and "length (g_pipes b) = 2 * length (in_pipe b)" and "numPipes b = int (length (in_pipe b))"
    and "sum_list (in_pipe b) + length is \<le> sock_cap b"
  shows "\<exists>ps. rfold (\<lambda>i. send_byte (2 * f i + 1)) is b = Inr (b\<lparr>in_pipe := ps\<rparr>) \<and> length ps = length (in_pipe b) \<and>
    sum_list ps = sum_list (in_pipe b) + length is"
  using assms
proof (induction "is" arbitrary: b)
  case Nil
  show ?case by (intro exI [of _ "in_pipe b"]) simp
next
  case (Cons i "is")
  let ?b = "b\<lparr>in_pipe := (in_pipe b)[nat (f i) := in_pipe b ! nat (f i) + 1]\<rparr>"
  have i: "0 \<le> f i" "f i < numPipes b" using Cons.prems(1) [of i] by simp_all
  then have s: "sum_list (in_pipe ?b) = sum_list (in_pipe b) + 1" using Cons.prems(3) by (simp add: sum_list_more nat_less_iff)
  have "\<exists>ps. rfold (\<lambda>i. send_byte (2 * f i + 1)) is ?b = Inr (?b\<lparr>in_pipe := ps\<rparr>) \<and> length ps = length (in_pipe ?b) \<and>
      sum_list ps = sum_list (in_pipe ?b) + length is"
    by (rule Cons.IH) (use Cons.prems s in simp_all)
  moreover have "sum_list (in_pipe b) < sock_cap b" using Cons.prems(4) by simp
  ultimately show ?case using s send_byte_ok [OF i Cons.prems(2,3)] by auto
qed


text \<open>
  As many bytes are in the pipes as were sent and not yet received, and none is lost while there are messages to pass on; the loop was told to quit exactly
  if the pipes are empty.
\<close>

definition in_flight :: "bench \<Rightarrow> nat" where
  "in_flight b = sum_list (in_pipe b)"

definition bench_ok :: "bench \<Rightarrow> bool" where
  "bench_ok b \<longleftrightarrow> 0 < numActive b \<and> numActive b \<le> int (sock_cap b) \<and> numActive b + numWrites b < 2 ^ 31 \<and> g_fired b - g_reads b = int (in_flight b) \<and>
     g_fired b = numActive b + numWrites b - g_writes b \<and> 0 \<le> g_writes b \<and>
     (0 < g_writes b \<longrightarrow> int (in_flight b) = numActive b) \<and> (quit b \<longleftrightarrow> in_flight b = 0)"

lemma bench_ok_cong:
  assumes "numActive b' = numActive b" "numWrites b' = numWrites b" "g_fired b' = g_fired b" "g_reads b' = g_reads b" "g_writes b' = g_writes b"
    "in_pipe b' = in_pipe b" "quit b' = quit b" "sock_cap b' = sock_cap b"
  shows "bench_ok b' = bench_ok b"
  using assms by (simp add: bench_ok_def in_flight_def)

text \<open>What a callback changes: counters, pipes and the quit flag.\<close>

lemma readCallback_ok:
  assumes ok: "bench_ok b" and r: "ring K b" and i: "i < length (in_pipe b)" "0 < in_pipe b ! i"
  obtains b' where "readCallback_op i b = Inr b'" "bench_ok b'" "g_reads b' = g_reads b + 1" "same_ring b b'" "chans b' = chans b"
    "channels b' = channels b" "epoll_log b' = epoll_log b" "\<forall>j. j < length (in_pipe b) \<longrightarrow> j \<noteq> i \<longrightarrow> in_pipe b ! j \<le> in_pipe b' ! j"
proof -
  let ?ps = "(in_pipe b)[i := in_pipe b ! i - 1]"
  let ?b1 = "b\<lparr>in_pipe := ?ps, g_reads := g_reads b + 1\<rparr>"
  define w where "w = (if numPipes b \<le> int i + 1 then int i + 1 - numPipes b else int i + 1)"
  have len: "length (g_pipes b) = 2 * length (in_pipe b)" "numPipes b = int (length (in_pipe b))" using r by (simp_all add: ring_def)
  have w: "0 \<le> w" "w < numPipes ?b1" using i len by (auto simp: w_def)
  have sum: "sum_list ?ps + 1 = in_flight b" unfolding in_flight_def using i by (rule sum_list_less)
  have rest: "\<forall>j. j < length (in_pipe b) \<longrightarrow> j \<noteq> i \<longrightarrow> in_pipe b ! j \<le> ?ps ! j" by simp
  have reads: "g_reads b < 2 ^ 31 - 1" using ok sum by (simp add: bench_ok_def)
  show thesis
  proof (cases "0 < g_writes b")
    case True
    define qs where "qs = ?ps[nat w := ?ps ! nat w + 1]"
    have "nat w < length ?ps" using w len by (simp add: nat_less_iff)
    then have qs: "sum_list qs = in_flight b" using sum_list_more [of "nat w" ?ps] sum by (simp add: qs_def)
    have mono: "\<forall>j. j < length (in_pipe b) \<longrightarrow> j \<noteq> i \<longrightarrow> in_pipe b ! j \<le> qs ! j"
      using \<open>nat w < length ?ps\<close> by (auto simp: qs_def nth_list_update)
    have lq: "length qs = length (in_pipe b)" by (simp add: qs_def)
    let ?b2 = "b\<lparr>in_pipe := qs, g_reads := g_reads b + 1, g_writes := g_writes b - 1, g_fired := g_fired b + 1\<rparr>"
    have "in_flight ?b2 = in_flight b" using qs by (simp add: in_flight_def)
    moreover have "0 < in_flight b" using sum by simp
    ultimately have ok2: "bench_ok ?b2" and ne: "g_fired b \<noteq> g_reads b" using ok True by (auto simp: bench_ok_def)
    have "sum_list ?ps < sock_cap b" using ok True sum by (simp add: bench_ok_def)
    then have "send_byte (2 * w + 1) ?b1 = Inr (?b1\<lparr>in_pipe := qs\<rparr>)" using send_byte_ok [OF w] len by (simp add: qs_def)
    moreover have "g_fired b < 2 ^ 31 - 1" using ok True by (simp add: bench_ok_def)
    ultimately have "readCallback_op i b = Inr ?b2" using True ne i reads by (simp add: readCallback_op_def Let_def w_def [symmetric])
    then show thesis using ok2 mono lq by (intro that [of ?b2]) (simp_all add: same_ring_def)
  next
    case False
    let ?b2 = "if g_fired b = g_reads b + 1 then ?b1\<lparr>quit := True\<rparr> else ?b1"
    have "readCallback_op i b = Inr ?b2"
      using False i reads by (simp add: readCallback_op_def Let_def EventLoop_quit_def isInLoopThread_def)
    moreover have "in_flight ?b2 + 1 = in_flight b" using sum by (simp add: in_flight_def)
    then have "bench_ok ?b2" using ok False by (auto simp: bench_ok_def)
    ultimately show thesis using rest by (intro that [of ?b2]) (simp_all add: same_ring_def)
  qed
qed

section \<open>The loop\<close>

text \<open>A channel that \<open>epoll_wait\<close> has reported and that has not been served yet.\<close>

definition due :: "bench \<Rightarrow> chan \<Rightarrow> bool" where
  "due b c \<longleftrightarrow> (\<exists>i ch. i < length (in_pipe b) \<and> c = g_channels b ! i \<and> 0 < in_pipe b ! i \<and> chans b c = Some ch \<and>
     read_happened (revents ch))"

abbreviation serve :: "chan \<Rightarrow> bench \<Rightarrow> bench result" where
  "serve \<equiv> handle_active bench_exec (\<lambda>_ _. True)"

lemma serve_ok:
  assumes ok: "bench_ok b" and r: "ring K b" and K: "{..<length (in_pipe b)} \<subseteq> K" and c: "due b c"
  shows "\<exists>b'. serve c b = Inr b' \<and> bench_ok b' \<and> ring K b' \<and> same_ring b b' \<and> g_reads b' = g_reads b + 1 \<and>
    (\<forall>d. d \<noteq> c \<longrightarrow> due b d \<longrightarrow> due b' d)"
proof -
  obtain i ch where i: "i < length (in_pipe b)" "c = g_channels b ! i" "0 < in_pipe b ! i" and ch: "chans b c = Some ch"
    and hap: "read_happened (revents ch)" using c by (auto simp: due_def)
  from r i(1) obtain ch' where "chans b (g_channels b ! i) = Some ch'" "ring_chan b i ch'" "i \<in> K \<longrightarrow> listens i ch'" by (rule ringD)
  then have cb: "ring_chan b i ch" "listens i ch" using ch i K by auto
  let ?b0 = "b\<lparr>currentActiveChannel := Some c\<rparr>"
  let ?ch1 = "ch\<lparr>ch_eventHandling := True\<rparr>" and ?ch2 = "ch\<lparr>ch_eventHandling := False\<rparr>"
  let ?b1 = "put_chan c ?ch1 ?b0"
  have r0: "ring K ?b0" using r by (rule ring_cong) (simp_all add: same_ring_def)
  have "ring_chan ?b0 i ?ch1" using cb(1) by (rule ring_chan_cong) simp_all
  then have r1: "ring K ?b1"
    using ring_put_chan [OF r0, of i ch ?ch1] i ch cb(2) by (simp add: same_registration_def listens_def isReading_def)
  have ok1: "bench_ok ?b1" using ok bench_ok_cong [of ?b1 b] by (simp add: put_chan_def)
  from ok1 r1 obtain b2 where b2: "readCallback_op i ?b1 = Inr b2" "bench_ok b2" "g_reads b2 = g_reads ?b1 + 1" "same_ring ?b1 b2"
    "chans b2 = chans ?b1" "channels b2 = channels ?b1" "epoll_log b2 = epoll_log ?b1"
    "\<forall>j. j < length (in_pipe ?b1) \<longrightarrow> j \<noteq> i \<longrightarrow> in_pipe ?b1 ! j \<le> in_pipe b2 ! j"
    by (rule readCallback_ok) (use i in \<open>simp_all add: put_chan_def\<close>)
  let ?b3 = "put_chan c ?ch2 b2"
  have at: "chans b2 c = Some ?ch1" using b2(5) by simp
  have run: "serve c b = Inr ?b3"
    using ch cb hap at b2(1)
    by (simp add: handle_active_def handleEvent_def handleEventWithGuard_def upd_chan_def call_if_def ring_chan_def listens_def)
  have r2: "ring K b2" using r1 b2(4-7) by (rule ring_cong)
  have s2: "same_ring b b2" "g_channels b2 = g_channels b" using b2(4) by (simp_all add: same_ring_def put_chan_def)
  have i2: "i < length (in_pipe b2)" "g_channels b2 ! i = c" using s2 i by (simp_all add: same_ring_def)
  have r3: "ring K ?b3" unfolding i2(2) [symmetric]
  proof (rule ring_put_chan [OF r2])
    show "chans b2 (g_channels b2 ! i) = Some ?ch1" "i < length (in_pipe b2)" using at i2 by simp_all
    show "ring_chan b2 i ?ch2" using cb(1) by (rule ring_chan_cong) (use b2(4,6) in \<open>simp_all add: same_ring_def put_chan_def\<close>)
  qed (use cb in \<open>simp_all add: same_registration_def listens_def isReading_def\<close>)
  have "due ?b3 d" if ne: "d \<noteq> c" and d: "due b d" for d
  proof -
    obtain j x where j: "j < length (in_pipe b)" "d = g_channels b ! j" "0 < in_pipe b ! j" "chans b d = Some x" "read_happened (revents x)"
      using d by (auto simp: due_def)
    then have "j \<noteq> i" using ne i(2) by blast
    then have "0 < in_pipe b2 ! j" using b2(8) j(1,3) by (auto simp: put_chan_def intro: less_le_trans)
    then show ?thesis using j s2 b2(5) ne by (auto simp: due_def put_chan_def same_ring_def)
  qed
  moreover have "bench_ok ?b3" using b2(2) bench_ok_cong [of ?b3 b2] by (simp add: put_chan_def)
  moreover have "same_ring b ?b3" "g_reads ?b3 = g_reads b + 1" using s2(1) b2(3) by (simp_all add: same_ring_def put_chan_def)
  ultimately show ?thesis using run r3 by blast
qed

lemma serve_all:
  assumes "bench_ok b" and "ring K b" and "{..<length (in_pipe b)} \<subseteq> K" and "distinct cs" and "\<forall>c \<in> set cs. due b c"
  shows "\<exists>b'. rfold serve cs b = Inr b' \<and> bench_ok b' \<and> ring K b' \<and> same_ring b b' \<and> g_reads b' = g_reads b + int (length cs)"
  using assms
proof (induction cs arbitrary: b)
  case Nil
  then show ?case by simp
next
  case (Cons c cs)
  have c: "due b c" using Cons.prems(5) by simp
  from serve_ok [OF Cons.prems(1-3) c] obtain u where u: "serve c b = Inr u" "bench_ok u" "ring K u" "same_ring b u"
    "g_reads u = g_reads b + 1" "\<forall>d. d \<noteq> c \<longrightarrow> due b d \<longrightarrow> due u d" by blast
  have "{..<length (in_pipe u)} \<subseteq> K" using Cons.prems(3) u(4) by (simp add: same_ring_def)
  moreover have "distinct cs" "\<forall>d \<in> set cs. due u d" using Cons.prems(4,5) u(6) by auto
  ultimately obtain v where "rfold serve cs u = Inr v" "bench_ok v" "ring K v" "same_ring u v" "g_reads v = g_reads u + int (length cs)"
    using Cons.IH [OF u(2,3)] by blast
  then show ?case using u same_ring_trans [OF u(4)] by auto
qed


text \<open>
  What epoll(7) promises of a level-triggered \<open>epoll_wait\<close> while some pair is readable: it fails (\<open>EINTR\<close>), or it reports at least one channel, each at
  most once, and every one it reports is readable.
\<close>

definition epoll_documented :: "bench \<Rightarrow> errno + (chan \<times> cint) list \<Rightarrow> bool" where
  "epoll_documented b answer \<longleftrightarrow> (case answer of
     Inl e \<Rightarrow> True
   | Inr evs \<Rightarrow> evs \<noteq> [] \<and> distinct (map fst evs) \<and>
       list_all (\<lambda>(c, ev). read_happened ev \<and> list_ex (\<lambda>i. c = g_channels b ! i \<and> 0 < in_pipe b ! i) [0..<length (in_pipe b)]) evs)"

abbreviation bench_iteration :: "int \<times> (errno + (chan \<times> cint) list) \<Rightarrow> bench \<Rightarrow> bench result" where
  "bench_iteration \<equiv> loop_iteration bench_exec (\<lambda>_ _. True) (\<lambda>f. Inr)"

text \<open>The answers of a run, each documented in the state in which it is given.\<close>

primrec epoll_run :: "(int \<times> (errno + (chan \<times> cint) list)) list \<Rightarrow> bench \<Rightarrow> bool" where
  "epoll_run [] b = True"
| "epoll_run (a # as) b = (quit b \<or> (epoll_documented b (snd a) \<and> (case bench_iteration a b of Inl e \<Rightarrow> True | Inr b' \<Rightarrow> epoll_run as b')))"

definition reports :: "(int \<times> (errno + (chan \<times> cint) list)) list \<Rightarrow> nat" where
  "reports as = length (filter (\<lambda>a. \<not> isl (snd a)) as)"

text \<open>The state in which \<open>epoll_wait\<close> is called.\<close>

definition idle_ring :: "bench \<Rightarrow> bool" where
  "idle_ring b \<longleftrightarrow> ring {..<length (in_pipe b)} b \<and> pendingFunctors b = [] \<and> \<not> eventHandling b"

lemma ring_poll:
  assumes r: "ring K b" and evs: "\<forall>c \<in> fst ` set evs. chans b c \<noteq> None"
    and t: "chans t = (\<lambda>d. map_option (reported evs d) (chans b d))" "channels t = channels b" "poller_wf t" "same_ring b t"
  shows "ring K t"
proof -
  have rep: "reported evs d ch = ch \<or> (\<exists>ev. reported evs d ch = ch\<lparr>revents := ev\<rparr>)" for d ch
    by (auto simp: reported_def split: option.splits)
  have "ownerLoop (reported evs d ch) = ownerLoop ch" for d ch using rep [of d ch] by auto
  then have "loop_wf t" using r t by (auto simp: ring_def loop_wf_def same_ring_def)
  moreover have "\<exists>x. chans t (g_channels t ! i) = Some x \<and> ring_chan t i x \<and> (i \<in> K \<longrightarrow> listens i x)" if "i < length (in_pipe t)" for i
  proof -
    have i: "i < length (in_pipe b)" using that t(4) by (simp add: same_ring_def)
    from r i obtain ch where ch: "chans b (g_channels b ! i) = Some ch" "ring_chan b i ch" "i \<in> K \<longrightarrow> listens i ch" by (rule ringD)
    let ?ch = "reported evs (g_channels b ! i) ch"
    have "ring_chan t i ?ch" using ch(2) by (rule ring_chan_cong) (use rep [of "g_channels b ! i" ch] t in \<open>auto simp: same_ring_def\<close>)
    moreover have "i \<in> K \<longrightarrow> listens i ?ch" using ch(3) rep [of "g_channels b ! i" ch] by (auto simp: listens_def isReading_def)
    ultimately show ?thesis using ch(1) t(1,4) by (simp add: same_ring_def)
  qed
  ultimately show ?thesis using r t(4) by (simp add: ring_def same_ring_def)
qed

lemma finish_iteration:
  assumes ok: "bench_ok b" and r: "ring {..<length (in_pipe b)} b" and q: "pendingFunctors b = []"
  shows "\<exists>b'. doPendingFunctors (\<lambda>f. Inr) (b\<lparr>currentActiveChannel := None, eventHandling := False\<rparr>) = Inr b' \<and>
    bench_ok b' \<and> idle_ring b' \<and> same_ring b b' \<and> g_reads b' = g_reads b"
proof -
  let ?b = "b\<lparr>currentActiveChannel := None, eventHandling := False, pendingFunctors := [], callingPendingFunctors := False\<rparr>"
  have "doPendingFunctors (\<lambda>f. Inr) (b\<lparr>currentActiveChannel := None, eventHandling := False\<rparr>) = Inr ?b"
    using q by (simp add: doPendingFunctors_def pending_begin_def pending_end_def)
  moreover have "same_ring b ?b" using q by (simp add: same_ring_def)
  moreover have "bench_ok ?b" using ok bench_ok_cong [of ?b b] by simp
  moreover have "ring {..<length (in_pipe b)} ?b" using r by (rule ring_cong) (use q in \<open>simp_all add: same_ring_def\<close>)
  ultimately show ?thesis by (simp add: idle_ring_def)
qed

lemma iteration_ok:
  assumes ok: "bench_ok b" and idle: "idle_ring b" and doc: "epoll_documented b (snd a)"
  shows "\<exists>b'. bench_iteration a b = Inr b' \<and> bench_ok b' \<and> idle_ring b' \<and> same_ring b b' \<and>
    (if \<not> isl (snd a) then g_reads b < g_reads b' else g_reads b' = g_reads b)"
proof (cases "snd a")
  case (Inl e)
  let ?b = "b\<lparr>activeChannels := [], pollReturnTime := fst a, eventHandling := True\<rparr>"
  have "bench_ok ?b" using ok bench_ok_cong [of ?b b] by simp
  moreover have "ring {..<length (in_pipe ?b)} ?b"
    using idle ring_cong [of "{..<length (in_pipe b)}" b ?b] by (simp add: idle_ring_def same_ring_def)
  ultimately obtain b' where "doPendingFunctors (\<lambda>f. Inr) (?b\<lparr>currentActiveChannel := None, eventHandling := False\<rparr>) = Inr b'"
    "bench_ok b'" "idle_ring b'" "same_ring ?b b'" "g_reads b' = g_reads ?b"
    using finish_iteration [of ?b] idle by (auto simp: idle_ring_def)
  then show ?thesis using Inl by (simp add: loop_iteration_def EPollPoller_poll_def same_ring_def)
next
  case (Inr evs)
  let ?K = "{..<length (in_pipe b)}" and ?b0 = "b\<lparr>activeChannels := []\<rparr>"
  have d: "evs \<noteq> []" "distinct (map fst evs)" "\<And>c ev. (c, ev) \<in> set evs \<Longrightarrow> read_happened ev \<and>
      (\<exists>i < length (in_pipe b). c = g_channels b ! i \<and> 0 < in_pipe b ! i)"
    using doc Inr by (fastforce simp: epoll_documented_def list_all_iff list_ex_iff)+
  have r: "ring ?K b" using idle by (simp add: idle_ring_def)
  have alive: "\<forall>c \<in> fst ` set evs. chans b c \<noteq> None" using d(3) r by (fastforce simp: ring_def)
  have pwf: "poller_wf ?b0" using r poller_wf_cong [of ?b0 b] by (simp add: ring_def loop_wf_def)
  obtain t where t: "EPollPoller_poll (Inr evs) ?b0 = Inr (map fst evs, t)" "poller_wf t"
    "chans t = (\<lambda>d. map_option (reported evs d) (chans b d))" "channels t = channels b"
    using poll_ok [OF pwf, of evs] alive by auto
  obtain m n where frame: "t = ?b0\<lparr>chans := m, events_size := n\<rparr>" using poll_frame [OF t(1)] by blast
  let ?t = "t\<lparr>activeChannels := map fst evs, pollReturnTime := fst a, eventHandling := True\<rparr>"
  have same: "same_ring b ?t" by (simp add: frame same_ring_def)
  have "poller_wf ?t" using t(2) poller_wf_cong [of ?t t] by simp
  then have rt: "ring ?K ?t" using r alive t(3,4) same by (intro ring_poll [of ?K b evs ?t]) simp_all
  have okt: "bench_ok ?t" using ok bench_ok_cong [of ?t b] by (simp add: frame)
  have "due ?t c" if c: "c \<in> set (map fst evs)" for c
  proof -
    obtain ev where ev: "(c, ev) \<in> set evs" using c by auto
    then obtain i where i: "i < length (in_pipe b)" "c = g_channels b ! i" "0 < in_pipe b ! i" "read_happened ev" using d(3) by blast
    obtain ch where ch: "chans b c = Some ch" using alive ev by force
    have "map_of (rev evs) c = Some ev" using ev d(2) by (intro map_of_is_SomeI) (simp_all add: rev_map [symmetric])
    then have "chans ?t c = Some (ch\<lparr>revents := ev\<rparr>)" using ch t(3) by (simp add: reported_def)
    moreover have "in_pipe ?t = in_pipe b" "g_channels ?t = g_channels b" by (simp_all add: frame)
    ultimately show ?thesis using i by (auto simp: due_def)
  qed
  moreover have "{..<length (in_pipe ?t)} \<subseteq> ?K" by (simp add: frame)
  ultimately obtain u where u: "rfold serve (map fst evs) ?t = Inr u" "bench_ok u" "ring ?K u" "same_ring ?t u"
    "g_reads u = g_reads ?t + int (length (map fst evs))"
    using serve_all [OF okt rt _ d(2)] by blast
  have su: "same_ring b u" using same u(4) by (rule same_ring_trans)
  then have "ring {..<length (in_pipe u)} u" "pendingFunctors u = []" using u(3) idle by (simp_all add: same_ring_def idle_ring_def)
  with u(2) obtain b' where b': "doPendingFunctors (\<lambda>f. Inr) (u\<lparr>currentActiveChannel := None, eventHandling := False\<rparr>) = Inr b'"
    "bench_ok b'" "idle_ring b'" "same_ring u b'" "g_reads b' = g_reads u"
    using finish_iteration [of u] by blast
  have "bench_iteration a b = Inr b'" using Inr t(1) u(1) b'(1) by (simp add: loop_iteration_def)
  moreover have "g_reads b < g_reads b'" using b'(5) u(5) d(1) by (simp add: frame)
  ultimately show ?thesis using b' same_ring_trans [OF su b'(4)] Inr by auto
qed

lemma bench_ok_reads:
  assumes "bench_ok b"
  shows "quit b \<longleftrightarrow> g_reads b = numActive b + numWrites b" and "g_reads b \<le> numActive b + numWrites b"
  using assms by (auto simp: bench_ok_def)

lemma loop_while_ok:
  assumes "bench_ok b" and "idle_ring b" and "epoll_run as b" and "numActive b + numWrites b \<le> g_reads b + int (reports as)"
  shows "\<exists>b'. loop_while bench_iteration as b = Inr b' \<and> bench_ok b' \<and> idle_ring b' \<and> same_ring b b' \<and> quit b' \<and> \<not> looping b'"
  using assms
proof (induction as arbitrary: b)
  case Nil
  have "quit b" using Nil bench_ok_reads [OF Nil.prems(1)] by (simp add: reports_def)
  moreover have "bench_ok (b\<lparr>looping := False\<rparr>)" using Nil.prems(1) bench_ok_cong [of "b\<lparr>looping := False\<rparr>" b] by simp
  moreover have "idle_ring (b\<lparr>looping := False\<rparr>)"
    using Nil.prems(2) ring_cong [of "{..<length (in_pipe b)}" b "b\<lparr>looping := False\<rparr>"] by (simp add: idle_ring_def same_ring_def)
  ultimately show ?case by (simp add: same_ring_def)
next
  case (Cons a as)
  show ?case
  proof (cases "quit b")
    case True
    moreover have "bench_ok (b\<lparr>looping := False\<rparr>)" using Cons.prems(1) bench_ok_cong [of "b\<lparr>looping := False\<rparr>" b] by simp
    moreover have "idle_ring (b\<lparr>looping := False\<rparr>)"
      using Cons.prems(2) ring_cong [of "{..<length (in_pipe b)}" b "b\<lparr>looping := False\<rparr>"] by (simp add: idle_ring_def same_ring_def)
    ultimately show ?thesis by (simp add: same_ring_def)
  next
    case False
    then have doc: "epoll_documented b (snd a)" "\<And>b'. bench_iteration a b = Inr b' \<Longrightarrow> epoll_run as b'" using Cons.prems(3) by auto
    from iteration_ok [OF Cons.prems(1,2) doc(1)] obtain u where u: "bench_iteration a b = Inr u" "bench_ok u" "idle_ring u" "same_ring b u"
      "if \<not> isl (snd a) then g_reads b < g_reads u else g_reads u = g_reads b" by blast
    have "numActive u + numWrites u \<le> g_reads u + int (reports as)"
      using Cons.prems(4) u(4,5) by (auto simp: reports_def same_ring_def split: if_splits)
    from Cons.IH [OF u(2,3) doc(2) [OF u(1)] this] obtain v where
      "loop_while bench_iteration as u = Inr v" "bench_ok v" "idle_ring v" "same_ring u v" "quit v" "\<not> looping v" by blast
    then show ?thesis using False u(1) same_ring_trans [OF u(4)] by auto
  qed
qed


section \<open>A run\<close>

text \<open>Between two runs: all pipes are empty.\<close>

definition resting :: "bench \<Rightarrow> bool" where
  "resting b \<longleftrightarrow> (\<exists>K. ring K b) \<and> pendingFunctors b = [] \<and> \<not> eventHandling b \<and> in_flight b = 0 \<and>
     0 < numPipes b \<and> 0 < numActive b \<and> 0 \<le> numWrites b \<and> numActive b \<le> int (sock_cap b) \<and> numActive b + numWrites b < 2 ^ 31"

lemma send_first_ok:
  assumes len: "length (g_pipes b) = 2 * length (in_pipe b)" "numPipes b = int (length (in_pipe b))"
    and P: "0 < numPipes b" and A: "0 < numActive b" and W: "0 \<le> numWrites b" and empty: "in_flight b = 0"
    and cap: "numActive b \<le> int (sock_cap b)"
  shows "\<exists>ps. send_first b = Inr (b\<lparr>in_pipe := ps, g_fired := numActive b, g_reads := 0, g_writes := numWrites b\<rparr>) \<and>
    length ps = length (in_pipe b) \<and> sum_list ps = nat (numActive b)"
proof -
  let ?d = "numPipes b div numActive b"
  let ?f = "\<lambda>i. int i * ?d"
  have f: "0 \<le> ?f i \<and> ?f i < numPipes b" if "i \<in> set [0..<nat (numActive b)]" for i
  proof -
    have i: "int i < numActive b" using that by simp
    have d: "0 \<le> ?d" using P A by (simp add: pos_imp_zdiv_nonneg_iff)
    have "numActive b * ?d \<le> numPipes b" using mult_div_mod_eq [of "numActive b" "numPipes b"] pos_mod_sign [OF A, of "numPipes b"] by linarith
    moreover have "?d = 0 \<or> ?f i < numActive b * ?d" using d i by (cases "?d = 0") (auto intro: mult_strict_right_mono)
    ultimately show ?thesis using d P by auto
  qed
  have room: "sum_list (in_pipe b) + length [0..<nat (numActive b)] \<le> sock_cap b" using cap empty by (simp add: in_flight_def del: sum_list_eq_0_iff)
  obtain ps where
    ps: "rfold (\<lambda>i. send_byte (2 * ?f i + 1)) [0..<nat (numActive b)] b = Inr (b\<lparr>in_pipe := ps\<rparr>)"
    "length ps = length (in_pipe b)" "sum_list ps = sum_list (in_pipe b) + length [0..<nat (numActive b)]"
    using send_all [of "[0..<nat (numActive b)]" ?f b] f len room by blast
  have "(\<lambda>i. send_byte (int i * (2 * ?d) + 1)) = (\<lambda>i. send_byte (2 * ?f i + 1))" by (simp add: algebra_simps)
  then show ?thesis using A ps empty by (intro exI [of _ ps]) (simp add: send_first_def Let_def in_flight_def)
qed

lemma runOnce_begin_ok:
  assumes "resting b"
  shows "\<exists>v. runOnce_begin b = Inr v \<and> (let b1 = v\<lparr>looping := True, quit := False\<rparr> in bench_ok b1 \<and> idle_ring b1 \<and>
    same_ring b b1 \<and> g_reads b1 = 0)"
proof -
  obtain K where r: "ring K b" and rest: "pendingFunctors b = []" "\<not> eventHandling b" "in_flight b = 0" "0 < numPipes b" "0 < numActive b"
    "0 \<le> numWrites b" "numActive b \<le> int (sock_cap b)" "numActive b + numWrites b < 2 ^ 31"
    using assms by (auto simp: resting_def)
  have n: "nat (numPipes b) = length (in_pipe b)" using r by (simp add: ring_def)
  obtain u where u: "rfold register_channel [0..<nat (numPipes b)] b = Inr u" "ring (K \<union> {0..<length (in_pipe b)}) u" "same_ring b u"
    "in_pipe u = in_pipe b" "eventHandling u = eventHandling b"
    using register_all [OF r, of "length (in_pipe b)"] n by auto
  have "0 < numPipes u" "0 < numActive u" "0 \<le> numWrites u" "in_flight u = 0" "numActive u \<le> int (sock_cap u)" using rest u(3,4) by (simp_all add: same_ring_def in_flight_def)
  moreover have "length (g_pipes u) = 2 * length (in_pipe u)" "numPipes u = int (length (in_pipe u))" using u(2) by (simp_all add: ring_def)
  ultimately obtain ps where ps: "send_first u = Inr (u\<lparr>in_pipe := ps, g_fired := numActive u, g_reads := 0, g_writes := numWrites u\<rparr>)"
    "length ps = length (in_pipe u)" "sum_list ps = nat (numActive u)"
    using send_first_ok [of u] by blast
  let ?b = "u\<lparr>in_pipe := ps, g_fired := numActive u, g_reads := 0, g_writes := numWrites u, looping := True, quit := False\<rparr>"
  have "runOnce_begin b = Inr (u\<lparr>in_pipe := ps, g_fired := numActive u, g_reads := 0, g_writes := numWrites u\<rparr>)"
    using u(1) ps(1) by (simp add: runOnce_begin_def)
  moreover have "bench_ok ?b" using ps(3) rest(5-8) u(3) by (simp add: bench_ok_def in_flight_def same_ring_def)
  moreover have "ring (K \<union> {0..<length (in_pipe b)}) ?b" using u(2) by (rule ring_cong) (use ps(2) in \<open>simp_all add: same_ring_def\<close>)
  then have "ring {..<length (in_pipe ?b)} ?b" using ps(2) u(4) by (auto simp: ring_def)
  then have "idle_ring ?b" using rest(1,2) u(3,5) by (simp add: idle_ring_def same_ring_def)
  moreover have "same_ring b ?b" using u(3) ps(2) by (simp add: same_ring_def)
  ultimately show ?thesis by simp
qed

text \<open>Enough documented answers of \<open>epoll_wait\<close> for one run, and for a number of runs.\<close>

definition enough :: "bench \<Rightarrow> (int \<times> (errno + (chan \<times> cint) list)) list \<Rightarrow> bool" where
  "enough b as \<longleftrightarrow>
     (case runOnce_begin b of Inl e \<Rightarrow> True | Inr v \<Rightarrow> epoll_run as (v\<lparr>looping := True, quit := False\<rparr>)) \<and> numActive b + numWrites b \<le> int (reports as)"

primrec enough_runs :: "(int \<times> (errno + (chan \<times> cint) list)) list list \<Rightarrow> bench \<Rightarrow> bool" where
  "enough_runs [] b = True"
| "enough_runs (as # runs) b = (enough b as \<and> (case runOnce as b of Inl e \<Rightarrow> True | Inr b' \<Rightarrow> enough_runs runs b'))"

lemma runOnce_ok:
  assumes rest: "resting b" and as: "enough b as"
  shows "\<exists>b'. runOnce as b = Inr b' \<and> resting b' \<and> idle_ring b' \<and> same_ring b b' \<and> quit b' \<and> \<not> looping b' \<and>
    g_reads b' = numActive b + numWrites b"
proof -
  from runOnce_begin_ok [OF rest] obtain v where v: "runOnce_begin b = Inr v" and "let b1 = v\<lparr>looping := True, quit := False\<rparr> in
    bench_ok b1 \<and> idle_ring b1 \<and> same_ring b b1 \<and> g_reads b1 = 0" by blast
  moreover define b1 where "b1 = v\<lparr>looping := True, quit := False\<rparr>"
  ultimately have b1: "runOnce as b = loop_while bench_iteration as b1" "bench_ok b1" "idle_ring b1" "same_ring b b1" "g_reads b1 = 0"
    by (simp_all add: Let_def runOnce_def EventLoop_loop_def)
  have "numActive b1 + numWrites b1 \<le> g_reads b1 + int (reports as)" using as b1(4,5) by (simp add: enough_def same_ring_def)
  moreover have "epoll_run as b1" using as v by (simp add: enough_def b1_def)
  ultimately obtain b' where b': "loop_while bench_iteration as b1 = Inr b'" "bench_ok b'" "idle_ring b'" "same_ring b1 b'" "quit b'" "\<not> looping b'"
    using loop_while_ok [OF b1(2,3)] by blast
  have same: "same_ring b b'" using b1(4) b'(4) by (rule same_ring_trans)
  have "in_flight b' = 0" using b'(2,5) by (simp add: bench_ok_def)
  then have "resting b'" using rest same b'(3) by (auto simp: resting_def idle_ring_def same_ring_def)
  moreover have "g_reads b' = numActive b + numWrites b" using bench_ok_reads [OF b'(2)] b'(5) same by (simp add: same_ring_def)
  ultimately show ?thesis using b1(1) b' same by auto
qed

lemma runs_ok:
  assumes "resting b" and "enough_runs runs b" and "runs \<noteq> []"
  shows "\<exists>b'. rfold runOnce runs b = Inr b' \<and> resting b' \<and> idle_ring b' \<and> same_ring b b' \<and> g_reads b' = numActive b + numWrites b"
  using assms
proof (induction runs arbitrary: b)
  case Nil
  then show ?case by simp
next
  case (Cons as runs)
  from runOnce_ok [of b as] Cons.prems obtain u where u: "runOnce as b = Inr u" "resting u" "idle_ring u" "same_ring b u"
    "g_reads u = numActive b + numWrites b" by auto
  show ?case
  proof (cases "runs = []")
    case True
    then show ?thesis using u by simp
  next
    case False
    then obtain v where "rfold runOnce runs u = Inr v" "resting v" "idle_ring v" "same_ring u v" "g_reads v = numActive u + numWrites u"
      using Cons.IH [OF u(2)] Cons.prems(2) u(1) by auto
    then show ?thesis using u same_ring_trans [OF u(4)] by (auto simp: same_ring_def)
  qed
qed

section \<open>Setup and teardown\<close>


lemma new_channels:
  assumes "loop_wf b" and "\<forall>c \<ge> 2. chans b c = None"
  shows "loop_wf (fold new_channel [0..<k] b) \<and>
    fold new_channel [0..<k] b = b\<lparr>chans := (\<lambda>c. if 2 \<le> c \<and> c < 2 + k then Some (Channel_ctor (loop_id b) (g_pipes b ! (2 * (c - 2)))) else chans b c),
      g_channels := g_channels b @ map ((+) 2) [0..<k]\<rparr>"
proof (induction k)
  case 0
  have "(\<lambda>c. if 2 \<le> c \<and> c < 2 then Some (Channel_ctor (loop_id b) (g_pipes b ! (2 * (c - 2)))) else chans b c) = chans b"
    by (rule ext) auto
  then show ?case using assms by simp
next
  case (Suc k)
  let ?u = "fold new_channel [0..<k] b"
  let ?ch = "Channel_ctor (loop_id b) (g_pipes b ! (2 * k))"
  let ?v = "?u\<lparr>g_channels := g_channels ?u @ [2 + k]\<rparr>"
  note eq = conjunct2 [OF Suc.IH]
  have u: "loop_wf ?u" "loop_id ?u = loop_id b" "chans ?u (2 + k) = None" "g_pipes ?u = g_pipes b"
    using conjunct1 [OF Suc.IH] assms(2) by (simp_all add: eq)
  then have "loop_wf ?v" using poller_wf_cong [of ?v ?u] by (simp add: loop_wf_def)
  then have "loop_wf (put_chan (2 + k) ?ch ?v)"
    by (rule put_new_chan_wf) (use u in \<open>simp_all add: Channel_ctor_def kNew_def isNoneEvent_def kNoneEvent_def\<close>)
  moreover have step: "fold new_channel [0..<Suc k] b = put_chan (2 + k) ?ch ?v" using u by (simp add: new_channel_def)
  moreover have "put_chan (2 + k) ?ch ?v = b\<lparr>chans := (\<lambda>c. if 2 \<le> c \<and> c < 2 + Suc k
      then Some (Channel_ctor (loop_id b) (g_pipes b ! (2 * (c - 2)))) else chans b c), g_channels := g_channels b @ map ((+) 2) [0..<Suc k]\<rparr>"
    by (rule bench.equality) (auto simp: put_chan_def eq fun_eq_iff)
  ultimately show ?case by simp
qed

lemma pair_fds:
  assumes "\<forall>i<n. socketpair i = Some (f i, g i)"
  shows "concat (map (\<lambda>i. case socketpair i of Some (x, y) \<Rightarrow> [x, y] | None \<Rightarrow> []) [0..<n]) = concat (map (\<lambda>i. [f i, g i]) [0..<n])"
  using assms by (intro arg_cong [where f = concat] map_cong) simp_all

lemma even_nth: "i < n \<Longrightarrow> concat (map (\<lambda>i. [f i, g i]) [0..<n]) ! (2 * i) = f i"
proof (induction n)
  case (Suc n)
  have len: "length (concat (map (\<lambda>i. [f i, g i]) [0..<n])) = 2 * n" by (induction n) simp_all
  show ?case
  proof (cases "i < n")
    case True
    then show ?thesis using Suc.IH len by (simp add: nth_append)
  next
    case False
    then have "i = n" using Suc.prems by simp
    then show ?thesis using len by (simp add: nth_append)
  qed
qed simp

text \<open>\<open>socketpair\<close> succeeds each time, and all descriptors are different.\<close>

definition pairs_documented :: "int \<Rightarrow> (nat \<Rightarrow> (fd \<times> fd) option) \<Rightarrow> fd \<Rightarrow> fd \<Rightarrow> bool" where
  "pairs_documented pipes socketpair timerfd evtfd \<longleftrightarrow> 0 \<le> evtfd \<and> list_all (\<lambda>i. socketpair i \<noteq> None) [0..<nat pipes] \<and>
     distinct (timerfd # evtfd # concat (map (\<lambda>i. case socketpair i of Some (x, y) \<Rightarrow> [x, y] | None \<Rightarrow> []) [0..<nat pipes]))"

lemma bench_setup_ok:
  assumes n: "0 < pipes" "0 < active" "0 \<le> writes" and bounds: "pipes * 2 + 50 < 2 ^ 31" "active + writes < 2 ^ 31" "active \<le> int cap" and doc: "pairs_documented pipes socketpair timerfd evtfd"
  shows "\<exists>b. bench_setup cap pipes active writes socketpair tid timerfd evtfd = Inr (Some b) \<and> resting b \<and> numActive b = active \<and>
    numWrites b = writes \<and> g_channels b = map ((+) 2) [0..<nat pipes]"
proof -
  define k where "k = nat pipes"
  define fds where "fds = concat (map (\<lambda>i. case socketpair i of Some (x, y) \<Rightarrow> [x, y] | None \<Rightarrow> []) [0..<k])"
  obtain f g where fg: "\<forall>i<k. socketpair i = Some (f i, g i)"
  proof
    show "\<forall>i<k. socketpair i = Some (fst (the (socketpair i)), snd (the (socketpair i)))"
      using doc by (auto simp: pairs_documented_def k_def list_all_iff)
  qed
  note fds = pair_fds [OF fg, folded fds_def]
  have len: "length fds = 2 * k" unfolding fds by (induction k) simp_all
  have even: "fds ! (2 * i) = f i" if "i < k" for i unfolding fds using that by (rule even_nth)
  have dist: "distinct fds" "timerfd \<notin> set fds" "evtfd \<notin> set fds" "timerfd \<noteq> evtfd" "0 \<le> evtfd"
    using doc by (simp_all add: pairs_documented_def fds_def k_def)
  obtain l where l: "EventLoop_ctor 0 tid timerfd evtfd = Inr l" "loop_wf l" "pendingFunctors l = []" "loop_id l = 0" "\<not> eventHandling l"
    "dom (chans l) = {0, 1}" "channels l = [timerfd \<mapsto> 0, evtfd \<mapsto> 1]"
    using EventLoop_ctor_eq [OF dist(4,5), of 0 tid] by blast
  define b0 where "b0 = loop.extend l \<lparr>g_pipes = fds, in_pipe = replicate k 0, g_channels = [], numPipes = pipes,
                  numActive = active, numWrites = writes, g_reads = 0, g_writes = 0, g_fired = 0, sock_cap = cap\<rparr>"
  have b0: "chans b0 = chans l" "channels b0 = channels l" "epoll_log b0 = epoll_log l" "loop_id b0 = 0" "pendingFunctors b0 = []"
    "\<not> eventHandling b0" "g_pipes b0 = fds" "in_pipe b0 = replicate k 0" "g_channels b0 = []" "numPipes b0 = pipes" "numActive b0 = active"
    "numWrites b0 = writes" "sock_cap b0 = cap"
    using l by (simp_all add: b0_def loop.defs)
  have wf0: "loop_wf b0" using l(2,4) b0 poller_wf_cong [of b0 l] by (simp add: loop_wf_def)
  have none: "chans b0 c = None" if "2 \<le> c" for c
    using l(6) that b0(1) by (metis domIff empty_iff insert_iff not_numeral_le_zero numeral_le_one_iff semiring_norm(69))
  define b where "b = fold new_channel [0..<k] b0"
  have b: "loop_wf b" "b = b0\<lparr>chans := (\<lambda>c. if 2 \<le> c \<and> c < 2 + k then Some (Channel_ctor 0 (fds ! (2 * (c - 2)))) else chans b0 c),
      g_channels := map ((+) 2) [0..<k]\<rparr>"
  proof -
    have new: "\<forall>c \<ge> 2. chans b0 c = None" using none by blast
    note new_channels [OF wf0 new, of k, folded b_def]
    then show "loop_wf b" by (rule conjunct1)
    show "b = b0\<lparr>chans := (\<lambda>c. if 2 \<le> c \<and> c < 2 + k then Some (Channel_ctor 0 (fds ! (2 * (c - 2)))) else chans b0 c),
      g_channels := map ((+) 2) [0..<k]\<rparr>"
      using conjunct2 [OF new_channels [OF wf0 new, of k, folded b_def]] by (simp only: b0 append_Nil)
  qed
  have "ring {} b"
  proof -
    have "\<exists>ch. chans b (g_channels b ! i) = Some ch \<and> ring_chan b i ch" if "i < k" for i
    proof -
      have "fds ! (2 * i) \<in> set fds" using that len by simp
      then have "channels b (fds ! (2 * i)) = None" using dist(2,3) l(7) b0(2) by (auto simp: b(2))
      then show ?thesis using that b0 by (simp add: b(2) ring_chan_def Channel_ctor_def fd_free_def)
    qed
    then show ?thesis using b(1) b0 dist(1) len n(1) by (simp add: ring_def) (simp add: b(2) b0 k_def distinct_map)
  qed
  moreover have fields: "pendingFunctors b = []" "\<not> eventHandling b" "in_pipe b = replicate k 0" "numPipes b = pipes" "numActive b = active"
    "numWrites b = writes" "g_channels b = map ((+) 2) [0..<k]" "sock_cap b = cap"
    by (simp_all add: b(2) b0)
  ultimately have "resting b" using n bounds by (auto simp: resting_def in_flight_def sum_list_replicate)
  moreover have "bench_setup cap pipes active writes socketpair tid timerfd evtfd = Inr (Some b)"
    using n(1) bounds(1) doc l(1) by (auto simp: bench_setup_def pairs_documented_def b_def b0_def fds_def k_def Let_def list_all_iff list_ex_iff)
  ultimately show ?thesis using fields by (intro exI [of _ b]) (simp add: k_def)
qed


text \<open>The channels leave the poller one after the other, then they are destroyed.\<close>

lemma unregister_all:
  assumes "loop_wf b" and "\<not> eventHandling b" and "distinct cs"
    and "\<forall>c \<in> set cs. \<exists>ch. chans b c = Some ch \<and> index ch \<noteq> kNew"
  shows "\<exists>t. rfold (\<lambda>c b. rbind (disableAll c b) (Channel_remove c)) cs b = Inr t \<and> loop_wf t \<and>
    (\<forall>c \<in> set cs. \<exists>ch. chans t c = Some ch \<and> index ch = kNew) \<and> (\<forall>c. c \<notin> set cs \<longrightarrow> chans t c = chans b c) \<and>
    channels t \<subseteq>\<^sub>m channels b \<and> (\<exists>m n l. t = b\<lparr>chans := m, channels := n, epoll_log := l\<rparr>)"
  using assms
proof (induction cs arbitrary: b)
  case Nil
  have "\<exists>m n l. b = b\<lparr>chans := m, channels := n, epoll_log := l\<rparr>"
    by (intro exI [of _ "chans b"] exI [of _ "channels b"] exI [of _ "epoll_log b"]) simp
  then show ?case using Nil.prems by simp
next
  case (Cons c cs)
  obtain ch where ch: "chans b c = Some ch" "index ch \<noteq> kNew" using Cons.prems(4) by auto
  from unregister_ok [OF Cons.prems(1) ch Cons.prems(2)] obtain u ch' l where
    u: "rbind (disableAll c b) (Channel_remove c) = Inr u" "loop_wf u" "index ch' = kNew"
    "u = b\<lparr>chans := (chans b)(c \<mapsto> ch'), channels := (channels b)(ch_fd ch := None), epoll_log := l\<rparr>" by blast
  have "\<forall>d \<in> set cs. \<exists>x. chans u d = Some x \<and> index x \<noteq> kNew" "\<not> eventHandling u" "distinct cs"
    using Cons.prems(2-4) by (auto simp: u(4))
  then obtain t where t: "rfold (\<lambda>c b. rbind (disableAll c b) (Channel_remove c)) cs u = Inr t" "loop_wf t"
    "\<forall>d \<in> set cs. \<exists>x. chans t d = Some x \<and> index x = kNew" "\<forall>d. d \<notin> set cs \<longrightarrow> chans t d = chans u d" "channels t \<subseteq>\<^sub>m channels u"
    "\<exists>m n l. t = u\<lparr>chans := m, channels := n, epoll_log := l\<rparr>"
    using Cons.IH [OF u(2)] by blast
  have "chans t c = Some ch'" using t(4) Cons.prems(3) by (simp add: u(4))
  then have "\<forall>d \<in> set (c # cs). \<exists>x. chans t d = Some x \<and> index x = kNew" using t(3) u(3) by simp
  moreover have "\<forall>d. d \<notin> set (c # cs) \<longrightarrow> chans t d = chans b d" using t(4) by (simp add: u(4))
  moreover have "\<exists>m n l. t = b\<lparr>chans := m, channels := n, epoll_log := l\<rparr>" using t(6) by (auto simp: u(4))
  moreover have "channels t \<subseteq>\<^sub>m channels b" by (rule map_le_trans [OF t(5)]) (simp add: u(4))
  ultimately show ?case using t(1,2) u(1) by simp
qed

lemma destroy_all:
  assumes "loop_wf b" and "distinct cs" and "\<forall>c \<in> set cs. \<exists>ch. chans b c = Some ch \<and> index ch = kNew"
  shows "\<exists>t. rfold (Channel_dtor (threadId b)) cs b = Inr t \<and> loop_wf t \<and> (\<forall>c. chans t c = (if c \<in> set cs then None else chans b c)) \<and>
    (\<exists>m. t = b\<lparr>chans := m\<rparr>)"
  using assms
proof (induction cs arbitrary: b)
  case Nil
  have "\<exists>m. b = b\<lparr>chans := m\<rparr>" by (intro exI [of _ "chans b"]) simp
  then show ?case using Nil.prems by simp
next
  case (Cons c cs)
  obtain ch where ch: "chans b c = Some ch" "index ch = kNew" using Cons.prems(3) by auto
  have pwf: "poller_wf b" using Cons.prems(1) by (simp add: loop_wf_def)
  have out: "channels b (ch_fd ch) \<noteq> Some c" using poller_wfD(1) [OF pwf, of "ch_fd ch" c] ch by auto
  let ?u = "b\<lparr>chans := (chans b)(c := None)\<rparr>"
  have "Channel_dtor (threadId b) c b = Inr ?u"
    using ch(1) out Cons.prems(1) by (simp add: Channel_dtor_def isInLoopThread_def EventLoop_hasChannel_def hasChannel_def loop_wf_def)
  moreover have "loop_wf ?u" using Cons.prems(1) ch(1) out by (rule loop_wf_drop_chan)
  moreover have "distinct cs" "\<forall>d \<in> set cs. \<exists>x. chans ?u d = Some x \<and> index x = kNew" using Cons.prems(2,3) by auto
  ultimately obtain t where "Channel_dtor (threadId b) c b = Inr ?u" "rfold (Channel_dtor (threadId b)) cs ?u = Inr t" "loop_wf t"
    "\<forall>d. chans t d = (if d \<in> set cs then None else chans ?u d)" "\<exists>m. t = ?u\<lparr>chans := m\<rparr>"
    using Cons.IH [of ?u] by auto
  then show ?case using Cons.prems(2) by auto
qed

lemma bench_teardown_ok:
  assumes "idle_ring b"
  shows "\<exists>t. bench_teardown b = Inr t \<and> loop_wf t \<and> g_channels t = [] \<and> in_pipe t = in_pipe b \<and> g_reads t = g_reads b \<and>
    (\<forall>c \<in> set (g_channels b). chans t c = None) \<and> (\<forall>i < length (in_pipe b). registered (epoll_log t) (g_pipes b ! (2 * i)) = None)"
proof -
  let ?cs = "g_channels b"
  have r: "ring {..<length (in_pipe b)} b" "\<not> eventHandling b" using assms by (simp_all add: idle_ring_def)
  have wf: "loop_wf b" and d: "distinct ?cs" and len: "length ?cs = length (in_pipe b)" using r by (simp_all add: ring_def)
  have at: "\<exists>ch. chans b (?cs ! i) = Some ch \<and> ch_fd ch = g_pipes b ! (2 * i) \<and> index ch \<noteq> kNew" if "i < length (in_pipe b)" for i
    using r(1) that by (force simp: ring_def listens_def ring_chan_def)
  then have reg: "\<forall>c \<in> set ?cs. \<exists>ch. chans b c = Some ch \<and> index ch \<noteq> kNew" using len by (fastforce simp: in_set_conv_nth)
  from unregister_all [OF wf r(2) d reg] obtain u m n l where
    u: "rfold (\<lambda>c b. rbind (disableAll c b) (Channel_remove c)) ?cs b = Inr u" "loop_wf u"
    "\<forall>c \<in> set ?cs. \<exists>ch. chans u c = Some ch \<and> index ch = kNew" "channels u \<subseteq>\<^sub>m channels b"
    "u = b\<lparr>chans := m, channels := n, epoll_log := l\<rparr>" by blast
  from destroy_all [OF u(2) d u(3)] obtain v m' where v: "rfold (Channel_dtor (threadId u)) ?cs u = Inr v" "loop_wf v"
    "\<forall>c. chans v c = (if c \<in> set ?cs then None else chans u c)" "v = u\<lparr>chans := m'\<rparr>" by blast
  let ?t = "v\<lparr>g_channels := []\<rparr>"
  have "bench_teardown b = Inr ?t" using u(1) v(1) by (simp add: bench_teardown_def u(5))
  moreover have wft: "loop_wf ?t" using v(2) poller_wf_cong [of ?t v] by (simp add: loop_wf_def)
  moreover have "registered (epoll_log ?t) (g_pipes b ! (2 * i)) = None" if i: "i < length (in_pipe b)" for i
  proof -
    from at [OF i] obtain ch where ch: "chans b (?cs ! i) = Some ch" "ch_fd ch = g_pipes b ! (2 * i)" "index ch \<noteq> kNew" by blast
    have mine: "channels b (g_pipes b ! (2 * i)) = Some (?cs ! i)"
      using wf ch poller_wfD(2) [of b "?cs ! i" ch] by (simp add: loop_wf_def channel_entry_ok_def)
    have "channels u (g_pipes b ! (2 * i)) = None"
    proof (rule ccontr)
      assume "channels u (g_pipes b ! (2 * i)) \<noteq> None"
      then have "channels u (g_pipes b ! (2 * i)) = Some (?cs ! i)" using u(4) mine by (metis domI domIff map_le_def)
      then obtain x where "chans u (?cs ! i) = Some x" "index x \<noteq> kNew" using u(2) poller_wfD(1) by (fastforce simp: loop_wf_def)
      then show False using u(3) i len by (metis nth_mem option.sel)
    qed
    then have "channels ?t (g_pipes b ! (2 * i)) = None" by (simp add: v(4))
    with wft show ?thesis by (rule loop_wf_registered)
  qed
  moreover have "in_pipe ?t = in_pipe b" "g_reads ?t = g_reads b" by (simp_all add: v(4) u(5))
  ultimately show ?thesis using v(3) by (intro exI [of _ ?t]) simp
qed

section \<open>Properties\<close>

text \<open>
  C36. The benchmark runs to its end. With at least one pair and one message, descriptors that are different, numbers that fit an \<open>int\<close>
  (\<open>2 * numPipes + 50\<close> and \<open>numActive + numWrites\<close>), and not more messages at a time than one socket has room for, \<open>main\<close> builds its ring; in each run the
  first messages are sent without an access outside \<open>g_pipes\<close>; whichever readable channels \<open>epoll_wait\<close> reports, and in whatever order and company,
  no assertion fails, no counter overflows, no \<open>recv\<close> and no \<open>send\<close> blocks, and \<open>loop()\<close> returns after at most \<open>numActive + numWrites\<close> reports, with exactly so many
  messages received and all pipes empty, so the next run finds what this one found. In the end the channels of the ring are gone and their descriptors are not registered any more.
\<close>

theorem bench_completes:
  assumes "0 < pipes" and "0 < active" and "0 \<le> writes" and "pipes * 2 + 50 < 2 ^ 31" and "active + writes < 2 ^ 31" and "active \<le> int cap"
    and "pairs_documented pipes socketpair timerfd evtfd" and "runs \<noteq> []"
    and "\<And>b. bench_setup cap pipes active writes socketpair tid timerfd evtfd = Inr (Some b) \<Longrightarrow> enough_runs runs b"
  shows "\<exists>b t. bench_setup cap pipes active writes socketpair tid timerfd evtfd = Inr (Some b) \<and>
    bench_main cap pipes active writes socketpair tid timerfd evtfd runs = Inr (Some t) \<and> loop_wf t \<and> in_flight t = 0 \<and>
    g_reads t = active + writes \<and> g_channels t = [] \<and> (\<forall>c. 2 \<le> c \<and> c < 2 + nat pipes \<longrightarrow> chans t c = None) \<and>
    (\<forall>i < nat pipes. registered (epoll_log t) (g_pipes b ! (2 * i)) = None)"
proof -
  from bench_setup_ok [OF assms(1-7), of tid] obtain b where
    b: "bench_setup cap pipes active writes socketpair tid timerfd evtfd = Inr (Some b)" "resting b" "numActive b = active" "numWrites b = writes"
    "g_channels b = map ((+) 2) [0..<nat pipes]" by blast
  from runs_ok [OF b(2) assms(9) [OF b(1)] assms(8)] obtain u where
    u: "rfold runOnce runs b = Inr u" "resting u" "idle_ring u" "same_ring b u" "g_reads u = numActive b + numWrites b" by blast
  from bench_teardown_ok [OF u(3)] obtain t where t: "bench_teardown u = Inr t" "loop_wf t" "g_channels t = []" "in_pipe t = in_pipe u"
    "g_reads t = g_reads u" "\<forall>c \<in> set (g_channels u). chans t c = None"
    "\<forall>i < length (in_pipe u). registered (epoll_log t) (g_pipes u ! (2 * i)) = None" by blast
  have same: "g_channels u = map ((+) 2) [0..<nat pipes]" "g_pipes u = g_pipes b" "length (in_pipe u) = nat pipes"
    using u(2,4) b(5) by (auto simp: same_ring_def resting_def ring_def)
  have "chans t c = None" if "2 \<le> c \<and> c < 2 + nat pipes" for c
  proof -
    have "c = 2 + (c - 2)" "c - 2 < nat pipes" using that by linarith+
    then have "c \<in> set (g_channels u)" unfolding same(1) by (metis atLeast0LessThan image_eqI lessThan_iff set_map set_upt)
    then show ?thesis using t(6) by blast
  qed
  moreover have "in_flight t = 0" using u(2) t(4) by (simp add: in_flight_def resting_def)
  moreover have "bench_main cap pipes active writes socketpair tid timerfd evtfd runs = Inr (Some t)"
    using b(1) u(1) t(1) by (simp add: bench_main_def)
  ultimately show ?thesis using b t u(5) same by (intro exI [of _ b] exI [of _ t]) simp
qed


text \<open>
  The bound is needed: with more messages at a time than one socket has room for, and more messages than pairs, all first messages go to the first pair, and \<open>send\<close> blocks for ever
  before the loop runs.
\<close>

lemma too_many_active:
  assumes "length (g_pipes b) = 2 * length (in_pipe b)" and "numPipes b = int (length (in_pipe b))" and "0 < numPipes b"
    and "numPipes b < numActive b" and "in_pipe b ! 0 + k = sock_cap b" and "k < nat (numActive b)"
  shows "send_first b = Inl Never_returns"
proof -
  have d: "numPipes b div numActive b = 0" using assms(3,4) by simp
  have one: "send_byte 1 u = (if sock_cap u \<le> in_pipe u ! 0 then Inl Never_returns
      else Inr (u\<lparr>in_pipe := (in_pipe u)[0 := in_pipe u ! 0 + 1]\<rparr>))" if "length (g_pipes u) = 2 * length (in_pipe u)" "0 < length (in_pipe u)" for u
  proof -
    have "\<not> int (length (g_pipes u)) \<le> 1" using that by linarith
    then show ?thesis by (simp add: send_byte_def Let_def)
  qed
  have "rfold (\<lambda>i. send_byte 1) is b = Inl Never_returns"
    if "length (g_pipes b) = 2 * length (in_pipe b)" "0 < length (in_pipe b)" "in_pipe b ! 0 + k = sock_cap b" "k < length is" for b :: bench and k and "is" :: "nat list"
    using that
  proof (induction "is" arbitrary: b k)
    case (Cons i "is")
    show ?case
    proof (cases k)
      case 0
      then show ?thesis using Cons.prems one [of b] by simp
    next
      case (Suc m)
      let ?b = "b\<lparr>in_pipe := (in_pipe b)[0 := in_pipe b ! 0 + 1]\<rparr>"
      have "rfold (\<lambda>i. send_byte 1) is ?b = Inl Never_returns" by (rule Cons.IH [of ?b m]) (use Cons.prems Suc in simp_all)
      then show ?thesis using Cons.prems Suc one [of b] by simp
    qed
  qed simp
  from this [of b k "[0..<nat (numActive b)]"] have "rfold (\<lambda>i. send_byte 1) [0..<nat (numActive b)] b = Inl Never_returns"
    using assms by simp
  then show ?thesis using assms(3,4) d by (simp add: send_first_def Let_def)
qed

section \<open>Witness\<close>

text \<open>Two pairs, two messages passed on once; \<open>epoll_wait\<close> is interrupted once and then reports a pair at a time, or both.\<close>

abbreviation sample_pairs :: "nat \<Rightarrow> (fd \<times> fd) option" where
  "sample_pairs \<equiv> \<lambda>i. Some (10 + 2 * int i, 11 + 2 * int i)"

abbreviation sample_answers :: "(int \<times> (errno + (chan \<times> cint) list)) list" where
  "sample_answers \<equiv> [(1, Inl 4), (2, Inr [(3, POLLIN)]), (3, Inr [(2, POLLIN)]), (4, Inr [(2, POLLIN)]), (5, Inr []), (6, Inr [])]"

lemma sample_bench_enough:
  "(case bench_setup 2 2 2 1 sample_pairs 3 4 5 of Inr (Some b) \<Rightarrow> enough_runs [sample_answers, sample_answers] b | _ \<Rightarrow> False)"
  by code_simp

theorem bench_completes_witness:
  "pairs_documented 2 sample_pairs 4 5 \<and>
   (\<exists>t. bench_main 2 2 2 1 sample_pairs 3 4 5 [sample_answers, sample_answers] = Inr (Some t) \<and> g_reads t = 3 \<and> in_flight t = 0)"
proof -
  have doc: "pairs_documented 2 sample_pairs 4 5" by code_simp
  have en: "enough_runs [sample_answers, sample_answers] b" if "bench_setup 2 2 2 1 sample_pairs 3 4 5 = Inr (Some b)" for b
    using sample_bench_enough by (simp only: that sum.case option.case)
  have "\<exists>b t. bench_setup 2 2 2 1 sample_pairs 3 4 5 = Inr (Some b) \<and>
      bench_main 2 2 2 1 sample_pairs 3 4 5 [sample_answers, sample_answers] = Inr (Some t) \<and> loop_wf t \<and> in_flight t = 0 \<and> g_reads t = 2 + 1 \<and>
      g_channels t = [] \<and> (\<forall>c. 2 \<le> c \<and> c < 2 + nat 2 \<longrightarrow> chans t c = None) \<and>
      (\<forall>i < nat 2. registered (epoll_log t) (g_pipes b ! (2 * i)) = None)"
    by (rule bench_completes [OF _ _ _ _ _ _ doc _ en]) simp_all
  then obtain t where "bench_main 2 2 2 1 sample_pairs 3 4 5 [sample_answers, sample_answers] = Inr (Some t)" "in_flight t = 0" "g_reads t = 2 + 1"
    by blast
  then show ?thesis using doc by (intro conjI exI [of _ t]) simp_all
qed

end
