(* ===== verification/Spec2Isabelle.thy ===== *)
theory Spec2Isabelle
  imports Siren_Base Siren_Wakeup Siren_PoolServer Siren_ServerEnd Siren_ClientRuns Siren_Pingpong Siren_Bench
begin

text \<open>
  A verification library for siren, a C++ network library in the reactor style: one event loop per thread, non-blocking
  sockets, callbacks. File names are relative to \<open>src/\<close>.

  \<^bold>\<open>The program.\<close> An \<open>EventLoop\<close> waits in \<open>epoll_wait\<close> through its \<open>EPollPoller\<close>, lets the reported \<open>Channel\<close>s call their
  callbacks, and then runs the functors that other code queued; an eventfd wakes it up, a \<open>TimerQueue\<close> behind one
  timerfd gives it timers. A \<open>TcpConnection\<close> owns a channel, a socket and two \<open>Buffer\<close>s. An \<open>Acceptor\<close>
  (for a \<open>TcpServer\<close>) and a \<open>Connector\<close> (for a \<open>TcpClient\<close>) make connections. An \<open>EventLoopThread\<close> runs a loop in a thread of its own and an
  \<open>EventLoopThreadPool\<close> has several. \<open>BlockingQueue\<close> and \<open>CountDownLatch\<close> are monitors for user code. The programs in \<open>example/pingpong\<close> use the
  library: an echo server, its client, and a benchmark.

  \<^bold>\<open>The theories\<close>, in the order of their imports:

  \<^item> \<open>Siren_Prelude\<close>: bytes, \<open>size_t\<close> and \<open>int\<close> as words; \<open>fault\<close>, the failed assertions, exceptions and undefined behaviour of the
    source; \<open>'a result = fault + 'a\<close> with \<open>rbind\<close> and \<open>rfold\<close>; decimal text; reachable states, and the
    locales \<open>inductive_invariant\<close> (a property of every reachable state) and \<open>work_queue\<close> (pushing and draining lose nothing).
  \<^item> \<open>Siren_Base\<close>: \<open>deps/sirenlib\<close>, \<open>Singleton.h\<close>, and \<open>BlockingQueue.h\<close> and \<open>CountDownLatch.cpp\<close> as monitors under every schedule.
  \<^item> \<open>Siren_Buffer\<close>: \<open>net/Buffer.h\<close> and \<open>net/Buffer.cpp\<close>. Invariant \<open>buf_wf\<close>, abstraction \<open>contents\<close>.
  \<^item> \<open>Siren_Channel\<close>, \<open>Siren_Poller\<close>, \<open>Siren_EventLoop\<close>: \<open>net/Channel.cpp\<close>, \<open>net/poller/EPollPoller.cpp\<close> (and the stubs of \<open>net/poller/PollPoller.cpp\<close>), \<open>net/EventLoop.cpp\<close> and their
    headers. Objects live in maps from addresses. The calls of \<open>epoll_ctl\<close> are a log; \<open>registered\<close> reads from it what the
    kernel knows. Invariants \<open>poller_wf\<close> and \<open>loop_wf\<close>: \<open>channels_\<close>, the channels' \<open>index_\<close> and the kernel agree. The locale
    \<open>channel_registry\<close> is what the owners of channels rely on.
  \<^item> \<open>Siren_Wakeup\<close>: \<open>loop\<close>, \<open>queueInLoop\<close> and \<open>quit\<close> again, as steps of several threads. \<open>queueInLoop\<close> does not hold the mutex (\<open>net/EventLoop.cpp\<close>, line 163), so its
    \<open>push_back\<close> is a step with a beginning and an end, and \<open>raced\<close> says that two threads have been at \<open>pendingFunctors_\<close> at once.
  \<^item> \<open>Siren_Timer\<close>: \<open>net/TimerQueue.cpp\<close>, \<open>net/Timer.h\<close>, \<open>net/TimerId.h\<close>, and the timer operations and the destructor of the loop. Invariant \<open>timers_ok\<close>.
  \<^item> \<open>Siren_Sockets\<close>: \<open>net/Endian.h\<close>, \<open>net/InetAddress.cpp\<close>, \<open>net/SocketsOps.cpp\<close>, \<open>net/Socket.cpp\<close>. System calls are a trace.
  \<^item> \<open>Siren_TcpConnection\<close>, \<open>Siren_Connection\<close>: \<open>net/TcpConnection.cpp\<close> and the callbacks of \<open>example/pingpong/server.cc\<close>. The first has the model and the
    invariant \<open>net_wf\<close>, the second the frame \<open>api_frame\<close> of user code, the life cycle, and the locale \<open>conn_invariant\<close>: what an owner of
    connections has to know of its own invariant to keep it through all events of its connections.
  \<^item> \<open>Siren_Connector\<close>, \<open>Siren_Acceptor\<close>: \<open>net/Connector.cpp\<close> and \<open>net/Acceptor.cpp\<close>.
  \<^item> \<open>Siren_Threads\<close>: \<open>net/EventLoopThread.cpp\<close> and \<open>net/EventLoopThreadPool.cpp\<close>.
  \<^item> \<open>Siren_Server\<close>, \<open>Siren_Client\<close>: \<open>net/TcpServer.cpp\<close> and \<open>net/TcpClient.cpp\<close>, composed with everything above.
  \<^item> \<open>Siren_LoopRuns\<close>: the locale \<open>loop_invariant\<close>, what the users of a loop have to know of their invariant so that every iteration of \<open>loop()\<close> keeps it.
  \<^item> \<open>Siren_ServerLoop\<close>: a server driven by its own loop, which dispatches to timers, acceptor, connections and user code, from \<open>main\<close> of
    \<open>example/pingpong/server.cc\<close> on. Its invariant \<open>busy\<close> is an instance of \<open>conn_invariant\<close> and of \<open>loop_invariant\<close>.
  \<^item> \<open>Siren_PoolServer\<close>: the server once more, with its connections in the loops of a pool. The loops exchange messages over queues and their steps are
    interleaved, \<open>raced\<close> as in \<open>Siren_Wakeup\<close>; \<open>io_ok\<close> is the invariant of one of these loops, again an instance of \<open>conn_invariant\<close>, and \<open>pool_ok\<close> that of all of them.
  \<^item> \<open>Siren_ServerEnd\<close>: the destructor of a server, in the states that its runs reach.
  \<^item> \<open>Siren_ClientRuns\<close>: the operations of a client and its connector, \<open>enableRetry\<close>, the setters of callbacks and the destructor included, as the steps of \<open>client_step\<close>, with the
    invariant \<open>client_ok\<close>.
  \<^item> \<open>Siren_Pingpong\<close>: \<open>example/pingpong/client.cc\<close>.
  \<^item> \<open>Siren_Bench\<close>: \<open>example/pingpong/bench.cc\<close>, a whole program on the model of the loop, from its \<open>main\<close> to its end.

  A class is a \<open>record\<close> with the data members; records of the state extend each other (\<open>poller\<close>, \<open>loop\<close>, \<open>tloop\<close>, \<open>net\<close>, then \<open>cnet\<close>,
  \<open>anet\<close>, \<open>snet\<close>, \<open>clnet\<close>), so that an operation of a component works on the state of every component above it. An operation has the name of the
  source where HOL permits, with the class in front where two classes share it, and \<open>_op\<close> behind it where the bare name is the
  constructor of a callback. A \<open>std::function\<close> is a constructor of \<open>chan_callback\<close>, \<open>closure\<close>, \<open>timer_cb\<close>, \<open>conn_cb\<close>, \<open>msg_cb\<close> or \<open>close_cb\<close>; the one place
  that calls it takes what it does as an argument or interprets it. User code is a function from calls to lists of \<open>api_call\<close>, the public operations of connections, loop and timers; left out are
  the setters that replace the connection or message callback of a live connection, and \<open>outputBuffer()\<close>.

  \<^bold>\<open>What is proved.\<close> A buffer is a byte stream with the documented operations, up to the size at which \<open>int\<close> narrows its
  length. A channel dispatches exactly what the events say. Every change of interest leaves poller and kernel in
  agreement. No wake-up is lost as long as no two threads race for \<open>pendingFunctors_\<close>, except those of functors that the loop's own thread queued before \<open>loop()\<close>. Timers run once, in order and not early, and the
  timerfd is armed for the earliest; a repeating timer is queued again unless its new expiration is taken. A connection tells the user UP and DOWN once each, writes what it was given in order and once (or drops a send as a whole when the kernel answers its \<open>write\<close> by \<open>EPIPE\<close> or \<open>ECONNRESET\<close>), waits for
  writability exactly while output is pending, and shuts down only after it has written everything. A server's map has exactly its open connections and its assertions hold, with and without a
  thread pool, and through all iterations of its loop from \<open>main\<close> on; its destructor takes down all established connections; a client gets the descriptor of its connector, has at most one connection at a time, and reconnects exactly when it should. Connector and acceptor leak no
  descriptor, retries back off exponentially up to 30 s. \<open>startLoop()\<close> returns a loop that exists. The pool is round-robin. The monitors neither lose elements nor
  wake-ups. The pingpong client sends back what arrives and quits when its sessions are down, unless its report overflows; the benchmark runs to its end and takes down what it set up. Where the code does something else than it means to, a theorem says what: lost timers with equal expirations, dangling
  pointers of cross-thread sends and of a destroyed singleton, a destructor that can hang, a server that aborts when it is destroyed with a half-closed connection, pushes that race, functors that wait for a wake-up nobody sends, a benchmark that blocks in \<open>send\<close>, a client that aborts when it connects a second time, names that are cut, a counter without
  initial value.

  \<^bold>\<open>Hypotheses and bounds.\<close> The kernel is a parameter everywhere: \<open>os\<close>, an \<open>attempt\<close>, \<open>accept_answers\<close>, readings of the clock. \<open>os_documented\<close>,
  \<open>readv_documented\<close> and \<open>answers_documented\<close> say that it returns what its manual pages allow. \<open>fresh_conn\<close> and \<open>apart\<close> say that new objects and
  open descriptors differ from those in use. \<open>fresh_attempts\<close> says the same of the
  attempts of a connector, \<open>room\<close> of a connection that arrives in its loop. \<open>keeps_life\<close> and \<open>keeps_conns\<close> are contracts of the owner's closing callback, which \<open>server_keeps_life\<close> and \<open>server_keeps_conns\<close>
  show of a server's. Theorems on several threads assume that no race has happened so far (\<open>\<not> raced\<close>); a race is undefined behaviour, and nothing is said of what follows it. The benchmark takes the room \<open>sock_cap\<close> of a socket as a
  parameter, and its counters are kept within \<open>int\<close>. The only fuel is the list of answers of \<open>epoll_wait\<close> given to \<open>loop_while\<close>,
  for a loop that is meant not to end; the theorem on the benchmark shows how much is enough there. Times are integers in nanoseconds without overflow. Operations run to
  their end in the thread of their loop; interleaving is modelled where the source synchronises: \<open>Siren_Base\<close>, \<open>Siren_Wakeup\<close>, \<open>Siren_Threads\<close>,
  \<open>Siren_PoolServer\<close>, and the counter of \<open>Siren_Pingpong\<close>.

  \<^bold>\<open>Not modelled.\<close> Logging (\<open>Logger\<close>, output only); \<open>noncopyable\<close>, \<open>Types.h\<close> and \<open>Callbacks.h\<close> (idioms and type aliases); casts between kinds of \<open>sockaddr\<close>; the command lines of the examples. Reference counts of
  \<open>shared_ptr\<close> are not computed: an object lives until its destructor runs, and \<open>unique()\<close> is an argument.

  In the runs of \<open>Siren_Server\<close> and \<open>Siren_ClientRuns\<close> \<open>connectDestroyed\<close> is only ever run from the loop's queue \<open>pendingFunctors\<close>, in its order, and a connection with
  a queued functor of this kind is not destroyed; the other functors may also run at any time, which includes every run of the loop. In \<open>Siren_ServerLoop\<close>
  the steps are the iterations of the loop itself.

  \<^bold>\<open>Planned.\<close> \<open>loop_iteration\<close> as the driver of the runs of clients; the destructor of a server with a pool and from within a handler; several clients in one loop.
\<close>

end
